(* ===== verification/Kernel_Prelude.thy ===== *)
theory Kernel_Prelude
  imports Main "HOL-Library.Word"
begin

unbundle bit_operations_syntax

text \<open>
  Shared vocabulary of the development: the machine types of the 32-bit ARM configuration the
  repository builds (\<^verbatim>\<open>arch/arm/configs/onyx_defconfig\<close>: \<^verbatim>\<open>unsigned long\<close> and
  \<^verbatim>\<open>unsigned int\<close> are 32 bits wide), the error numbers the modelled functions return, block copies
  between byte arrays with their bounds checks, and the generic facts on lists, words and powers
  of two the component theories rest on.
\<close>

section \<open>Machine types and error numbers\<close>

type_synonym u8 = "8 word"
type_synonym u16 = "16 word"
type_synonym u32 = "32 word"
type_synonym u64 = "64 word"
type_synonym ulong = "32 word"

text \<open>The error numbers of \<^verbatim>\<open>include/asm-generic/errno-base.h\<close> and \<^verbatim>\<open>errno.h\<close> in use here.\<close>

datatype errno =
    EPERM | ENOENT | EINTR | EAGAIN | ENOMEM | EFAULT | EBUSY | EINVAL | ENOSPC
  | ERANGE | EDEADLK | ENOLCK | EIDRM | ETIME | EFBIG | EOVERFLOW | E2BIG | EACCES
  | EIO | EOPNOTSUPP | EEXIST | EBADF | ERESTARTSYS

text \<open>
  What a kernel function can come to: a stop (\<^verbatim>\<open>BUG_ON\<close>, or an access outside the object it is made
  to), an error number, or a result.
\<close>

datatype 'a kresult = Bug | Err errno | Ok 'a

section \<open>Collections\<close>

named_theorems kernel_simps \<open>equations that carry the component proofs\<close>
named_theorems invar_intros \<open>preservation of the component invariants\<close>

section \<open>Block copies\<close>

text \<open>
  \<^verbatim>\<open>memcpy(dst + off, src, n)\<close> where \<open>dst\<close> and \<open>src\<close> are the arrays the two pointers point
  into. A copy that would read past the end of the source or write past the end of the
  destination is undefined in C; the model returns \<open>None\<close> there, so that a theorem stating that an
  operation returns \<open>Some\<close> also states that its copies stay in bounds.
\<close>

definition memcpy :: "'a list \<Rightarrow> nat \<Rightarrow> 'a list \<Rightarrow> nat \<Rightarrow> nat \<Rightarrow> 'a list option" where
  "memcpy dst doff src soff n =
     (if doff + n \<le> length dst \<and> soff + n \<le> length src
      then Some (take doff dst @ take n (drop soff src) @ drop (doff + n) dst)
      else None)"

lemma memcpy_Some:
  "doff + n \<le> length dst \<Longrightarrow> soff + n \<le> length src \<Longrightarrow>
   memcpy dst doff src soff n = Some (take doff dst @ take n (drop soff src) @ drop (doff + n) dst)"
  by (simp add: memcpy_def)

lemma memcpy_length: "memcpy dst doff src soff n = Some dst' \<Longrightarrow> length dst' = length dst"
  by (auto simp: memcpy_def min_def split: if_splits)

lemma memcpy_nth:
  assumes "memcpy dst doff src soff n = Some dst'" and "i < length dst"
  shows "dst' ! i = (if doff \<le> i \<and> i < doff + n then src ! (soff + (i - doff)) else dst ! i)"
proof -
  from assms have le: "doff + n \<le> length dst" "soff + n \<le> length src"
    and dst': "dst' = take doff dst @ take n (drop soff src) @ drop (doff + n) dst"
    by (auto simp: memcpy_def split: if_splits)
  from le have len: "length (take doff dst) = doff" "length (take n (drop soff src)) = n" by auto
  consider "i < doff" | j where "i = doff + j" "j < n" | j where "i = doff + n + j"
    by (metis add.assoc add_less_cancel_left le_add_diff_inverse not_le)
  then show ?thesis
    using le assms(2) unfolding dst' nth_append len by cases simp_all
qed

lemma memcpy_zero [simp]:
  "doff \<le> length dst \<Longrightarrow> soff \<le> length src \<Longrightarrow> memcpy dst doff src soff 0 = Some dst"
  by (simp add: memcpy_def)

section \<open>Powers of two and masks\<close>

lemma unat_pow2: "k < LENGTH('a) \<Longrightarrow> unat ((2::'a::len word) ^ k) = 2 ^ k"
  by (metis (mono_tags, opaque_lifting) of_nat_numeral of_nat_power unat_of_nat mod_less
      one_less_numeral_iff power_strict_increasing semiring_norm(76))

text \<open>Masking with \<open>2 ^ k - 1\<close> is reduction modulo \<open>2 ^ k\<close>.\<close>

lemma unat_and_pow2_minus_1:
  fixes x :: "'a::len word"
  assumes "k < LENGTH('a)"
  shows "unat (x AND (2 ^ k - 1)) = unat x mod 2 ^ k"
proof -
  have "x AND (2 ^ k - 1) = take_bit k x"
    by (simp only: take_bit_eq_mask mask_eq_exp_minus_1)
  then show ?thesis
    by (simp only: unsigned_take_bit_eq) (simp add: take_bit_eq_mod)
qed

lemma unat_sub_wrap:
  fixes a b :: "'a::len word"
  shows "unat (a - b) = (unat a + 2 ^ LENGTH('a) - unat b) mod 2 ^ LENGTH('a)"
proof (cases "unat b \<le> unat a")
  case True
  have "unat a - unat b < 2 ^ LENGTH('a)"
    by (rule le_less_trans [OF diff_le_self unsigned_less])
  moreover have "unat a + 2 ^ LENGTH('a) - unat b = (unat a - unat b) + 2 ^ LENGTH('a)"
    using True by simp
  ultimately show ?thesis using True by (simp only: unat_sub_if_size mod_add_self2 mod_less if_True)
next
  case False
  have "unat a + 2 ^ LENGTH('a) - unat b < 2 ^ LENGTH('a)"
    using False unsigned_less[of b, where ?'a = nat] by linarith
  with False show ?thesis by (simp add: unat_sub_if_size word_size)
qed

text \<open>A word with no bit in common with its predecessor is zero or a power of two.\<close>

lemma pow2_wordE:
  fixes n :: "'a::len word"
  assumes "n \<noteq> 0" "n AND (n - 1) = 0"
  shows "\<exists>k < LENGTH('a). n = 2 ^ k"
proof -
  obtain k where k: "2 ^ k \<le> unat n" "unat n < 2 ^ Suc k"
    using assms(1) ex_power_ivl1[of 2 "unat n"] by (auto simp: unat_gt_0 Suc_le_eq)
  have kL: "k < LENGTH('a)"
    using le_less_trans[OF k(1) unsigned_less] by (simp add: power_strict_increasing_iff)
  have bitk: "bit m k" if "2 ^ k \<le> unat m" "unat m < 2 ^ Suc k" for m :: "'a word"
  proof -
    have "unat m div 2 ^ k = 1" using that 
      by (simp add: div_nat_eqI)
    then have "bit (unat m) k" by (simp add: bit_iff_odd)
    then show ?thesis by (simp add: bit_unsigned_iff)
  qed
  have "unat n = 2 ^ k"
  proof (rule ccontr)
    assume "unat n \<noteq> 2 ^ k"
    with k have "2 ^ k \<le> unat (n - 1)" "unat (n - 1) < 2 ^ Suc k"
      using assms(1) by (auto simp: unat_minus_one)
    then have "bit (n - 1) k" by (rule bitk)
    moreover have "bit n k" by (rule bitk[OF k])
    ultimately have "bit (n AND (n - 1)) k" by (simp add: bit_and_iff)
    with assms(2) show False by simp
  qed
  then have "n = 2 ^ k" using kL by (simp add: word_unat_eq_iff unat_pow2)
  with kL show ?thesis by blast
qed

lemma and_not_mask_eq_0_iff:
  fixes x :: "'a::len word"
  shows "x AND NOT (mask n) = 0 \<longleftrightarrow> unat x < 2 ^ n"
proof -
  have "x AND NOT (mask n) = 0 \<longleftrightarrow> take_bit n x = x"
    by (auto simp: bit_eq_iff bit_simps)
  also have "\<dots> \<longleftrightarrow> unat (take_bit n x) = unat x" by (simp add: word_unat_eq_iff)
  also have "\<dots> \<longleftrightarrow> unat x < 2 ^ n"
    by (simp only: unsigned_take_bit_eq take_bit_nat_eq_self_iff)
  finally show ?thesis .
qed

lemma unat_push_bit:
  fixes x :: "'a::len word"
  assumes "unat x * 2 ^ n < 2 ^ LENGTH('a)"
  shows "unat (push_bit n x) = unat x * 2 ^ n"
proof -
  have "unat (push_bit n x) = take_bit LENGTH('a) (push_bit n (unat x))"
    by (rule unsigned_push_bit_eq)
  then show ?thesis using assms by (simp add: push_bit_eq_mult take_bit_eq_mod)
qed

lemma word_min_unat: "unat (min a b) = min (unat a) (unat (b :: 'a :: len word))"
  by (simp add: min_def word_le_nat_alt)

section \<open>Distances on a ring\<close>

text \<open>
  For a ring of \<open>S\<close> cells, \<open>(j + S - p) mod S\<close> is how far cell \<open>j\<close> lies ahead of cell \<open>p\<close>.
\<close>

lemma ring_dist_fwd:
  fixes S :: nat
  assumes "0 < S" "t < S"
  shows "((b + t) mod S + S - b mod S) mod S = t"
proof -
  have "((b + t) mod S + S - b mod S) mod S = ((b + t) mod S + (S - b mod S)) mod S"
    using assms by (simp add: less_imp_le)
  also have "\<dots> = ((b mod S + t) + (S - b mod S)) mod S"
    by (metis mod_add_left_eq)
  also have "(b mod S + t) + (S - b mod S) = t + S"
    using assms by (simp add: less_imp_le)
  finally show ?thesis using assms by simp
qed

lemma ring_dist_bwd:
  fixes S :: nat
  assumes "0 < S" "0 < t" "t \<le> S"
  shows "(a mod S + S - (a + t) mod S) mod S = S - t"
proof -
  have le: "(a + t) mod S \<le> S" using assms by (simp add: less_imp_le)
  have "(a mod S + S - (a + t) mod S) mod S = (a mod S + (S - (a + t) mod S)) mod S"
    using le by simp
  also have "\<dots> = ((a + (t + (S - t))) mod S + (S - (a + t) mod S)) mod S"
    using assms by simp
  also have "\<dots> = (((a + t) mod S + (S - t)) + (S - (a + t) mod S)) mod S"
    by (metis add.assoc mod_add_left_eq)
  also have "((a + t) mod S + (S - t)) + (S - (a + t) mod S) = (S - t) + S"
    using le by simp
  also have "((S - t) + S) mod S = S - t"
    using assms by (simp only: mod_add_self2) simp
  finally show ?thesis .
qed

lemma sint_nonneg_unat:
  fixes k :: u32
  assumes "0 \<le> sint k"
  shows "sint k = uint k" "unat k < 2 ^ 31"
proof -
  have lt: "uint k < 2 ^ 32" using unsigned_less[of k, where ?'a = int] by simp
  have e: "sint k = uint k - 2 ^ 32 * of_bool (bit (uint k) 31)"
    using lt by (simp add: sint_uint signed_take_bit_eq_take_bit_minus take_bit_int_eq_self_iff)
  from lt e assms show eq: "sint k = uint k" by (cases "bit (uint k) 31") simp_all
  have "sint k < 2 ^ 31" using sint_lt[of k] by simp
  then have "int (unat k) < 2 ^ 31" unfolding eq uint_nat .
  then show "unat k < 2 ^ 31" by (rule of_nat_less_numeral_power_cancel_iff[THEN iffD1])
qed

lemma unat_minus_1: "0 < (c :: 'a::len word) \<Longrightarrow> unat (c - 1) + 1 = unat c"
  using unat_sub[of 1 c] by (simp add: word_le_nat_alt word_less_nat_alt)

end
