(* ===== verification/Kfifo.thy ===== *)
theory Kfifo
  imports Kernel_Prelude
begin

unbundle bit_operations_syntax

text \<open>
  The kernel byte FIFO: \<^verbatim>\<open>kernel/kfifo.c\<close> and the inline operations of
  \<^verbatim>\<open>include/linux/kfifo.h\<close>, with the power-of-two helpers of \<^verbatim>\<open>include/linux/log2.h\<close> they call.
  The indices \<open>in\<close> and \<open>out\<close> are free-running 32-bit counters that wrap around; the buffer
  position is the counter masked with \<open>size - 1\<close>. The abstract view of a FIFO is the list of bytes
  between the two counters, and the interface \<open>byte_queue\<close> states the queue laws over that view.
  The spinlock only serialises calls and is not part of the state.
\<close>

section \<open>Model\<close>

text \<open>\<^verbatim>\<open>fls\<close>: the position of the highest set bit, counted from 1; 0 for the argument 0.\<close>

definition fls :: "u32 \<Rightarrow> nat" where
  "fls x0 =
     (if x0 = 0 then 0 else
      let (x, r) = (x0, 32);
          (x, r) = (if x AND 0xffff0000 = 0 then (push_bit 16 x, r - 16) else (x, r));
          (x, r) = (if x AND 0xff000000 = 0 then (push_bit 8 x, r - 8) else (x, r));
          (x, r) = (if x AND 0xf0000000 = 0 then (push_bit 4 x, r - 4) else (x, r));
          (x, r) = (if x AND 0xc0000000 = 0 then (push_bit 2 x, r - 2) else (x, r));
          (x, r) = (if x AND 0x80000000 = 0 then (push_bit 1 x, r - 1) else (x, r))
      in r)"

definition is_power_of_2 :: "ulong \<Rightarrow> bool" where
  "is_power_of_2 n \<longleftrightarrow> n \<noteq> 0 \<and> n AND (n - 1) = 0"

definition roundup_pow_of_two :: "ulong \<Rightarrow> ulong" where
  "roundup_pow_of_two n = push_bit (fls (n - 1)) 1"

text \<open>\<^verbatim>\<open>struct kfifo\<close>.\<close>

record kfifo =
  kf_buffer :: "u8 list"
  kf_size :: u32
  kf_in :: u32
  kf_out :: u32

text \<open>
  \<^verbatim>\<open>kfifo_init\<close> and \<^verbatim>\<open>kfifo_alloc\<close>. The outcome of each \<^verbatim>\<open>kmalloc\<close> is an argument: whether the
  descriptor allocation succeeds, and the array (of the requested length) returned for the
  buffer, if any.
\<close>

definition kfifo_init :: "u8 list \<Rightarrow> u32 \<Rightarrow> bool \<Rightarrow> kfifo kresult" where
  "kfifo_init buffer sz kmalloc_ok =
     (if \<not> is_power_of_2 sz then Bug
      else if \<not> kmalloc_ok then Err ENOMEM
      else Ok \<lparr>kf_buffer = buffer, kf_size = sz, kf_in = 0, kf_out = 0\<rparr>)"

definition kfifo_alloc :: "(u32 \<Rightarrow> u8 list option) \<Rightarrow> bool \<Rightarrow> u32 \<Rightarrow> kfifo kresult" where
  "kfifo_alloc kmalloc kmalloc_ok sz0 =
     (if sz0 AND (sz0 - 1) \<noteq> 0 \<and> sz0 > 0x80000000 then Bug
      else
        let sz = (if sz0 AND (sz0 - 1) \<noteq> 0 then roundup_pow_of_two sz0 else sz0)
        in case kmalloc sz of
             None \<Rightarrow> Err ENOMEM
           | Some buffer \<Rightarrow> kfifo_init buffer sz kmalloc_ok)"

text \<open>
  \<^verbatim>\<open>__kfifo_put\<close> and \<^verbatim>\<open>__kfifo_get\<close>, with their two block copies each. The result \<open>None\<close> stands for a
  copy out of bounds.
\<close>

definition kfifo_put_nolock :: "kfifo \<Rightarrow> u8 list \<Rightarrow> u32 \<Rightarrow> (kfifo \<times> u32) option" where
  "kfifo_put_nolock fifo buffer len0 =
     (let len = min len0 (kf_size fifo - kf_in fifo + kf_out fifo);
          l = min len (kf_size fifo - (kf_in fifo AND (kf_size fifo - 1)))
      in case memcpy (kf_buffer fifo) (unat (kf_in fifo AND (kf_size fifo - 1))) buffer 0 (unat l) of
           None \<Rightarrow> None
         | Some b1 \<Rightarrow>
             (case memcpy b1 0 buffer (unat l) (unat (len - l)) of
                None \<Rightarrow> None
              | Some b2 \<Rightarrow> Some (fifo\<lparr>kf_buffer := b2, kf_in := kf_in fifo + len\<rparr>, len)))"

definition kfifo_get_nolock :: "kfifo \<Rightarrow> u8 list \<Rightarrow> u32 \<Rightarrow> (kfifo \<times> u8 list \<times> u32) option" where
  "kfifo_get_nolock fifo buffer len0 =
     (let len = min len0 (kf_in fifo - kf_out fifo);
          l = min len (kf_size fifo - (kf_out fifo AND (kf_size fifo - 1)))
      in case memcpy buffer 0 (kf_buffer fifo) (unat (kf_out fifo AND (kf_size fifo - 1))) (unat l) of
           None \<Rightarrow> None
         | Some b1 \<Rightarrow>
             (case memcpy b1 (unat l) (kf_buffer fifo) 0 (unat (len - l)) of
                None \<Rightarrow> None
              | Some b2 \<Rightarrow> Some (fifo\<lparr>kf_out := kf_out fifo + len\<rparr>, b2, len)))"

definition kfifo_reset :: "kfifo \<Rightarrow> kfifo" where
  "kfifo_reset fifo = fifo\<lparr>kf_in := 0, kf_out := 0\<rparr>"

definition kfifo_len :: "kfifo \<Rightarrow> u32" where
  "kfifo_len fifo = kf_in fifo - kf_out fifo"

text \<open>The locked variants: \<^verbatim>\<open>kfifo_get\<close> also resets the counters of a FIFO it has emptied.\<close>

definition kfifo_put :: "kfifo \<Rightarrow> u8 list \<Rightarrow> u32 \<Rightarrow> (kfifo \<times> u32) option" where
  "kfifo_put fifo buffer len = kfifo_put_nolock fifo buffer len"

definition kfifo_get :: "kfifo \<Rightarrow> u8 list \<Rightarrow> u32 \<Rightarrow> (kfifo \<times> u8 list \<times> u32) option" where
  "kfifo_get fifo buffer len =
     (case kfifo_get_nolock fifo buffer len of
        None \<Rightarrow> None
      | Some (fifo', b, ret) \<Rightarrow>
          Some (if kf_in fifo' = kf_out fifo' then fifo'\<lparr>kf_in := 0, kf_out := 0\<rparr> else fifo', b, ret))"

text \<open>
  A client's view: a sequence of puts and gets, each get into a fresh buffer. The run collects the
  bytes the queue accepted and the bytes it delivered.
\<close>

datatype fifo_op = Put "u8 list" | Get u32

fun fifo_run ::
  "('q \<Rightarrow> u8 list \<Rightarrow> u32 \<Rightarrow> ('q \<times> u32) option) \<Rightarrow>
   ('q \<Rightarrow> u8 list \<Rightarrow> u32 \<Rightarrow> ('q \<times> u8 list \<times> u32) option) \<Rightarrow>
   'q \<Rightarrow> fifo_op list \<Rightarrow> ('q \<times> u8 list \<times> u8 list) option" where
  "fifo_run put get q [] = Some (q, [], [])"
| "fifo_run put get q (Put xs # ops) =
     (case put q xs (of_nat (length xs)) of
        None \<Rightarrow> None
      | Some (q', n) \<Rightarrow>
          (case fifo_run put get q' ops of
             None \<Rightarrow> None
           | Some (q'', acc, del) \<Rightarrow> Some (q'', take (unat n) xs @ acc, del)))"
| "fifo_run put get q (Get len # ops) =
     (case get q (replicate (unat len) 0) len of
        None \<Rightarrow> None
      | Some (q', b, n) \<Rightarrow>
          (case fifo_run put get q' ops of
             None \<Rightarrow> None
           | Some (q'', acc, del) \<Rightarrow> Some (q'', acc, take (unat n) b @ del)))"

fun fifo_op_ok :: "fifo_op \<Rightarrow> bool" where
  "fifo_op_ok (Put xs) \<longleftrightarrow> length xs < 2 ^ 32"
| "fifo_op_ok (Get len) \<longleftrightarrow> True"

section \<open>Invariant and abstract view\<close>

definition kfifo_inv :: "kfifo \<Rightarrow> bool" where
  "kfifo_inv f \<longleftrightarrow> is_power_of_2 (kf_size f) \<and> length (kf_buffer f) = unat (kf_size f) \<and>
     kf_in f - kf_out f \<le> kf_size f"

definition kfifo_contents :: "kfifo \<Rightarrow> u8 list" where
  "kfifo_contents f =
     map (\<lambda>i. kf_buffer f ! ((unat (kf_out f) + i) mod unat (kf_size f))) [0..<unat (kf_in f - kf_out f)]"

section \<open>Powers of two\<close>

text \<open>
  \<open>fls\<close> halves the search range five times; \<open>fls_step\<close> is one halving, and \<open>fls_step_rel\<close> keeps
  the word a power-of-two multiple of the argument.
\<close>

definition fls_step :: "nat \<Rightarrow> u32 \<times> nat \<Rightarrow> u32 \<times> nat" where
  "fls_step s xr = (if fst xr AND NOT (mask (32 - s)) = 0 then (push_bit s (fst xr), snd xr - s) else xr)"

lemma fls_step_rel:
  assumes x: "unat (fst xr) = unat x0 * 2 ^ (32 - snd xr)" and lo: "2 ^ (32 - 2 * s) \<le> unat (fst xr)"
    and r: "2 * s \<le> snd xr" "snd xr \<le> 32" and s: "0 < s" "s \<le> 16"
  shows "unat (fst (fls_step s xr)) = unat x0 * 2 ^ (32 - snd (fls_step s xr)) \<and>
    2 ^ (32 - s) \<le> unat (fst (fls_step s xr)) \<and> s \<le> snd (fls_step s xr) \<and> snd (fls_step s xr) \<le> 32"
proof (cases "unat (fst xr) < 2 ^ (32 - s)")
  case True
  have p: "(2::nat) ^ (32 - s) * 2 ^ s = 2 ^ 32" "(2::nat) ^ (32 - 2 * s) * 2 ^ s = 2 ^ (32 - s)"
    using s by (simp_all flip: power_add)
  have "unat (fst xr) * 2 ^ s < 2 ^ (32 - s) * 2 ^ s" using True by simp
  then have push: "unat (push_bit s (fst xr)) = unat (fst xr) * 2 ^ s"
    using unat_push_bit[of "fst xr" s] p by simp
  have "(2::nat) ^ (32 - snd xr) * 2 ^ s = 2 ^ (32 - (snd xr - s))"
    using r s by (simp flip: power_add)
  then have "unat (push_bit s (fst xr)) = unat x0 * 2 ^ (32 - (snd xr - s))"
    unfolding push x by (metis mult.assoc)
  moreover have "2 ^ (32 - 2 * s) * 2 ^ s \<le> unat (push_bit s (fst xr))"
    unfolding push using lo by simp
  moreover have "s \<le> snd xr - s" "snd xr - s \<le> 32" using r by simp_all
  moreover have "fls_step s xr = (push_bit s (fst xr), snd xr - s)"
    using True by (simp add: fls_step_def and_not_mask_eq_0_iff)
  ultimately show ?thesis using p by simp
next
  case False
  then show ?thesis using x r s by (simp add: fls_step_def and_not_mask_eq_0_iff)
qed

lemma fls_masks:
  "NOT (mask 16) = (0xffff0000::u32)" "NOT (mask 24) = (0xff000000::u32)"
  "NOT (mask 28) = (0xf0000000::u32)" "NOT (mask 30) = (0xc0000000::u32)"
  "NOT (mask 31) = (0x80000000::u32)"
  by (simp_all add: mask_eq_exp_minus_1)

lemma fls_fold:
  "(if x AND 0xffff0000 = 0 then (push_bit 16 x, r - 16) else (x, r)) = fls_step 16 (x, r)"
  "(if x AND 0xff000000 = 0 then (push_bit 8 x, r - 8) else (x, r)) = fls_step 8 (x, r)"
  "(if x AND 0xf0000000 = 0 then (push_bit 4 x, r - 4) else (x, r)) = fls_step 4 (x, r)"
  "(if x AND 0xc0000000 = 0 then (push_bit 2 x, r - 2) else (x, r)) = fls_step 2 (x, r)"
  "(if x AND 0x80000000 = 0 then (push_bit 1 x, r - 1) else (x, r)) = fls_step 1 (x, r)"
  by (simp_all add: fls_step_def fls_masks)

lemma fls_steps:
  "x \<noteq> 0 \<Longrightarrow> fls x = snd (fls_step 1 (fls_step 2 (fls_step 4 (fls_step 8 (fls_step 16 (x, 32))))))"
  by (simp only: fls_def Let_def fls_fold prod.case_eq_if prod.collapse if_False fst_conv snd_conv)

lemma fls_bounds:
  assumes "x \<noteq> 0"
  shows "0 < fls x" "fls x \<le> 32" "2 ^ (fls x - 1) \<le> unat x" "unat x < 2 ^ fls x"
proof -
  define a where "a = fls_step 16 (x, 32)"
  define b where "b = fls_step 8 a"
  define c where "c = fls_step 4 b"
  define d where "d = fls_step 2 c"
  define e where "e = fls_step 1 d"
  note rel = fls_step_rel[of _ x]
  have "1 \<le> unat x" using assms by (simp add: Suc_le_eq unat_gt_0)
  then have a: "unat (fst a) = unat x * 2 ^ (32 - snd a) \<and> 2 ^ 16 \<le> unat (fst a) \<and> 16 \<le> snd a \<and> snd a \<le> 32"
    using rel[of "(x, 32)" 16] by (simp add: a_def)
  then have b: "unat (fst b) = unat x * 2 ^ (32 - snd b) \<and> 2 ^ 24 \<le> unat (fst b) \<and> 8 \<le> snd b \<and> snd b \<le> 32"
    using rel[of a 8] by (simp add: b_def)
  then have c: "unat (fst c) = unat x * 2 ^ (32 - snd c) \<and> 2 ^ 28 \<le> unat (fst c) \<and> 4 \<le> snd c \<and> snd c \<le> 32"
    using rel[of b 4] by (simp add: c_def)
  then have d: "unat (fst d) = unat x * 2 ^ (32 - snd d) \<and> 2 ^ 30 \<le> unat (fst d) \<and> 2 \<le> snd d \<and> snd d \<le> 32"
    using rel[of c 2] by (simp add: d_def)
  then have e: "unat (fst e) = unat x * 2 ^ (32 - snd e)" "2 ^ 31 \<le> unat (fst e)" "1 \<le> snd e" "snd e \<le> 32"
    using rel[of d 1] by (simp_all add: e_def)
  have fls: "fls x = snd e" using fls_steps[OF assms] by (simp add: a_def b_def c_def d_def e_def)
  show "0 < fls x" "fls x \<le> 32" using e fls by simp_all
  have p: "(2::nat) ^ 31 = 2 ^ (snd e - 1) * 2 ^ (32 - snd e)" "(2::nat) ^ 32 = 2 ^ snd e * 2 ^ (32 - snd e)"
    using e by (simp_all flip: power_add)
  have "2 ^ (snd e - 1) * 2 ^ (32 - snd e) \<le> unat x * 2 ^ (32 - snd e)" using e p by simp
  then show "2 ^ (fls x - 1) \<le> unat x" unfolding fls by simp
  have "unat (fst e) < 2 ^ 32" using unsigned_less[of "fst e", where ?'a = nat] by simp
  then have "unat x * 2 ^ (32 - snd e) < 2 ^ snd e * 2 ^ (32 - snd e)" using e p by simp
  then show "unat x < 2 ^ fls x" unfolding fls by simp
qed

lemma roundup_pow_of_two_spec:
  assumes "1 < unat n" "unat n \<le> 2 ^ 31"
  shows "is_power_of_2 (roundup_pow_of_two n)" "unat n \<le> unat (roundup_pow_of_two n)"
    "unat (roundup_pow_of_two n) < 2 * unat n"
proof -
  have n0: "n \<noteq> 0" using assms(1) by auto
  have n1: "unat (n - 1) = unat n - 1" "n - 1 \<noteq> 0"
    using assms(1) unat_minus_one[OF n0] by (auto simp: unat_eq_zero)
  note b = fls_bounds[OF n1(2)]
  have "2 ^ (fls (n - 1) - 1) < (2::nat) ^ 31" using b(3) n1 assms by linarith
  then have "fls (n - 1) - 1 < 31" by (rule power_less_imp_less_exp [rotated]) simp
  then have f31: "fls (n - 1) \<le> 31" using b(1) by simp
  then have r: "roundup_pow_of_two n = 2 ^ fls (n - 1)" "unat (roundup_pow_of_two n) = 2 ^ fls (n - 1)"
    by (simp_all add: roundup_pow_of_two_def push_bit_eq_mult unat_pow2)
  show "unat n \<le> unat (roundup_pow_of_two n)" using r b n1 assms by simp
  have "(2::nat) ^ fls (n - 1) = 2 * 2 ^ (fls (n - 1) - 1)" using b(1) by (simp flip: power_Suc)
  then show "unat (roundup_pow_of_two n) < 2 * unat n" using r b(3) n1 assms by simp
  have "(2::u32) ^ fls (n - 1) AND (2 ^ fls (n - 1) - 1) = 0"
    using f31 by (simp add: word_unat_eq_iff unat_and_pow2_minus_1 unat_pow2)
  moreover have "(2::u32) ^ fls (n - 1) \<noteq> 0" using f31 unat_pow2[of "fls (n - 1)", where ?'a = 32] by fastforce
  ultimately show "is_power_of_2 (roundup_pow_of_two n)" by (simp add: is_power_of_2_def r)
qed

section \<open>The two block copies on the ring\<close>

lemma kfifo_invE:
  assumes "kfifo_inv f"
  obtains k where "k < 32" "kf_size f = 2 ^ k" "unat (kf_size f) = 2 ^ k"
    "length (kf_buffer f) = 2 ^ k" "length (kfifo_contents f) \<le> 2 ^ k"
    "length (kfifo_contents f) = unat (kf_in f - kf_out f)"
proof -
  from assms have "kf_size f \<noteq> 0" "kf_size f AND (kf_size f - 1) = 0"
    by (auto simp: kfifo_inv_def is_power_of_2_def)
  from pow2_wordE[OF this] obtain k where k: "k < 32" "kf_size f = 2 ^ k" by auto
  then have "unat (kf_size f) = 2 ^ k" by (simp add: unat_pow2)
  with k assms that show thesis
    by (auto simp: kfifo_inv_def kfifo_contents_def word_le_nat_alt)
qed

lemma unat_in_mod:
  assumes "k < 32" 
  shows "unat (i::u32) mod 2 ^ k = (unat (j::u32) + unat (i - j)) mod 2 ^ k"
proof -
  have "unat (j + (i - j)) = (unat j + unat (i - j)) mod 2 ^ 32"
    by (subst unat_word_ariths(1)) simp
  then have "unat i = (unat j + unat (i - j)) mod 2 ^ 32" by simp
  moreover have "(2::nat) ^ k dvd 2 ^ 32" using assms by (intro le_imp_power_dvd) simp
  ultimately show ?thesis by (simp add: mod_mod_cancel)
qed

text \<open>Two block copies around the end of the ring write the distance-\<open>d\<close> cell with byte \<open>d\<close>.\<close>
lemma ring_write:
  assumes "memcpy b pos src 0 l = Some b1" "memcpy b1 0 src l (n - l) = Some b2"
    and "l = min n (S - pos)" "pos < S" "n \<le> S" "length b = S" "j < S"
  shows "b2 ! j = (let d = (j + S - pos) mod S in if d < n then src ! d else b ! j)"
proof -
  have b1: "b1 ! j = (if pos \<le> j \<and> j < pos + l then src ! (j - pos) else b ! j)"
    using memcpy_nth[OF assms(1)] assms by simp
  have len1: "length b1 = S" using memcpy_length[OF assms(1)] assms by simp
  have b2: "b2 ! j = (if j < n - l then src ! (l + j) else b1 ! j)"
    using memcpy_nth[OF assms(2), of j] assms(7) len1 by simp
  show ?thesis
  proof (cases "pos \<le> j")
    case True
    then have "(j + S - pos) mod S = j - pos"
      using assms by (metis Nat.diff_add_assoc2 less_imp_diff_less mod_add_self2 mod_less)
    then show ?thesis unfolding b2 b1 using True assms by (auto simp: Let_def min_def)
  next
    case False
    then have "(j + S - pos) mod S = j + (S - pos)" using assms by simp
    then show ?thesis unfolding b2 b1 using False assms by (auto simp: Let_def min_def add.commute)
  qed
qed

lemma ring_read:
  assumes "memcpy dst 0 b pos l = Some d1" "memcpy d1 l b 0 (n - l) = Some d2"
    and "l = min n (S - pos)" "pos < S" "n \<le> S" "length b = S" 
  shows "d2 = map (\<lambda>i. b ! ((pos + i) mod S)) [0..<n] @ drop n dst"
proof -
  have len1: "length d1 = length dst" and len2: "length d2 = length dst"
    using memcpy_length[OF assms(1)] memcpy_length[OF assms(2)] by simp_all
  have n: "n \<le> length dst" using assms(1-3) len1 by (auto simp: memcpy_def min_def split: if_splits)
  have "d2 ! i = (if i < n then b ! ((pos + i) mod S) else dst ! i)" if "i < length dst" for i
  proof -
    have d1: "d1 ! i = (if i < l then b ! (pos + i) else dst ! i)"
      using memcpy_nth[OF assms(1) that] by simp
    have d2: "d2 ! i = (if l \<le> i \<and> i < l + (n - l) then b ! (i - l) else d1 ! i)"
      using memcpy_nth[OF assms(2)] that len1 by simp
    show ?thesis 
    proof (cases "i < l")
      case True then show ?thesis unfolding d2 d1 using assms by auto
    next
      case False
      then have "i < n \<Longrightarrow> (pos + i) mod S = i - l" using assms
        by (auto simp: min_def mod_if split: if_splits)
      with False show ?thesis unfolding d2 d1 using assms by auto
    qed
  qed
  then show ?thesis using n by (intro nth_equalityI) (auto simp: len2 nth_append)
qed

lemma kfifo_free_space:
  assumes "kfifo_inv f"
  shows "unat (kf_size f - kf_in f + kf_out f) = unat (kf_size f) - length (kfifo_contents f)"
proof -
  from assms obtain k where k: "k < 32" "kf_size f = 2 ^ k" "unat (kf_size f) = 2 ^ k"
    and n: "length (kfifo_contents f) \<le> 2 ^ k" "length (kfifo_contents f) = unat (kf_in f - kf_out f)"
    by (rule kfifo_invE)
  have "kf_size f - kf_in f + kf_out f = kf_size f - (kf_in f - kf_out f)" by simp
  moreover have "kf_in f - kf_out f \<le> kf_size f" using n k by (simp add: word_le_nat_alt)
  ultimately have "unat (kf_size f - kf_in f + kf_out f) = unat (kf_size f) - unat (kf_in f - kf_out f)"
    by (simp only: unat_sub)
  with n show ?thesis by simp
qed

lemma kfifo_put_nolock_spec:
  assumes inv: "kfifo_inv f" and len: "unat len \<le> length src"
  defines "n \<equiv> min (unat len) (unat (kf_size f) - length (kfifo_contents f))"
  shows "\<exists>f'. kfifo_put_nolock f src len = Some (f', of_nat n) \<and> kfifo_inv f' \<and>
           kf_size f' = kf_size f \<and> kfifo_contents f' = kfifo_contents f @ take n src"
proof -
  from inv obtain k where k: "k < 32" "kf_size f = 2 ^ k" "unat (kf_size f) = 2 ^ k"
    and buf: "length (kf_buffer f) = 2 ^ k"
    and c: "length (kfifo_contents f) \<le> 2 ^ k" "length (kfifo_contents f) = unat (kf_in f - kf_out f)"
    by (rule kfifo_invE)
  define S where "S = (2::nat) ^ k"
  define m where "m = unat (kf_in f - kf_out f)"
  define pos where "pos = unat (kf_in f AND (kf_size f - 1))"
  define lenw where "lenw = min len (kf_size f - kf_in f + kf_out f)"
  define lw where "lw = min lenw (kf_size f - (kf_in f AND (kf_size f - 1)))"
  have S: "0 < S" by (simp add: S_def)
  have m: "m \<le> S" "length (kfifo_contents f) = m" using c by (simp_all add: m_def S_def)
  have pos: "pos = unat (kf_in f) mod S" "pos < S"
    using k by (simp_all add: pos_def unat_and_pow2_minus_1 S_def)
  have lenw: "unat lenw = n"
    by (simp add: lenw_def word_min_unat kfifo_free_space[OF inv] n_def)
  have "unat (kf_size f - (kf_in f AND (kf_size f - 1))) = S - pos"
    using k pos by (simp add: unat_sub word_le_nat_alt pos_def S_def less_imp_le)
  then have lw: "unat lw = min n (S - pos)" by (simp add: lw_def word_min_unat lenw)
  have nS: "n \<le> S - m" "n \<le> S" "n \<le> length src" using m k len by (auto simp: n_def S_def m_def)
  have diff: "unat (lenw - lw) = n - unat lw"
    using lw lenw by (simp add: unat_sub word_le_nat_alt)
  have bnd: "pos + unat lw \<le> length (kf_buffer f)" "0 + unat lw \<le> length src"
    using lw nS pos(2) buf by (auto simp: S_def)
  obtain b1 where b1: "memcpy (kf_buffer f) pos src 0 (unat lw) = Some b1"
    using memcpy_Some[OF bnd] by blast
  have lb1: "length b1 = S" using memcpy_length[OF b1] buf by (simp add: S_def)
  obtain b2 where b2: "memcpy b1 0 src (unat lw) (n - unat lw) = Some b2"
    using memcpy_Some[of 0 "n - unat lw" b1 "unat lw" src] lw nS lb1 by auto
  have lb2: "length b2 = S" using memcpy_length[OF b2] lb1 by simp
  define f' where "f' = f\<lparr>kf_buffer := b2, kf_in := kf_in f + lenw\<rparr>"
  have put: "kfifo_put_nolock f src len = Some (f', lenw)"
    using b1 b2 diff by (simp add: kfifo_put_nolock_def Let_def f'_def lenw_def lw_def pos_def)
  have "unat (kf_in f' - kf_out f') = unat ((kf_in f - kf_out f) + lenw)"
    by (simp add: f'_def algebra_simps)
  also have "\<dots> = m + n"
    using nS m k unsigned_less[of "kf_size f", where ?'a = nat]
    by (simp add: unat_plus_if' lenw S_def flip: m_def)
  finally have m': "unat (kf_in f' - kf_out f') = m + n" .
  have inv': "kfifo_inv f'"
    using inv m' lb2 nS m k by (simp add: kfifo_inv_def word_le_nat_alt f'_def S_def)
  have cell: "b2 ! j = (let d = (j + S - pos) mod S in if d < n then src ! d else kf_buffer f ! j)"
    if "j < S" for j
    using ring_write[OF b1 b2 lw] pos nS buf that by (simp add: S_def)
  have posm: "pos = (unat (kf_out f) + m) mod S"
    using pos unat_in_mod[OF k(1), of "kf_in f" "kf_out f"] by (simp add: S_def m_def)
  have old: "b2 ! ((unat (kf_out f) + i) mod S) = kf_buffer f ! ((unat (kf_out f) + i) mod S)"
    if "i < m" for i
  proof -
    have "((unat (kf_out f) + i) mod S + S - pos) mod S = S - (m - i)"
      using ring_dist_bwd[OF S, of "m - i" "unat (kf_out f) + i"] that m posm by simp
    moreover have "\<not> S - (m - i) < n" using that nS by simp
    ultimately show ?thesis using cell[of "(unat (kf_out f) + i) mod S"] S by (simp add: Let_def)
  qed
  have new: "b2 ! ((unat (kf_out f) + (m + i)) mod S) = src ! i" if "i < n" for i
  proof -
    have "((unat (kf_out f) + (m + i)) mod S + S - pos) mod S = i"
      using ring_dist_fwd[OF S, of i "unat (kf_out f) + m"] that nS posm by (simp add: add.assoc)
    then show ?thesis using cell[of "(unat (kf_out f) + (m + i)) mod S"] that S by (simp add: Let_def)
  qed
  have "kfifo_contents f' = kfifo_contents f @ take n src"
  proof (rule nth_equalityI)
    show "length (kfifo_contents f') = length (kfifo_contents f @ take n src)"
      using m' nS m by (simp add: kfifo_contents_def min_def m_def)
  next
    fix i assume "i < length (kfifo_contents f')"
    then have i: "i < m + n" using m' by (simp add: kfifo_contents_def)
    show "kfifo_contents f' ! i = (kfifo_contents f @ take n src) ! i"
    proof (cases "i < m")
      case True
      then show ?thesis using old[OF True] m m' k i
        by (simp add: nth_append) (simp add: kfifo_contents_def f'_def S_def m_def)
    next
      case False
      then obtain t where t: "i = m + t" "t < n" using i by (metis le_add_diff_inverse not_less nat_add_left_cancel_less)
      then show ?thesis using new[OF t(2)] m m' k nS
        by (simp add: nth_append) (simp add: kfifo_contents_def f'_def S_def m_def)
    qed
  qed
  moreover have "lenw = of_nat n" using lenw by (metis of_nat_unat ucast_id)
  ultimately show ?thesis using put inv' by (auto simp: f'_def)
qed

lemma kfifo_get_nolock_spec:
  assumes inv: "kfifo_inv f" and len: "unat len \<le> length dst"
  defines "n \<equiv> min (unat len) (length (kfifo_contents f))"
  shows "\<exists>f'. kfifo_get_nolock f dst len =
             Some (f', take n (kfifo_contents f) @ drop n dst, of_nat n) \<and> kfifo_inv f' \<and>
           kf_size f' = kf_size f \<and> kfifo_contents f' = drop n (kfifo_contents f)"
proof -
  from inv obtain k where k: "k < 32" "kf_size f = 2 ^ k" "unat (kf_size f) = 2 ^ k"
    and buf: "length (kf_buffer f) = 2 ^ k"
    and c: "length (kfifo_contents f) \<le> 2 ^ k" "length (kfifo_contents f) = unat (kf_in f - kf_out f)"
    by (rule kfifo_invE)
  define S where "S = (2::nat) ^ k"
  define m where "m = unat (kf_in f - kf_out f)"
  define pos where "pos = unat (kf_out f AND (kf_size f - 1))"
  define lenw where "lenw = min len (kf_in f - kf_out f)"
  define lw where "lw = min lenw (kf_size f - (kf_out f AND (kf_size f - 1)))"
  have S: "0 < S" by (simp add: S_def)
  have m: "m \<le> S" "length (kfifo_contents f) = m" using c by (simp_all add: m_def S_def)
  have pos: "pos = unat (kf_out f) mod S" "pos < S"
    using k by (simp_all add: pos_def unat_and_pow2_minus_1 S_def)
  have lenw: "unat lenw = n" by (simp add: lenw_def word_min_unat n_def m(2)) (simp add: m_def)
  have "unat (kf_size f - (kf_out f AND (kf_size f - 1))) = S - pos"
    using k pos by (simp add: unat_sub word_le_nat_alt pos_def S_def less_imp_le)
  then have lw: "unat lw = min n (S - pos)" by (simp add: lw_def word_min_unat lenw)
  have nS: "n \<le> m" "n \<le> S" "n \<le> length dst" using m len by (auto simp: n_def)
  have diff: "unat (lenw - lw) = n - unat lw"
    using lw lenw by (simp add: unat_sub word_le_nat_alt)
  have bnd: "0 + unat lw \<le> length dst" "pos + unat lw \<le> length (kf_buffer f)"
    using lw nS pos(2) buf by (auto simp: S_def)
  obtain d1 where d1: "memcpy dst 0 (kf_buffer f) pos (unat lw) = Some d1"
    using memcpy_Some[OF bnd] by blast
  have ld1: "length d1 = length dst" using memcpy_length[OF d1] by simp
  obtain d2 where d2: "memcpy d1 (unat lw) (kf_buffer f) 0 (n - unat lw) = Some d2"
    using memcpy_Some[of "unat lw" "n - unat lw" d1 0 "kf_buffer f"] lw nS ld1 buf
    by (auto simp: S_def)
  define f' where "f' = f\<lparr>kf_out := kf_out f + lenw\<rparr>"
  have get: "kfifo_get_nolock f dst len = Some (f', d2, lenw)"
    using d1 d2 diff by (simp add: kfifo_get_nolock_def Let_def f'_def lenw_def lw_def pos_def)
  have lenw_le: "lenw \<le> kf_in f - kf_out f" by (simp add: lenw_def)
  have "unat (kf_in f' - kf_out f') = unat ((kf_in f - kf_out f) - lenw)"
    by (simp add: f'_def algebra_simps)
  also have "\<dots> = m - n" using lenw_le by (simp only: unat_sub m_def lenw)
  finally have m': "unat (kf_in f' - kf_out f') = m - n" .
  have inv': "kfifo_inv f'"
    using inv m' m k by (simp add: kfifo_inv_def word_le_nat_alt f'_def S_def)
  have "map (\<lambda>i. kf_buffer f ! ((pos + i) mod S)) [0..<n] = take n (kfifo_contents f)"
    using nS m k pos(1)
    by (intro nth_equalityI) (simp_all add: kfifo_contents_def S_def min_def m_def mod_add_left_eq)
  then have out: "d2 = take n (kfifo_contents f) @ drop n dst"
    using ring_read[OF d1 d2 lw] pos(2) nS buf by (simp add: S_def)
  have out': "unat (kf_out f') mod S = (unat (kf_out f) + n) mod S"
    using unat_in_mod[OF k(1), of "kf_out f'" "kf_out f"] by (simp add: f'_def lenw S_def)
  have "kfifo_contents f' = drop n (kfifo_contents f)"
  proof (rule nth_equalityI)
    show "length (kfifo_contents f') = length (drop n (kfifo_contents f))"
      using m' m by (simp add: kfifo_contents_def)
  next
    fix i assume "i < length (kfifo_contents f')"
    then have i: "i < m - n" using m' by (simp add: kfifo_contents_def)
    have "(unat (kf_out f') + i) mod S = (unat (kf_out f) + (n + i)) mod S"
      using out' by (metis add.assoc mod_add_left_eq)
    with i m m' k nS show "kfifo_contents f' ! i = drop n (kfifo_contents f) ! i"
      by simp (simp add: kfifo_contents_def f'_def S_def m_def)
  qed
  moreover have "lenw = of_nat n" using lenw by (metis of_nat_unat ucast_id)
  ultimately show ?thesis using get inv' out by (auto simp: f'_def)
qed

lemma kfifo_reset_inv: "kfifo_inv f \<Longrightarrow> kfifo_inv (kfifo_reset f) \<and> kfifo_contents (kfifo_reset f) = []"
  by (simp add: kfifo_inv_def kfifo_reset_def kfifo_contents_def)

lemma kfifo_contents_empty_iff: "kfifo_contents f = [] \<longleftrightarrow> kf_in f = kf_out f"
  by (auto simp: kfifo_contents_def unat_eq_zero)

lemma kfifo_get_spec:
  assumes inv: "kfifo_inv f" and len: "unat len \<le> length dst"
  defines "n \<equiv> min (unat len) (length (kfifo_contents f))"
  shows "\<exists>f'. kfifo_get f dst len =
             Some (f', take n (kfifo_contents f) @ drop n dst, of_nat n) \<and> kfifo_inv f' \<and>
           kf_size f' = kf_size f \<and> kfifo_contents f' = drop n (kfifo_contents f)"
proof -
  from kfifo_get_nolock_spec[OF inv len] obtain g where
    g: "kfifo_get_nolock f dst len = Some (g, take n (kfifo_contents f) @ drop n dst, of_nat n)"
    and "kfifo_inv g" "kf_size g = kf_size f" "kfifo_contents g = drop n (kfifo_contents f)"
    unfolding n_def by blast
  then show ?thesis
    using kfifo_reset_inv[of g] kfifo_contents_empty_iff[of g]
    by (auto simp: kfifo_get_def kfifo_reset_def)
qed

section \<open>The queue interface\<close>

text \<open>
  What a client of a bounded byte queue relies on: a put appends the longest prefix that fits, a
  get removes the longest prefix that is there, neither copies out of bounds, and both keep the
  invariant and the capacity.
\<close>

locale byte_queue =
  fixes put :: "'q \<Rightarrow> u8 list \<Rightarrow> u32 \<Rightarrow> ('q \<times> u32) option"
    and get :: "'q \<Rightarrow> u8 list \<Rightarrow> u32 \<Rightarrow> ('q \<times> u8 list \<times> u32) option"
    and invar :: "'q \<Rightarrow> bool"
    and contents :: "'q \<Rightarrow> u8 list"
    and capacity :: "'q \<Rightarrow> nat"
  assumes capacity_bound: "capacity q < 2 ^ 32"
    and contents_bound: "invar q \<Longrightarrow> length (contents q) \<le> capacity q"
    and put_spec: "invar q \<Longrightarrow> unat len \<le> length src \<Longrightarrow>
      n = min (unat len) (capacity q - length (contents q)) \<Longrightarrow>
      \<exists>q'. put q src len = Some (q', of_nat n) \<and> invar q' \<and> capacity q' = capacity q \<and>
           contents q' = contents q @ take n src"
    and get_spec: "invar q \<Longrightarrow> unat len \<le> length dst \<Longrightarrow>
      n = min (unat len) (length (contents q)) \<Longrightarrow>
      \<exists>q'. get q dst len = Some (q', take n (contents q) @ drop n dst, of_nat n) \<and> invar q' \<and>
           capacity q' = capacity q \<and> contents q' = drop n (contents q)"
begin

text \<open>No byte is lost, duplicated or reordered over any sequence of operations.\<close>

lemma run_fifo_order:
  assumes "invar q" and "list_all fifo_op_ok ops"
  shows "\<exists>q' acc del. fifo_run put get q ops = Some (q', acc, del) \<and> invar q' \<and>
           capacity q' = capacity q \<and> contents q @ acc = del @ contents q'"
  using assms
proof (induction ops arbitrary: q)
  case Nil
  then show ?case by simp
next
  case (Cons x ops)
  show ?case
  proof (cases x)
    case (Put xs)
    define n where "n = min (unat (of_nat (length xs) :: u32)) (capacity q - length (contents q))"
    have "length xs < 2 ^ 32" using Cons.prems(2) Put by simp
    then have u: "unat (of_nat (length xs) :: u32) = length xs" by (simp add: unat_of_nat)
    obtain q1 where q1: "put q xs (of_nat (length xs)) = Some (q1, of_nat n)" "invar q1"
      "capacity q1 = capacity q" "contents q1 = contents q @ take n xs"
      using put_spec[OF Cons.prems(1), of "of_nat (length xs)" xs n] u n_def by auto
    have "n \<le> capacity q" by (simp add: n_def min.coboundedI2)
    then have "n < 2 ^ 32" using capacity_bound[of q] by simp
    then have un: "unat (of_nat n :: u32) = n" by (simp add: unat_of_nat)
    from Cons.IH[OF q1(2)] Cons.prems(2) obtain q' acc del where
      "fifo_run put get q1 ops = Some (q', acc, del)" "invar q'"
      "capacity q' = capacity q1" "contents q1 @ acc = del @ contents q'" by auto
    with q1 un show ?thesis by (simp add: Put)
  next
    case (Get len)
    define n where "n = min (unat len) (length (contents q))"
    obtain q1 where q1: "get q (replicate (unat len) 0) len =
        Some (q1, take n (contents q) @ drop n (replicate (unat len) 0), of_nat n)" "invar q1"
      "capacity q1 = capacity q" "contents q1 = drop n (contents q)"
      using get_spec[OF Cons.prems(1), of len "replicate (unat len) 0" n] n_def by auto
    have "n < 2 ^ 32"
      using capacity_bound[of q] contents_bound[OF Cons.prems(1)] by (simp add: n_def min_def)
    then have un: "unat (of_nat n :: u32) = n" by (simp add: unat_of_nat)
    have "take n (take n (contents q) @ drop n (replicate (unat len) 0)) = take n (contents q)"
      by (simp add: n_def min_def)
    moreover from Cons.IH[OF q1(2)] Cons.prems(2) obtain q' acc del where
      "fifo_run put get q1 ops = Some (q', acc, del)" "invar q'"
      "capacity q' = capacity q1" "contents q1 @ acc = del @ contents q'" by auto
    ultimately show ?thesis using q1 un by (simp add: Get) (metis append.assoc append_take_drop_id)
  qed
qed

end

interpretation kf: byte_queue kfifo_put kfifo_get kfifo_inv kfifo_contents "\<lambda>f. unat (kf_size f)"
proof unfold_locales
  show "unat (kf_size q) < 2 ^ 32" for q
    using unsigned_less[of "kf_size q", where ?'a = nat] by simp
  show "length (kfifo_contents q) \<le> unat (kf_size q)" if "kfifo_inv q" for q
    using that by (simp add: kfifo_inv_def kfifo_contents_def word_le_nat_alt)
qed (use kfifo_put_nolock_spec kfifo_get_spec in \<open>force simp: kfifo_put_def\<close>)+

section \<open>Properties\<close>

text \<open>
  C1. Over any sequence of \<open>kfifo_put\<close> and \<open>kfifo_get\<close> calls on a well-formed FIFO, no call copies
  out of bounds, and the bytes that were in the FIFO followed by those it accepted are exactly
  those it delivered followed by those still in it, in the same order; the free-running 32-bit
  indices may wrap around any number of times.
\<close>

theorem kfifo_stream:
  assumes "kfifo_inv f" and "list_all fifo_op_ok ops"
  shows "\<exists>f' acc del. fifo_run kfifo_put kfifo_get f ops = Some (f', acc, del) \<and> kfifo_inv f' \<and>
           kf_size f' = kf_size f \<and> kfifo_contents f @ acc = del @ kfifo_contents f'"
  using kf.run_fifo_order[OF assms] by (simp add: word_unat_eq_iff)

text \<open>Witness: a four-byte FIFO whose indices are about to wrap past 2^32.\<close>

theorem kfifo_stream_witness:
  "\<exists>f' acc del. fifo_run kfifo_put kfifo_get
      \<lparr>kf_buffer = [7, 8, 9, 10], kf_size = 4, kf_in = 0, kf_out = 0xfffffffe\<rparr>
      [Put [1, 2, 3], Get 3] = Some (f', acc, del) \<and> kfifo_inv f' \<and> kf_size f' = 4 \<and>
      [9, 10] @ acc = del @ kfifo_contents f'"
  using kfifo_stream[of "\<lparr>kf_buffer = [7, 8, 9, 10], kf_size = 4, kf_in = 0, kf_out = 0xfffffffe\<rparr>"
      "[Put [1, 2, 3], Get 3]"]
  by (simp add: kfifo_inv_def kfifo_contents_def is_power_of_2_def upt_rec)

text \<open>
  C2. \<open>kfifo_alloc\<close> on a size between 1 and 2^31 never trips a \<^verbatim>\<open>BUG_ON\<close>: it reports \<open>ENOMEM\<close>
  when an allocation fails, and otherwise returns an empty well-formed FIFO whose capacity is
  at least the requested size and less than twice it.
\<close>

theorem kfifo_alloc_spec:
  assumes "0 < sz" and "sz \<le> 0x80000000" and "\<And>n b. kmalloc n = Some b \<Longrightarrow> length b = unat n"
  shows "case kfifo_alloc kmalloc ok sz of
           Bug \<Rightarrow> False
         | Err e \<Rightarrow> e = ENOMEM
         | Ok f \<Rightarrow> kfifo_inv f \<and> kfifo_contents f = [] \<and> unat sz \<le> unat (kf_size f) \<and>
                   unat (kf_size f) < 2 * unat sz"
proof -
  define s where "s = (if sz AND (sz - 1) \<noteq> 0 then roundup_pow_of_two sz else sz)"
  have sz: "0 < unat sz" "unat sz \<le> 2 ^ 31"
    using assms(1,2) by (simp_all add: word_less_nat_alt word_le_nat_alt)
  have s: "is_power_of_2 s" "unat sz \<le> unat s" "unat s < 2 * unat sz"
  proof -
    consider "sz AND (sz - 1) = 0" | "sz AND (sz - 1) \<noteq> 0" by blast
    then have "is_power_of_2 s \<and> unat sz \<le> unat s \<and> unat s < 2 * unat sz"
    proof cases
      case 1
      then show ?thesis using sz assms(1) by (auto simp: s_def is_power_of_2_def)
    next
      case 2
      then have "sz \<noteq> 1" by auto
      then have "unat sz \<noteq> 1" by (simp add: word_unat_eq_iff)
      then show ?thesis using roundup_pow_of_two_spec[of sz] sz 2 by (simp add: s_def)
    qed
    then show "is_power_of_2 s" "unat sz \<le> unat s" "unat s < 2 * unat sz" by simp_all
  qed
  have "kfifo_alloc kmalloc ok sz =
      (case kmalloc s of None \<Rightarrow> Err ENOMEM | Some b \<Rightarrow> kfifo_init b s ok)"
    using leD[OF assms(2)] unfolding kfifo_alloc_def s_def Let_def by (simp only: simp_thms if_False)
  then show ?thesis
    using s assms(3)[of s]
    by (auto simp: kfifo_init_def kfifo_inv_def kfifo_contents_def split: option.splits)
qed

theorem kfifo_alloc_spec_witness:
  "case kfifo_alloc (\<lambda>n. Some (replicate (unat n) 0)) True 5 of
     Bug \<Rightarrow> False
   | Err e \<Rightarrow> e = ENOMEM
   | Ok f \<Rightarrow> kfifo_inv f \<and> kfifo_contents f = [] \<and> unat (5::u32) \<le> unat (kf_size f) \<and>
             unat (kf_size f) < 2 * unat (5::u32)"
  by (rule kfifo_alloc_spec) auto

end
