(* ===== verification/Skbuff.thy ===== *)
theory Skbuff
  imports Kernel_Prelude
begin

unbundle bit_operations_syntax

text \<open>
  Reading a network buffer: \<^verbatim>\<open>skb_copy_bits\<close> of \<^verbatim>\<open>net/core/skbuff.c\<close>, \<^verbatim>\<open>skb_header_pointer\<close> of
  \<^verbatim>\<open>include/linux/skbuff.h\<close>, and the netlink attribute walk \<^verbatim>\<open>nla_find\<close> of \<^verbatim>\<open>net/netlink/attr.c\<close> with
  its inline helpers of \<^verbatim>\<open>include/net/netlink.h\<close>. A buffer holds its bytes in a linear area, in page
  fragments and in a list of further buffers; \<open>skb_bytes\<close> is the flat view the readers promise.
\<close>

section \<open>Model\<close>

text \<open>
  \<^verbatim>\<open>struct sk_buff\<close>, with the fields the readers and the socket filter use. \<open>skb_headroom\<close> are the
  bytes from \<^verbatim>\<open>head\<close> to \<^verbatim>\<open>data\<close>, \<open>skb_linear\<close> those from \<^verbatim>\<open>data\<close> to \<^verbatim>\<open>tail\<close>; \<open>skb_mac\<close> and \<open>skb_net\<close> are the
  header positions counted from \<^verbatim>\<open>head\<close>; \<open>skb_frags\<close> holds the bytes of each page fragment.
\<close>

datatype sk_buff =
  SKB (skb_headroom: "u8 list") (skb_linear: "u8 list") (skb_len: u32) (skb_data_len: u32)
      (skb_mac: nat) (skb_net: nat) (skb_protocol: u16) (skb_pkt_type: u8) (skb_ifindex: u32)
      (skb_frags: "u8 list list") (skb_frag_list: "sk_buff list")

definition skb_headlen :: "sk_buff \<Rightarrow> u32" where
  "skb_headlen skb = skb_len skb - skb_data_len skb"

definition skb_is_nonlinear :: "sk_buff \<Rightarrow> bool" where
  "skb_is_nonlinear skb \<longleftrightarrow> skb_data_len skb \<noteq> 0"

text \<open>\<open>n\<close> bytes at position \<open>pos\<close> of an array; \<open>Bug\<close> if they are not all inside it.\<close>

definition fetch :: "u8 list \<Rightarrow> int \<Rightarrow> int \<Rightarrow> u8 list kresult" where
  "fetch xs pos n =
     (if 0 \<le> pos \<and> 0 \<le> n \<and> pos + n \<le> int (length xs) then Ok (take (nat n) (drop (nat pos) xs)) else Bug)"

text \<open>
  The fragment loop of \<^verbatim>\<open>skb_copy_bits\<close>. \<open>Inl\<close> is its early return with the bytes copied, \<open>Inr\<close> the
  loop variables (\<open>start\<close>, \<open>offset\<close>, \<open>len\<close>, bytes copied) after the last fragment.
\<close>

fun copy_frags ::
  "u8 list list \<Rightarrow> int \<Rightarrow> int \<Rightarrow> int \<Rightarrow> u8 list \<Rightarrow> (u8 list + int \<times> int \<times> int \<times> u8 list) kresult" where
  "copy_frags [] start offset len to = Ok (Inr (start, offset, len, to))"
| "copy_frags (frag # frags) start offset len to =
     (let fin = start + int (length frag) in
      if fin - offset > 0 then
        let copy = min (fin - offset) len in
        case fetch frag (offset - start) copy of
          Ok bs \<Rightarrow>
            if len - copy = 0 then Ok (Inl (to @ bs))
            else copy_frags frags fin (offset + copy) (len - copy) (to @ bs)
        | Err e \<Rightarrow> Err e
        | Bug \<Rightarrow> Bug
      else copy_frags frags fin offset len to)"

fun skb_copy_bits :: "sk_buff \<Rightarrow> int \<Rightarrow> int \<Rightarrow> u8 list kresult"
  and copy_frag_list :: "sk_buff list \<Rightarrow> int \<Rightarrow> int \<Rightarrow> int \<Rightarrow> u8 list \<Rightarrow> u8 list kresult" where
  "skb_copy_bits (SKB hr lin len0 dlen mac net proto pt ifi frags flist) offset len =
     (let start = int (unat (len0 - dlen)) in
      if offset > int (unat len0) - len then Err EFAULT
      else
        let copy = min (start - offset) len in
        case (if start - offset > 0 then fetch lin offset copy else Ok []) of
          Bug \<Rightarrow> Bug
        | Err e \<Rightarrow> Err e
        | Ok bs \<Rightarrow>
            if start - offset > 0 \<and> len - copy = 0 then Ok bs
            else
              let offset' = (if start - offset > 0 then offset + copy else offset);
                  len' = (if start - offset > 0 then len - copy else len)
              in case copy_frags frags start offset' len' bs of
                   Bug \<Rightarrow> Bug
                 | Err e \<Rightarrow> Err e
                 | Ok (Inl to) \<Rightarrow> Ok to
                 | Ok (Inr (start'', offset'', len'', to)) \<Rightarrow>
                     copy_frag_list flist start'' offset'' len'' to)"
| "copy_frag_list [] start offset len to = (if len = 0 then Ok to else Err EFAULT)"
| "copy_frag_list (l # ls) start offset len to =
     (let fin = start + int (unat (skb_len l)) in
      if fin - offset > 0 then
        let copy = min (fin - offset) len in
        case skb_copy_bits l (offset - start) copy of
          Bug \<Rightarrow> Bug
        | Err e \<Rightarrow> Err EFAULT
        | Ok bs \<Rightarrow>
            if len - copy = 0 then Ok (to @ bs)
            else copy_frag_list ls fin (offset + copy) (len - copy) (to @ bs)
      else copy_frag_list ls fin offset len to)"

text \<open>
  A pointer into a packet: a position in the linear buffer counted from \<^verbatim>\<open>head\<close>, or the caller's
  scratch buffer filled by \<^verbatim>\<open>skb_copy_bits\<close>. Dereferencing reads \<open>n\<close> bytes there.
\<close>

datatype pkt_ptr = In_head int | Scratch "u8 list"

definition skb_header_pointer :: "sk_buff \<Rightarrow> int \<Rightarrow> int \<Rightarrow> pkt_ptr option kresult" where
  "skb_header_pointer skb offset len =
     (if int (unat (skb_headlen skb)) - offset \<ge> len
      then Ok (Some (In_head (int (length (skb_headroom skb)) + offset)))
      else (case skb_copy_bits skb offset len of
              Bug \<Rightarrow> Bug
            | Err e \<Rightarrow> Ok None
            | Ok bs \<Rightarrow> Ok (Some (Scratch bs))))"

fun deref :: "sk_buff \<Rightarrow> pkt_ptr \<Rightarrow> int \<Rightarrow> u8 list kresult" where
  "deref skb (In_head pos) n = fetch (skb_headroom skb @ skb_linear skb) pos n"
| "deref skb (Scratch bs) n = fetch bs 0 n"

text \<open>
  The netlink attribute walk, on the array \<open>mem\<close> that holds the stream. \<open>nla_ok\<close> compares the signed
  number of remaining bytes with \<^verbatim>\<open>sizeof(struct nlattr)\<close> as an unsigned value, as C does, and reads
  the 16-bit little-endian length field.
\<close>

definition get_u16 :: "u8 list \<Rightarrow> int \<Rightarrow> u16 kresult" where
  "get_u16 mem pos =
     (case fetch mem pos 2 of
        Ok bs \<Rightarrow> Ok (ucast (bs ! 0) OR push_bit 8 (ucast (bs ! 1)))
      | Err e \<Rightarrow> Err e
      | Bug \<Rightarrow> Bug)"

definition nla_ok :: "u8 list \<Rightarrow> int \<Rightarrow> int \<Rightarrow> bool kresult" where
  "nla_ok mem nla remaining =
     (if (word_of_int remaining :: u32) \<ge> 4 then
        (case get_u16 mem nla of
           Ok l \<Rightarrow> Ok (l \<ge> 4 \<and> int (unat l) \<le> remaining)
         | Err e \<Rightarrow> Err e
         | Bug \<Rightarrow> Bug)
      else Ok False)"

definition nla_type :: "u8 list \<Rightarrow> int \<Rightarrow> int kresult" where
  "nla_type mem nla =
     (case get_u16 mem (nla + 2) of
        Ok t \<Rightarrow> Ok (int (unat (t AND NOT (0x8000 OR 0x4000))))
      | Err e \<Rightarrow> Err e
      | Bug \<Rightarrow> Bug)"

text \<open>\<^verbatim>\<open>NLA_ALIGN\<close> of the attribute's length: what \<^verbatim>\<open>nla_next\<close> advances by.\<close>

definition nla_totlen :: "u16 \<Rightarrow> int" where
  "nla_totlen l = (int (unat l) + 3) div 4 * 4"

text \<open>The body of \<^verbatim>\<open>nla_find\<close>: the iteration of \<^verbatim>\<open>nla_for_each_attr\<close>.\<close>

function nla_find :: "u8 list \<Rightarrow> int \<Rightarrow> int \<Rightarrow> int \<Rightarrow> int option kresult" where
  "nla_find mem nla rem attrtype =
     (case nla_ok mem nla rem of
        Bug \<Rightarrow> Bug
      | Err e \<Rightarrow> Err e
      | Ok False \<Rightarrow> Ok None
      | Ok True \<Rightarrow>
          (case nla_type mem nla of
             Bug \<Rightarrow> Bug
           | Err e \<Rightarrow> Err e
           | Ok t \<Rightarrow>
               if t = attrtype then Ok (Some nla)
               else (case get_u16 mem nla of
                       Bug \<Rightarrow> Bug
                     | Err e \<Rightarrow> Err e
                     | Ok l \<Rightarrow> nla_find mem (nla + nla_totlen l) (rem - nla_totlen l) attrtype)))"
  by pat_completeness auto

lemma nla_ok_TrueD:
  assumes "nla_ok mem nla rem = Ok True" and "get_u16 mem nla = Ok l"
  shows "4 \<le> unat l" "int (unat l) \<le> rem"
  using assms by (auto simp: nla_ok_def word_le_nat_alt split: kresult.splits if_splits)

termination nla_find
proof (relation "measure (\<lambda>(mem, nla, rem, attrtype). nat rem)", goal_cases)
  case (2 mem nla rem attrtype ok t l)
  then have l: "4 \<le> unat l" "int (unat l) \<le> rem" using nla_ok_TrueD by auto
  from l(1) have "int 4 \<le> int (unat l)" by (simp only: of_nat_le_iff)
  with l(2) show ?case by (simp add: nla_totlen_def)
qed simp

declare nla_find.simps [simp del]

section \<open>The flat view\<close>

fun skb_bytes :: "sk_buff \<Rightarrow> u8 list" where
  "skb_bytes (SKB hr lin len dlen mac net proto pt ifi frags flist) =
     lin @ concat frags @ concat (map skb_bytes flist)"

text \<open>
  Well-formed buffers: the length fields agree with the bytes held, in the buffer and in every
  buffer of its fragment list, and the total stays below 2^31.
\<close>

fun skb_wf :: "sk_buff \<Rightarrow> bool" where
  "skb_wf (SKB hr lin len dlen mac net proto pt ifi frags flist) \<longleftrightarrow>
     (\<forall>l \<in> set flist. skb_wf l) \<and>
     unat len = length (lin @ concat frags @ concat (map skb_bytes flist)) \<and>
     unat dlen = length (concat frags @ concat (map skb_bytes flist)) \<and> unat len < 2 ^ 31"

lemma skb_wf_len: "skb_wf l \<Longrightarrow> unat (skb_len l) = length (skb_bytes l)"
  by (cases l) simp

lemma fetch_Ok:
  "0 \<le> pos \<Longrightarrow> 0 \<le> n \<Longrightarrow> pos + n \<le> int (length xs) \<Longrightarrow> fetch xs pos n = Ok (take (nat n) (drop (nat pos) xs))"
  by (simp add: fetch_def)

text \<open>The part of a read of \<open>n\<close> bytes at \<open>p\<close> that falls into the first of two segments, and the rest.\<close>

lemma slice_append_split:
  assumes "p < length xs" "length xs \<le> p + n"
  shows "take n (drop p (xs @ ys)) = drop p xs @ take (n - (length xs - p)) ys"
  using assms by simp

lemma copy_frags_spec:
  assumes "start \<le> offset" "0 < len"
  shows "copy_frags frags start offset len to =
     (if offset - start + len \<le> int (length (concat frags))
      then Ok (Inl (to @ take (nat len) (drop (nat (offset - start)) (concat frags))))
      else if offset - start < int (length (concat frags))
      then Ok (Inr (start + int (length (concat frags)), start + int (length (concat frags)),
                offset + len - start - int (length (concat frags)),
                to @ drop (nat (offset - start)) (concat frags)))
      else Ok (Inr (start + int (length (concat frags)), offset, len, to)))"
  using assms
proof (induction frags arbitrary: start offset len to)
  case Nil
  then show ?case by simp
next
  case (Cons frag frags)
  define L where "L = int (length frag)"
  define fin where "fin = start + L"
  consider (past) "fin \<le> offset" | (all) "offset < fin" "offset + len \<le> fin"
    | (part) "offset < fin" "fin < offset + len" by linarith
  then show ?case
  proof cases
    case past
    then have d: "nat (offset - start) = length frag + nat (offset - fin)"
      using Cons.prems by (simp add: fin_def L_def)
    have "copy_frags (frag # frags) start offset len to = copy_frags frags fin offset len to"
      using past by (simp add: fin_def L_def Let_def)
    then show ?thesis using Cons.IH[of fin offset len to] past Cons.prems
      by (simp add: d fin_def L_def algebra_simps)
  next
    case all
    then have "fetch frag (offset - start) (min (fin - offset) len) =
        Ok (take (nat len) (drop (nat (offset - start)) frag))"
      using Cons.prems by (simp add: fetch_def fin_def L_def min_def)
    then show ?thesis using all Cons.prems
      by (simp add: fin_def L_def Let_def min_def)
  next
    case part
    then have "fetch frag (offset - start) (min (fin - offset) len) =
        Ok (drop (nat (offset - start)) frag)"
      using Cons.prems by (simp add: fetch_def fin_def L_def min_def)
    then have "copy_frags (frag # frags) start offset len to =
        copy_frags frags fin fin (len - (fin - offset)) (to @ drop (nat (offset - start)) frag)"
      using part Cons.prems by (simp add: fin_def L_def Let_def min_def)
    moreover have "nat (len + offset - (start + int (length frag))) = nat len + nat (offset - start) - length frag"
      using part Cons.prems by (simp add: fin_def L_def)
    ultimately show ?thesis
      using part Cons.prems Cons.IH[of fin fin "len - (fin - offset)" "to @ drop (nat (offset - start)) frag"]
      by (simp add: fin_def L_def algebra_simps)
  qed
qed


lemma copy_frag_list_spec:
  assumes "\<And>l p n. l \<in> set ls \<Longrightarrow> 0 \<le> p \<Longrightarrow> 0 < n \<Longrightarrow> p + n \<le> int (length (skb_bytes l)) \<Longrightarrow>
      skb_copy_bits l p n = Ok (take (nat n) (drop (nat p) (skb_bytes l)))"
    and "\<And>l. l \<in> set ls \<Longrightarrow> unat (skb_len l) = length (skb_bytes l)"
    and "start \<le> offset" "0 < len"
  shows "copy_frag_list ls start offset len to =
     (if offset - start + len \<le> int (length (concat (map skb_bytes ls)))
      then Ok (to @ take (nat len) (drop (nat (offset - start)) (concat (map skb_bytes ls))))
      else Err EFAULT)"
  using assms
proof (induction ls arbitrary: start offset len to)
  case Nil
  then show ?case by simp
next
  case (Cons l ls)
  define L where "L = int (length (skb_bytes l))"
  define fin where "fin = start + L"
  have lenl: "uint (skb_len l) = L"
    unfolding uint_nat L_def Cons.prems(2)[OF list.set_intros(1)] ..
  note read = Cons.prems(1)[of l, OF list.set_intros(1)]
  note IH = Cons.IH[OF Cons.prems(1)[OF list.set_intros(2)] Cons.prems(2)[OF list.set_intros(2)]]
  consider (past) "fin \<le> offset" | (all) "offset < fin" "offset + len \<le> fin"
    | (part) "offset < fin" "fin < offset + len" by linarith
  then show ?case
  proof cases
    case past
    then have d: "nat (offset - start) = length (skb_bytes l) + nat (offset - fin)"
      using Cons.prems by (simp add: fin_def L_def)
    have "copy_frag_list (l # ls) start offset len to = copy_frag_list ls fin offset len to"
      using past lenl by (simp add: fin_def Let_def)
    then show ?thesis using IH[of fin offset len to] past Cons.prems(4)
      by (simp add: d fin_def L_def algebra_simps)
  next
    case all
    then have "skb_copy_bits l (offset - start) len =
        Ok (take (nat len) (drop (nat (offset - start)) (skb_bytes l)))"
      using read[of "offset - start" len] Cons.prems(3,4) by (simp add: fin_def L_def)
    moreover have "min (start + uint (skb_len l) - offset) len = len"
      using all lenl by (simp add: fin_def)
    ultimately show ?thesis using all Cons.prems(3,4) lenl
      by (simp add: fin_def L_def Let_def)
  next
    case part
    then have "skb_copy_bits l (offset - start) (fin - offset) =
        Ok (drop (nat (offset - start)) (skb_bytes l))"
      using read[of "offset - start" "fin - offset"] Cons.prems(3,4) by (simp add: fin_def L_def)
    then have "copy_frag_list (l # ls) start offset len to =
        copy_frag_list ls fin fin (len - (fin - offset)) (to @ drop (nat (offset - start)) (skb_bytes l))"
      using part Cons.prems(3,4) lenl by (simp add: fin_def Let_def min_def)
    moreover have "nat (len + offset - (start + int (length (skb_bytes l)))) =
        nat len + nat (offset - start) - length (skb_bytes l)"
      using part Cons.prems(3,4) by (simp add: fin_def L_def)
    ultimately show ?thesis
      using part Cons.prems(3,4)
        IH[of fin fin "len - (fin - offset)" "to @ drop (nat (offset - start)) (skb_bytes l)"]
      by (simp add: fin_def L_def algebra_simps)
  qed
qed

lemma skb_copy_bits_flat:
  "skb_wf skb \<Longrightarrow> 0 \<le> offset \<Longrightarrow> 0 < len \<Longrightarrow>
   skb_copy_bits skb offset len =
     (if offset + len \<le> int (length (skb_bytes skb))
      then Ok (take (nat len) (drop (nat offset) (skb_bytes skb))) else Err EFAULT)"
proof (induction skb arbitrary: offset len)
  case (SKB hr lin len0 dlen mac net proto pt ifi frags flist)
  define F where "F = concat frags"
  define R where "R = concat (map skb_bytes flist)"
  define n where "n = int (length lin)"
  have len0: "uint len0 = int (length lin + length F + length R)"
    and start: "uint (len0 - dlen) = n" and wf: "\<And>l. l \<in> set flist \<Longrightarrow> skb_wf l"
  proof -
    have *: "unat len0 = length lin + length F + length R" "unat dlen = length F + length R"
      using SKB.prems(1) by (auto simp: F_def R_def)
    then have "unat (len0 - dlen) = length lin" by (simp add: unat_sub word_le_nat_alt)
    with * show "uint len0 = int (length lin + length F + length R)" "uint (len0 - dlen) = n"
      by (simp_all only: n_def uint_nat)
    show "\<And>l. l \<in> set flist \<Longrightarrow> skb_wf l" using SKB.prems(1) by simp
  qed
  have flist: "copy_frag_list flist st p k to =
      (if p - st + k \<le> int (length R) then Ok (to @ take (nat k) (drop (nat (p - st)) R)) else Err EFAULT)"
    if "st \<le> p" "0 < k" for st p k to
    unfolding R_def using that SKB.IH wf skb_wf_len by (intro copy_frag_list_spec) auto
  have rest: "(case copy_frags frags n p k to of Bug \<Rightarrow> Bug | Err e \<Rightarrow> Err e | Ok (Inl to) \<Rightarrow> Ok to
      | Ok (Inr (s, p, k, to)) \<Rightarrow> copy_frag_list flist s p k to) =
      (if p - n + k \<le> int (length (F @ R)) then Ok (to @ take (nat k) (drop (nat (p - n)) (F @ R)))
       else Err EFAULT)" if "n \<le> p" "0 < k" for p k to
  proof -
    consider "p - n + k \<le> int (length F)" | "p - n < int (length F)" "int (length F) < p - n + k"
      | "int (length F) \<le> p - n" by linarith
    then show ?thesis
    proof cases
      case 2
      have "nat (k + p - (n + int (length F))) = nat k + nat (p - n) - length F" using 2 that by simp
      then show ?thesis using 2 that
        by (simp add: copy_frags_spec flist algebra_simps flip: F_def)
    next
      case 3
      have "nat (p - (n + int (length F))) = nat (p - n) - length F" using 3 that by simp
      then show ?thesis using 3 that
        by (simp add: copy_frags_spec flist algebra_simps flip: F_def)
    qed (use that in \<open>simp add: copy_frags_spec flip: F_def\<close>)
  qed
  show ?case
  proof (cases "offset + len \<le> int (length lin + length F + length R)")
    case False
    then show ?thesis using len0 by (simp add: F_def R_def)
  next
    case True
    have bytes: "skb_bytes (SKB hr lin len0 dlen mac net proto pt ifi frags flist) = lin @ F @ R"
      by (simp add: F_def R_def)
    consider (lin) "offset + len \<le> n" | (cross) "offset < n" "n < offset + len" | (past) "n \<le> offset"
      by linarith
    then show ?thesis
    proof cases
      case lin
      then have "min (n - offset) len = len" by simp
      then show ?thesis using lin True len0 start SKB.prems(2,3) unfolding bytes
        by (simp add: Let_def fetch_def n_def)
    next
      case cross
      then have "skb_copy_bits (SKB hr lin len0 dlen mac net proto pt ifi frags flist) offset len =
          (case copy_frags frags n n (len - (n - offset)) (drop (nat offset) lin) of Bug \<Rightarrow> Bug | Err e \<Rightarrow> Err e
           | Ok (Inl to) \<Rightarrow> Ok to | Ok (Inr (s, p, k, to)) \<Rightarrow> copy_frag_list flist s p k to)"
        using True len0 start SKB.prems(2,3) by (simp add: Let_def fetch_def n_def min_def)
      moreover have "nat (len + offset - n) = nat len + nat offset - length lin"
        using cross SKB.prems(2,3) by (simp add: n_def)
      ultimately show ?thesis using rest[of n "len - (n - offset)"] cross True SKB.prems(2,3) unfolding bytes
        by (simp add: n_def algebra_simps)
    next
      case past
      then have "skb_copy_bits (SKB hr lin len0 dlen mac net proto pt ifi frags flist) offset len =
          (case copy_frags frags n offset len [] of Bug \<Rightarrow> Bug | Err e \<Rightarrow> Err e
           | Ok (Inl to) \<Rightarrow> Ok to | Ok (Inr (s, p, k, to)) \<Rightarrow> copy_frag_list flist s p k to)"
        using True len0 start SKB.prems(2,3) by (simp add: Let_def)
      moreover have "nat (offset - n) = nat offset - length lin" using past by (simp add: n_def)
      ultimately show ?thesis using rest[OF past SKB.prems(3)] past True SKB.prems(2,3) unfolding bytes
        by (simp add: n_def)
    qed
  qed
qed

lemma skb_header_pointer_flat:
  assumes wf: "skb_wf skb" and off: "0 \<le> offset" and len: "0 < len"
  shows "if offset + len \<le> int (length (skb_bytes skb))
    then \<exists>p. skb_header_pointer skb offset len = Ok (Some p) \<and>
           deref skb p len = Ok (take (nat len) (drop (nat offset) (skb_bytes skb)))
    else skb_header_pointer skb offset len = Ok None"
proof -
  obtain hr lin len0 dlen mac net proto pt ifi frags flist where
    skb: "skb = SKB hr lin len0 dlen mac net proto pt ifi frags flist" by (cases skb)
  have "unat (len0 - dlen) = length lin"
    using wf by (simp add: skb unat_sub word_le_nat_alt)
  then have hl: "uint (skb_headlen skb) = int (length lin)"
    by (simp only: skb_headlen_def skb sk_buff.sel uint_nat)
  show ?thesis
  proof (cases "int (length lin) - offset \<ge> len")
    case True
    moreover have "fetch (hr @ lin) (int (length hr) + offset) len = Ok (take (nat len) (drop (nat offset) lin))"
      using True off len by (simp add: fetch_def nat_add_distrib)
    moreover have "nat offset < length lin" using True off len by linarith
    moreover have "nat len \<le> length lin - nat offset" using True off len by linarith
    ultimately show ?thesis using hl off len by (auto simp: skb_header_pointer_def skb)
  next
    case False
    then show ?thesis
      using hl skb_copy_bits_flat[OF wf off len] off len
      by (auto simp: skb_header_pointer_def fetch_def)
  qed
qed

text \<open>The attribute walk never leaves the stream by more than five bytes.\<close>

lemma nla_find_slack:
  "0 \<le> nla \<Longrightarrow> - 3 \<le> rem \<Longrightarrow> nla + rem + 5 \<le> int (length mem) \<Longrightarrow>
   \<exists>r. nla_find mem nla rem attrtype = Ok r \<and>
     (case r of None \<Rightarrow> True
      | Some p \<Rightarrow> nla \<le> p \<and> p + 4 \<le> nla + rem \<and> nla_type mem p = Ok attrtype)"
proof (induction mem nla rem attrtype rule: nla_find.induct)
  case (1 mem nla rem attrtype)
  have u16: "\<exists>v. get_u16 mem p = Ok v" if "0 \<le> p" "p + 2 \<le> int (length mem)" for p
    using that by (simp add: get_u16_def fetch_def)
  obtain l where l: "get_u16 mem nla = Ok l" using u16[of nla] "1.prems" by auto
  then have "\<exists>b. nla_ok mem nla rem = Ok b" by (auto simp: nla_ok_def)
  then obtain b where b: "nla_ok mem nla rem = Ok b" ..
  show ?case
  proof (cases b)
    case False
    then show ?thesis using b by (subst nla_find.simps) simp
  next
    case True
    then have lr: "4 \<le> unat l" "int (unat l) \<le> rem" using nla_ok_TrueD l b by auto
    then have l4: "4 \<le> uint l" "uint l \<le> rem" unfolding uint_nat by linarith+
    obtain t where t: "nla_type mem nla = Ok t"
      using u16[of "nla + 2"] "1.prems" l4 by (auto simp: nla_type_def)
    show ?thesis
    proof (cases "t = attrtype")
      case True
      then show ?thesis using \<open>b\<close> b t l4 by (subst nla_find.simps) simp
    next
      case neq: False
      have tot: "uint l \<le> nla_totlen l" "nla_totlen l \<le> uint l + 3" by (simp_all add: nla_totlen_def)
      have "\<exists>r. nla_find mem (nla + nla_totlen l) (rem - nla_totlen l) attrtype = Ok r \<and>
        (case r of None \<Rightarrow> True | Some p \<Rightarrow> nla + nla_totlen l \<le> p \<and>
          p + 4 \<le> nla + nla_totlen l + (rem - nla_totlen l) \<and> nla_type mem p = Ok attrtype)"
        using "1.IH"[OF b _ t neq l] \<open>b\<close> "1.prems" l4 tot by simp
      then show ?thesis using \<open>b\<close> b t neq l l4 tot
        by (subst nla_find.simps) (fastforce split: option.splits)
    qed
  qed
qed

section \<open>Properties\<close>

text \<open>
  C3. On a well-formed buffer, \<open>skb_header_pointer\<close> yields a pointer to the requested bytes of
  the flat view exactly when they all lie in the packet, whether they sit in the linear area, in page
  fragments, in the fragment list or across them, and \<open>NULL\<close> otherwise.
\<close>

theorem skb_header_pointer_spec:
  assumes "skb_wf skb" and "0 \<le> offset" and "0 < len"
  shows "if offset + len \<le> int (length (skb_bytes skb))
    then \<exists>p. skb_header_pointer skb offset len = Ok (Some p) \<and>
           deref skb p len = Ok (take (nat len) (drop (nat offset) (skb_bytes skb)))
    else skb_header_pointer skb offset len = Ok None"
  by (rule skb_header_pointer_flat[OF assms])

theorem skb_header_pointer_spec_witness:
  "\<exists>p. skb_header_pointer (SKB [] [1, 2] 6 4 0 0 0 0 0 [[3]] [SKB [] [4, 5, 6] 3 0 0 0 0 0 0 [] []]) 1 4 = Ok (Some p) \<and>
     deref (SKB [] [1, 2] 6 4 0 0 0 0 0 [[3]] [SKB [] [4, 5, 6] 3 0 0 0 0 0 0 [] []]) p 4 = Ok [2, 3, 4, 5]"
  using skb_header_pointer_spec[of "SKB [] [1, 2] 6 4 0 0 0 0 0 [[3]] [SKB [] [4, 5, 6] 3 0 0 0 0 0 0 [] []]" 1 4]
  by simp




end
