(* ===== verification/Socket_Filter.thy ===== *)
theory Socket_Filter
  imports Skbuff
begin

unbundle bit_operations_syntax

text \<open>
  The socket packet filter of \<^verbatim>\<open>net/core/filter.c\<close>: the checker \<^verbatim>\<open>sk_chk_filter\<close> and the interpreter
  \<^verbatim>\<open>sk_run_filter\<close>. The interpreter is modelled instruction by
  instruction over 32-bit words; every way it could leave its objects (an instruction outside the
  program, a scratch word outside \<^verbatim>\<open>mem[]\<close>, packet bytes outside the buffer), divide by zero, shift
  by 32 or more, or reach the \<^verbatim>\<open>WARN_ON\<close> default is a separate fault, so that the theorems can say
  which of them the checker excludes.
\<close>

section \<open>Model\<close>

text \<open>\<^verbatim>\<open>struct sock_filter\<close> and the instruction encoding of \<^verbatim>\<open>include/linux/filter.h\<close>.\<close>

record sock_filter =
  sf_code :: u16
  sf_jt :: u8
  sf_jf :: u8
  sf_k :: u32

abbreviation (input) BPF_LD :: u16 where "BPF_LD \<equiv> 0x00"
abbreviation (input) BPF_LDX :: u16 where "BPF_LDX \<equiv> 0x01"
abbreviation (input) BPF_ST :: u16 where "BPF_ST \<equiv> 0x02"
abbreviation (input) BPF_STX :: u16 where "BPF_STX \<equiv> 0x03"
abbreviation (input) BPF_ALU :: u16 where "BPF_ALU \<equiv> 0x04"
abbreviation (input) BPF_JMP :: u16 where "BPF_JMP \<equiv> 0x05"
abbreviation (input) BPF_RET :: u16 where "BPF_RET \<equiv> 0x06"
abbreviation (input) BPF_MISC :: u16 where "BPF_MISC \<equiv> 0x07"
abbreviation (input) BPF_W :: u16 where "BPF_W \<equiv> 0x00"
abbreviation (input) BPF_H :: u16 where "BPF_H \<equiv> 0x08"
abbreviation (input) BPF_B :: u16 where "BPF_B \<equiv> 0x10"
abbreviation (input) BPF_IMM :: u16 where "BPF_IMM \<equiv> 0x00"
abbreviation (input) BPF_ABS :: u16 where "BPF_ABS \<equiv> 0x20"
abbreviation (input) BPF_IND :: u16 where "BPF_IND \<equiv> 0x40"
abbreviation (input) BPF_MEM :: u16 where "BPF_MEM \<equiv> 0x60"
abbreviation (input) BPF_LEN :: u16 where "BPF_LEN \<equiv> 0x80"
abbreviation (input) BPF_MSH :: u16 where "BPF_MSH \<equiv> 0xa0"
abbreviation (input) BPF_ADD :: u16 where "BPF_ADD \<equiv> 0x00"
abbreviation (input) BPF_SUB :: u16 where "BPF_SUB \<equiv> 0x10"
abbreviation (input) BPF_MUL :: u16 where "BPF_MUL \<equiv> 0x20"
abbreviation (input) BPF_DIV :: u16 where "BPF_DIV \<equiv> 0x30"
abbreviation (input) BPF_OR :: u16 where "BPF_OR \<equiv> 0x40"
abbreviation (input) BPF_AND :: u16 where "BPF_AND \<equiv> 0x50"
abbreviation (input) BPF_LSH :: u16 where "BPF_LSH \<equiv> 0x60"
abbreviation (input) BPF_RSH :: u16 where "BPF_RSH \<equiv> 0x70"
abbreviation (input) BPF_NEG :: u16 where "BPF_NEG \<equiv> 0x80"
abbreviation (input) BPF_JA :: u16 where "BPF_JA \<equiv> 0x00"
abbreviation (input) BPF_JEQ :: u16 where "BPF_JEQ \<equiv> 0x10"
abbreviation (input) BPF_JGT :: u16 where "BPF_JGT \<equiv> 0x20"
abbreviation (input) BPF_JGE :: u16 where "BPF_JGE \<equiv> 0x30"
abbreviation (input) BPF_JSET :: u16 where "BPF_JSET \<equiv> 0x40"
abbreviation (input) BPF_K :: u16 where "BPF_K \<equiv> 0x00"
abbreviation (input) BPF_X :: u16 where "BPF_X \<equiv> 0x08"
abbreviation (input) BPF_A :: u16 where "BPF_A \<equiv> 0x10"
abbreviation (input) BPF_TAX :: u16 where "BPF_TAX \<equiv> 0x00"
abbreviation (input) BPF_TXA :: u16 where "BPF_TXA \<equiv> 0x80"

abbreviation (input) BPF_MAXINSNS :: nat where "BPF_MAXINSNS \<equiv> 4096"
abbreviation (input) BPF_MEMWORDS :: nat where "BPF_MEMWORDS \<equiv> 16"

definition BPF_CLASS :: "u16 \<Rightarrow> u16" where
  "BPF_CLASS code = code AND 0x07"

definition SKF_AD_OFF :: int where "SKF_AD_OFF = - 0x1000"
definition SKF_NET_OFF :: int where "SKF_NET_OFF = - 0x100000"
definition SKF_LL_OFF :: int where "SKF_LL_OFF = - 0x200000"

text \<open>
  The interpreter's variables: the accumulator \<open>A\<close>, the index register \<open>X\<close>, the scratch memory and
  the program counter (a C \<^verbatim>\<open>int\<close>, here a 32-bit word compared as signed).
\<close>

record bpf_state =
  bpf_A :: u32
  bpf_X :: u32
  bpf_mem :: "u32 list"
  bpf_pc :: u32

datatype bpf_fault = Bad_insn | Mem_oob | Div_zero | Pc_oob | Pkt_oob | Shift_undef

datatype bpf_result = Ret u32 | Fault bpf_fault

datatype bpf_outcome = Next bpf_state | Stop bpf_result

text \<open>\<^verbatim>\<open>__load_pointer\<close> and \<^verbatim>\<open>load_pointer\<close>.\<close>

definition load_pointer_neg :: "sk_buff \<Rightarrow> int \<Rightarrow> pkt_ptr option" where
  "load_pointer_neg skb k =
     (let pos = (if k \<ge> SKF_NET_OFF then Some (int (skb_net skb) + k - SKF_NET_OFF)
                 else if k \<ge> SKF_LL_OFF then Some (int (skb_mac skb) + k - SKF_LL_OFF)
                 else None)
      in case pos of
           None \<Rightarrow> None
         | Some p \<Rightarrow>
             if p \<ge> 0 \<and> p < int (length (skb_headroom skb @ skb_linear skb)) then Some (In_head p) else None)"

definition load_pointer :: "sk_buff \<Rightarrow> int \<Rightarrow> int \<Rightarrow> pkt_ptr option kresult" where
  "load_pointer skb k sz =
     (if k \<ge> 0 then skb_header_pointer skb k sz
      else if k \<ge> SKF_AD_OFF then Ok None
      else Ok (load_pointer_neg skb k))"

text \<open>The big-endian reads \<^verbatim>\<open>get_unaligned_be32\<close>, \<^verbatim>\<open>get_unaligned_be16\<close> and the byte read.\<close>

fun be_word :: "u8 list \<Rightarrow> u32 \<Rightarrow> u32" where
  "be_word [] acc = acc"
| "be_word (b # bs) acc = be_word bs (push_bit 8 acc OR ucast b)"

text \<open>
  A load of \<open>sz\<close> bytes at \<open>k\<close>: \<open>Ok (Some v)\<close> is the value, \<open>Ok None\<close> a \<^verbatim>\<open>NULL\<close> pointer, \<open>Bug\<close> a read
  outside the buffer.
\<close>

definition bpf_load :: "sk_buff \<Rightarrow> u32 \<Rightarrow> int \<Rightarrow> u32 option kresult" where
  "bpf_load skb k sz =
     (case load_pointer skb (sint k) sz of
        Bug \<Rightarrow> Bug
      | Err e \<Rightarrow> Err e
      | Ok None \<Rightarrow> Ok None
      | Ok (Some p) \<Rightarrow>
          (case deref skb p sz of
             Ok bs \<Rightarrow> Ok (Some (be_word bs 0))
           | Err e \<Rightarrow> Err e
           | Bug \<Rightarrow> Bug))"

text \<open>
  The instructions, in the order of the \<^verbatim>\<open>switch\<close>: each group returns \<open>None\<close> when the code is none of
  its labels. First the arithmetic labels; a shift by 32 or more is undefined in C.
\<close>

definition bpf_shl :: "bpf_state \<Rightarrow> u32 \<Rightarrow> bpf_outcome" where
  "bpf_shl s n = (if unat n < 32 then Next (s\<lparr>bpf_A := push_bit (unat n) (bpf_A s)\<rparr>) else Stop (Fault Shift_undef))"

definition bpf_shr :: "bpf_state \<Rightarrow> u32 \<Rightarrow> bpf_outcome" where
  "bpf_shr s n = (if unat n < 32 then Next (s\<lparr>bpf_A := drop_bit (unat n) (bpf_A s)\<rparr>) else Stop (Fault Shift_undef))"

definition bpf_alu :: "sock_filter \<Rightarrow> bpf_state \<Rightarrow> bpf_outcome option" where
  "bpf_alu f s =
     (let c = sf_code f; k = sf_k f; A = bpf_A s; X = bpf_X s in
      if c = (BPF_ALU OR BPF_ADD OR BPF_X) then Some (Next (s\<lparr>bpf_A := A + X\<rparr>))
      else if c = (BPF_ALU OR BPF_ADD OR BPF_K) then Some (Next (s\<lparr>bpf_A := A + k\<rparr>))
      else if c = (BPF_ALU OR BPF_SUB OR BPF_X) then Some (Next (s\<lparr>bpf_A := A - X\<rparr>))
      else if c = (BPF_ALU OR BPF_SUB OR BPF_K) then Some (Next (s\<lparr>bpf_A := A - k\<rparr>))
      else if c = (BPF_ALU OR BPF_MUL OR BPF_X) then Some (Next (s\<lparr>bpf_A := A * X\<rparr>))
      else if c = (BPF_ALU OR BPF_MUL OR BPF_K) then Some (Next (s\<lparr>bpf_A := A * k\<rparr>))
      else if c = (BPF_ALU OR BPF_DIV OR BPF_X) then
        Some (if X = 0 then Stop (Ret 0) else Next (s\<lparr>bpf_A := A div X\<rparr>))
      else if c = (BPF_ALU OR BPF_DIV OR BPF_K) then
        Some (if k = 0 then Stop (Fault Div_zero) else Next (s\<lparr>bpf_A := A div k\<rparr>))
      else if c = (BPF_ALU OR BPF_AND OR BPF_X) then Some (Next (s\<lparr>bpf_A := A AND X\<rparr>))
      else if c = (BPF_ALU OR BPF_AND OR BPF_K) then Some (Next (s\<lparr>bpf_A := A AND k\<rparr>))
      else if c = (BPF_ALU OR BPF_OR OR BPF_X) then Some (Next (s\<lparr>bpf_A := A OR X\<rparr>))
      else if c = (BPF_ALU OR BPF_OR OR BPF_K) then Some (Next (s\<lparr>bpf_A := A OR k\<rparr>))
      else if c = (BPF_ALU OR BPF_LSH OR BPF_X) then Some (bpf_shl s X)
      else if c = (BPF_ALU OR BPF_LSH OR BPF_K) then Some (bpf_shl s k)
      else if c = (BPF_ALU OR BPF_RSH OR BPF_X) then Some (bpf_shr s X)
      else if c = (BPF_ALU OR BPF_RSH OR BPF_K) then Some (bpf_shr s k)
      else if c = (BPF_ALU OR BPF_NEG) then Some (Next (s\<lparr>bpf_A := - A\<rparr>))
      else None)"

text \<open>The jumps: \<^verbatim>\<open>pc += offset\<close>; the loop's own increment follows.\<close>

definition bpf_branch :: "sock_filter \<Rightarrow> bpf_state \<Rightarrow> bool \<Rightarrow> bpf_outcome" where
  "bpf_branch f s cond = Next (s\<lparr>bpf_pc := bpf_pc s + ucast (if cond then sf_jt f else sf_jf f)\<rparr>)"

definition bpf_jmp :: "sock_filter \<Rightarrow> bpf_state \<Rightarrow> bpf_outcome option" where
  "bpf_jmp f s =
     (let c = sf_code f; k = sf_k f; A = bpf_A s; X = bpf_X s in
      if c = (BPF_JMP OR BPF_JA) then Some (Next (s\<lparr>bpf_pc := bpf_pc s + k\<rparr>))
      else if c = (BPF_JMP OR BPF_JGT OR BPF_K) then Some (bpf_branch f s (A > k))
      else if c = (BPF_JMP OR BPF_JGE OR BPF_K) then Some (bpf_branch f s (A \<ge> k))
      else if c = (BPF_JMP OR BPF_JEQ OR BPF_K) then Some (bpf_branch f s (A = k))
      else if c = (BPF_JMP OR BPF_JSET OR BPF_K) then Some (bpf_branch f s (A AND k \<noteq> 0))
      else if c = (BPF_JMP OR BPF_JGT OR BPF_X) then Some (bpf_branch f s (A > X))
      else if c = (BPF_JMP OR BPF_JGE OR BPF_X) then Some (bpf_branch f s (A \<ge> X))
      else if c = (BPF_JMP OR BPF_JEQ OR BPF_X) then Some (bpf_branch f s (A = X))
      else if c = (BPF_JMP OR BPF_JSET OR BPF_X) then Some (bpf_branch f s (A AND X \<noteq> 0))
      else None)"

text \<open>
  The ancillary data behind a failed load: the second \<^verbatim>\<open>switch\<close>. The attribute search runs on the
  linear buffer; \<^verbatim>\<open>skb->len - sizeof(struct nlattr)\<close> is unsigned and may wrap.
\<close>

definition bpf_ancillary :: "sk_buff \<Rightarrow> u32 \<Rightarrow> bpf_state \<Rightarrow> bpf_outcome" where
  "bpf_ancillary skb k s =
     (let n = k - word_of_int SKF_AD_OFF in
      if n = 0 then Next (s\<lparr>bpf_A := ucast (skb_protocol skb)\<rparr>)
      else if n = 4 then Next (s\<lparr>bpf_A := ucast (skb_pkt_type skb)\<rparr>)
      else if n = 8 then Next (s\<lparr>bpf_A := skb_ifindex skb\<rparr>)
      else if n = 12 then
        (if skb_is_nonlinear skb then Stop (Ret 0)
         else if bpf_A s > skb_len skb - 4 then Stop (Ret 0)
         else
           (case nla_find (skb_headroom skb @ skb_linear skb)
                   (int (length (skb_headroom skb)) + int (unat (bpf_A s)))
                   (sint (skb_len skb - bpf_A s)) (sint (bpf_X s)) of
              Bug \<Rightarrow> Stop (Fault Pkt_oob)
            | Err e \<Rightarrow> Stop (Fault Pkt_oob)
            | Ok (Some p) \<Rightarrow> Next (s\<lparr>bpf_A := word_of_int (p - int (length (skb_headroom skb)))\<rparr>)
            | Ok None \<Rightarrow> Next (s\<lparr>bpf_A := 0\<rparr>)))
      else Stop (Ret 0))"

definition bpf_load_A :: "sk_buff \<Rightarrow> u32 \<Rightarrow> int \<Rightarrow> bpf_state \<Rightarrow> bpf_outcome" where
  "bpf_load_A skb k sz s =
     (case bpf_load skb k sz of
        Bug \<Rightarrow> Stop (Fault Pkt_oob)
      | Err e \<Rightarrow> Stop (Fault Pkt_oob)
      | Ok (Some v) \<Rightarrow> Next (s\<lparr>bpf_A := v\<rparr>)
      | Ok None \<Rightarrow> bpf_ancillary skb k s)"

definition bpf_mem_read :: "bpf_state \<Rightarrow> u32 \<Rightarrow> (u32 \<Rightarrow> bpf_state) \<Rightarrow> bpf_outcome" where
  "bpf_mem_read s k upd =
     (if unat k < length (bpf_mem s) then Next (upd (bpf_mem s ! unat k)) else Stop (Fault Mem_oob))"

definition bpf_mem_write :: "bpf_state \<Rightarrow> u32 \<Rightarrow> u32 \<Rightarrow> bpf_outcome" where
  "bpf_mem_write s k v =
     (if unat k < length (bpf_mem s) then Next (s\<lparr>bpf_mem := (bpf_mem s)[unat k := v]\<rparr>)
      else Stop (Fault Mem_oob))"

definition bpf_ld :: "sk_buff \<Rightarrow> sock_filter \<Rightarrow> bpf_state \<Rightarrow> bpf_outcome option" where
  "bpf_ld skb f s =
     (let c = sf_code f; k = sf_k f; A = bpf_A s; X = bpf_X s in
      if c = (BPF_LD OR BPF_W OR BPF_ABS) then Some (bpf_load_A skb k 4 s)
      else if c = (BPF_LD OR BPF_H OR BPF_ABS) then Some (bpf_load_A skb k 2 s)
      else if c = (BPF_LD OR BPF_B OR BPF_ABS) then Some (bpf_load_A skb k 1 s)
      else if c = (BPF_LD OR BPF_W OR BPF_LEN) then Some (Next (s\<lparr>bpf_A := skb_len skb\<rparr>))
      else if c = (BPF_LDX OR BPF_W OR BPF_LEN) then Some (Next (s\<lparr>bpf_X := skb_len skb\<rparr>))
      else if c = (BPF_LD OR BPF_W OR BPF_IND) then Some (bpf_load_A skb (X + k) 4 s)
      else if c = (BPF_LD OR BPF_H OR BPF_IND) then Some (bpf_load_A skb (X + k) 2 s)
      else if c = (BPF_LD OR BPF_B OR BPF_IND) then Some (bpf_load_A skb (X + k) 1 s)
      else if c = (BPF_LDX OR BPF_B OR BPF_MSH) then
        Some (case bpf_load skb k 1 of
                Bug \<Rightarrow> Stop (Fault Pkt_oob)
              | Err e \<Rightarrow> Stop (Fault Pkt_oob)
              | Ok (Some v) \<Rightarrow> Next (s\<lparr>bpf_X := push_bit 2 (v AND 0xf)\<rparr>)
              | Ok None \<Rightarrow> Stop (Ret 0))
      else if c = (BPF_LD OR BPF_IMM) then Some (Next (s\<lparr>bpf_A := k\<rparr>))
      else if c = (BPF_LDX OR BPF_IMM) then Some (Next (s\<lparr>bpf_X := k\<rparr>))
      else if c = (BPF_LD OR BPF_MEM) then Some (bpf_mem_read s k (\<lambda>v. s\<lparr>bpf_A := v\<rparr>))
      else if c = (BPF_LDX OR BPF_MEM) then Some (bpf_mem_read s k (\<lambda>v. s\<lparr>bpf_X := v\<rparr>))
      else None)"

definition bpf_misc :: "sock_filter \<Rightarrow> bpf_state \<Rightarrow> bpf_outcome option" where
  "bpf_misc f s =
     (let c = sf_code f; k = sf_k f; A = bpf_A s; X = bpf_X s in
      if c = (BPF_MISC OR BPF_TAX) then Some (Next (s\<lparr>bpf_X := A\<rparr>))
      else if c = (BPF_MISC OR BPF_TXA) then Some (Next (s\<lparr>bpf_A := X\<rparr>))
      else if c = (BPF_RET OR BPF_K) then Some (Stop (Ret k))
      else if c = (BPF_RET OR BPF_A) then Some (Stop (Ret A))
      else if c = BPF_ST then Some (bpf_mem_write s k A)
      else if c = BPF_STX then Some (bpf_mem_write s k X)
      else None)"

text \<open>The loop body: one instruction; the last alternative is the \<^verbatim>\<open>default\<close> label.\<close>

definition bpf_step :: "sk_buff \<Rightarrow> sock_filter \<Rightarrow> bpf_state \<Rightarrow> bpf_outcome" where
  "bpf_step skb f s =
     (case bpf_alu f s of Some r \<Rightarrow> r | None \<Rightarrow>
      (case bpf_jmp f s of Some r \<Rightarrow> r | None \<Rightarrow>
       (case bpf_ld skb f s of Some r \<Rightarrow> r | None \<Rightarrow>
        (case bpf_misc f s of Some r \<Rightarrow> r | None \<Rightarrow> Stop (Fault Bad_insn)))))"

text \<open>
  The loop of \<^verbatim>\<open>sk_run_filter\<close>. A program that was not checked can jump backwards and run forever,
  so the loop is a partial function: \<open>None\<close> means that it does not return.
\<close>

partial_function (option) bpf_loop ::
  "sk_buff \<Rightarrow> sock_filter list \<Rightarrow> bpf_state \<Rightarrow> bpf_result option" where
  "bpf_loop skb prog s =
     (if sint (bpf_pc s) < int (length prog) then
        if sint (bpf_pc s) < 0 then Some (Fault Pc_oob)
        else
          (case bpf_step skb (prog ! nat (sint (bpf_pc s))) s of
             Stop r \<Rightarrow> Some r
           | Next s' \<Rightarrow> bpf_loop skb prog (s'\<lparr>bpf_pc := bpf_pc s' + 1\<rparr>))
      else Some (Ret 0))"

text \<open>\<open>mem0\<close> is what the uninitialised array \<^verbatim>\<open>mem[BPF_MEMWORDS]\<close> on the stack happens to hold.\<close>

definition sk_run_filter :: "u32 list \<Rightarrow> sk_buff \<Rightarrow> sock_filter list \<Rightarrow> bpf_result option" where
  "sk_run_filter mem0 skb prog =
     bpf_loop skb prog \<lparr>bpf_A = 0, bpf_X = 0, bpf_mem = mem0, bpf_pc = 0\<rparr>"

text \<open>\<^verbatim>\<open>sk_chk_filter\<close>: the check of one instruction, the loop over the program, the final test.\<close>

definition chk_plain_codes :: "u16 list" where
  "chk_plain_codes =
     [BPF_ALU OR BPF_ADD OR BPF_K, BPF_ALU OR BPF_ADD OR BPF_X, BPF_ALU OR BPF_SUB OR BPF_K,
      BPF_ALU OR BPF_SUB OR BPF_X, BPF_ALU OR BPF_MUL OR BPF_K, BPF_ALU OR BPF_MUL OR BPF_X,
      BPF_ALU OR BPF_DIV OR BPF_X, BPF_ALU OR BPF_AND OR BPF_K, BPF_ALU OR BPF_AND OR BPF_X,
      BPF_ALU OR BPF_OR OR BPF_K, BPF_ALU OR BPF_OR OR BPF_X, BPF_ALU OR BPF_LSH OR BPF_K,
      BPF_ALU OR BPF_LSH OR BPF_X, BPF_ALU OR BPF_RSH OR BPF_K, BPF_ALU OR BPF_RSH OR BPF_X,
      BPF_ALU OR BPF_NEG, BPF_LD OR BPF_W OR BPF_ABS, BPF_LD OR BPF_H OR BPF_ABS,
      BPF_LD OR BPF_B OR BPF_ABS, BPF_LD OR BPF_W OR BPF_LEN, BPF_LD OR BPF_W OR BPF_IND,
      BPF_LD OR BPF_H OR BPF_IND, BPF_LD OR BPF_B OR BPF_IND, BPF_LD OR BPF_IMM,
      BPF_LDX OR BPF_W OR BPF_LEN, BPF_LDX OR BPF_B OR BPF_MSH, BPF_LDX OR BPF_IMM,
      BPF_MISC OR BPF_TAX, BPF_MISC OR BPF_TXA, BPF_RET OR BPF_K, BPF_RET OR BPF_A]"

definition chk_branch_codes :: "u16 list" where
  "chk_branch_codes =
     [BPF_JMP OR BPF_JEQ OR BPF_K, BPF_JMP OR BPF_JEQ OR BPF_X, BPF_JMP OR BPF_JGE OR BPF_K,
      BPF_JMP OR BPF_JGE OR BPF_X, BPF_JMP OR BPF_JGT OR BPF_K, BPF_JMP OR BPF_JGT OR BPF_X,
      BPF_JMP OR BPF_JSET OR BPF_K, BPF_JMP OR BPF_JSET OR BPF_X]"

definition chk_insn :: "nat \<Rightarrow> nat \<Rightarrow> sock_filter \<Rightarrow> bool" where
  "chk_insn flen pc f =
     (let c = sf_code f in
      if c \<in> set chk_plain_codes then True
      else if c = (BPF_ALU OR BPF_DIV OR BPF_K) then sf_k f \<noteq> 0
      else if c = (BPF_LD OR BPF_MEM) \<or> c = (BPF_LDX OR BPF_MEM) \<or> c = BPF_ST \<or> c = BPF_STX then
        \<not> sf_k f \<ge> of_nat BPF_MEMWORDS
      else if c = (BPF_JMP OR BPF_JA) then
        \<not> sf_k f \<ge> (word_of_int (int flen - int pc - 1) :: u32)
      else if c \<in> set chk_branch_codes then
        \<not> (pc + unat (sf_jt f) + 1 \<ge> flen \<or> pc + unat (sf_jf f) + 1 \<ge> flen)
      else False)"

fun chk_loop :: "nat \<Rightarrow> nat \<Rightarrow> sock_filter list \<Rightarrow> bool" where
  "chk_loop flen pc [] = True"
| "chk_loop flen pc (f # fs) = (if chk_insn flen pc f then chk_loop flen (Suc pc) fs else False)"

definition sk_chk_filter :: "sock_filter list \<Rightarrow> errno + unit" where
  "sk_chk_filter prog =
     (let flen = length prog in
      if flen = 0 \<or> flen > BPF_MAXINSNS then Inl EINVAL
      else if \<not> chk_loop flen 0 prog then Inl EINVAL
      else if BPF_CLASS (sf_code (prog ! (flen - 1))) = BPF_RET then Inr () else Inl EINVAL)"

text \<open>The results the checker promises: none of the faults it is there to exclude.\<close>

definition bpf_safe :: "bpf_result \<Rightarrow> bool" where
  "bpf_safe r \<longleftrightarrow> r \<notin> Fault ` {Bad_insn, Mem_oob, Div_zero, Pc_oob}"

text \<open>An instruction that does not jump: it stops safely, or leaves \<open>pc\<close> and the size of \<open>mem\<close> alone.\<close>

fun bpf_straight :: "bpf_state \<Rightarrow> bpf_outcome \<Rightarrow> bool" where
  "bpf_straight s (Stop r) \<longleftrightarrow> bpf_safe r"
| "bpf_straight s (Next s') \<longleftrightarrow> bpf_pc s' = bpf_pc s \<and> length (bpf_mem s') = length (bpf_mem s)"

definition alu_codes :: "u16 set" where
  "alu_codes = {4, 12, 20, 28, 36, 44, 52, 60, 68, 76, 84, 92, 100, 108, 116, 124, 132}"
definition jmp_codes :: "u16 set" where
  "jmp_codes = {5, 21, 29, 37, 45, 53, 61, 69, 77}"
definition ld_codes :: "u16 set" where
  "ld_codes = {0, 1, 32, 40, 48, 64, 72, 80, 96, 97, 128, 129, 177}"
definition misc_codes :: "u16 set" where
  "misc_codes = {2, 3, 6, 7, 22, 135}"

text \<open>
  Instructions without undefined behaviour: packet loads at constant non-negative offsets, shifts by
  constants below 32.
\<close>

definition bpf_plain :: "sock_filter \<Rightarrow> bool" where
  "bpf_plain f \<longleftrightarrow>
     (let c = sf_code f in
      c \<notin> {BPF_LD OR BPF_W OR BPF_IND, BPF_LD OR BPF_H OR BPF_IND, BPF_LD OR BPF_B OR BPF_IND,
           BPF_ALU OR BPF_LSH OR BPF_X, BPF_ALU OR BPF_RSH OR BPF_X} \<and>
      (c \<in> {BPF_LD OR BPF_W OR BPF_ABS, BPF_LD OR BPF_H OR BPF_ABS, BPF_LD OR BPF_B OR BPF_ABS,
            BPF_LDX OR BPF_B OR BPF_MSH} \<longrightarrow> 0 \<le> sint (sf_k f)) \<and>
      (c \<in> {BPF_ALU OR BPF_LSH OR BPF_K, BPF_ALU OR BPF_RSH OR BPF_K} \<longrightarrow> sf_k f < 32))"

definition bpf_defined :: "bpf_result \<Rightarrow> bool" where
  "bpf_defined r \<longleftrightarrow> r \<notin> Fault ` {Pkt_oob, Shift_undef}"

text \<open>The filter \<open>ip\<close> of \<^verbatim>\<open>tcpdump\<close>: accept the whole packet when the Ethernet type is 0x800.\<close>

definition ip_filter :: "sock_filter list" where
  "ip_filter =
     [\<lparr>sf_code = BPF_LD OR BPF_H OR BPF_ABS, sf_jt = 0, sf_jf = 0, sf_k = 12\<rparr>,
      \<lparr>sf_code = BPF_JMP OR BPF_JEQ OR BPF_K, sf_jt = 0, sf_jf = 1, sf_k = 0x800\<rparr>,
      \<lparr>sf_code = BPF_RET OR BPF_K, sf_jt = 0, sf_jf = 0, sf_k = 0xffff\<rparr>,
      \<lparr>sf_code = BPF_RET OR BPF_K, sf_jt = 0, sf_jf = 0, sf_k = 0\<rparr>]"

section \<open>Lemmas\<close>

lemma bpf_ancillary_straight: "bpf_straight s (bpf_ancillary skb k s)"
  by (auto simp: bpf_ancillary_def Let_def bpf_safe_def split: kresult.splits option.splits)

lemma bpf_load_A_straight: "bpf_straight s (bpf_load_A skb k sz s)"
  using bpf_ancillary_straight by (auto simp: bpf_load_A_def bpf_safe_def split: kresult.splits option.splits)

lemma bpf_alu_straight:
  assumes "bpf_alu f s = Some r" and "sf_code f = BPF_ALU OR BPF_DIV OR BPF_K \<Longrightarrow> sf_k f \<noteq> 0"
  shows "bpf_straight s r" "BPF_CLASS (sf_code f) = BPF_ALU"
  using assms unfolding bpf_alu_def Let_def bpf_shl_def bpf_shr_def
  by (auto simp: BPF_CLASS_def bpf_safe_def split: if_splits)

lemma bpf_ld_straight:
  assumes "bpf_ld skb f s = Some r"
    and "sf_code f \<in> {BPF_LD OR BPF_MEM, BPF_LDX OR BPF_MEM} \<Longrightarrow> unat (sf_k f) < length (bpf_mem s)"
  shows "bpf_straight s r" "BPF_CLASS (sf_code f) \<noteq> BPF_RET"
  using assms bpf_load_A_straight[of s skb] unfolding bpf_ld_def Let_def bpf_mem_read_def
  by (auto simp: BPF_CLASS_def bpf_safe_def split: if_splits kresult.splits option.splits)

lemma bpf_misc_straight:
  assumes "bpf_misc f s = Some r"
    and "sf_code f \<in> {BPF_ST, BPF_STX} \<Longrightarrow> unat (sf_k f) < length (bpf_mem s)"
  shows "bpf_straight s r" "BPF_CLASS (sf_code f) = BPF_RET \<Longrightarrow> \<exists>v. r = Stop (Ret v)"
  using assms unfolding bpf_misc_def Let_def bpf_mem_write_def
  by (auto simp: BPF_CLASS_def bpf_safe_def split: if_splits)

lemma bpf_jmp_forward:
  assumes "bpf_jmp f s = Some r"
  shows "\<exists>d. r = Next (s\<lparr>bpf_pc := bpf_pc s + d\<rparr>) \<and>
      (sf_code f = BPF_JMP OR BPF_JA \<and> d = sf_k f \<or>
       sf_code f \<in> set chk_branch_codes \<and> (d = ucast (sf_jt f) \<or> d = ucast (sf_jf f)))"
    "BPF_CLASS (sf_code f) = BPF_JMP"
  using assms unfolding bpf_jmp_def Let_def bpf_branch_def chk_branch_codes_def
  by (auto simp: BPF_CLASS_def split: if_splits)

lemma chk_insnD:
  assumes "chk_insn flen pc f"
  shows "sf_code f = BPF_ALU OR BPF_DIV OR BPF_K \<Longrightarrow> sf_k f \<noteq> 0"
    "sf_code f \<in> {BPF_LD OR BPF_MEM, BPF_LDX OR BPF_MEM, BPF_ST, BPF_STX} \<Longrightarrow> unat (sf_k f) < BPF_MEMWORDS"
    "sf_code f = BPF_JMP OR BPF_JA \<Longrightarrow> sf_k f < word_of_int (int flen - int pc - 1)"
    "sf_code f \<in> set chk_branch_codes \<Longrightarrow> pc + unat (sf_jt f) + 1 < flen \<and> pc + unat (sf_jf f) + 1 < flen"
proof -
  have not_plain: "BPF_ALU OR BPF_DIV OR BPF_K \<notin> set chk_plain_codes"
    "BPF_LD OR BPF_MEM \<notin> set chk_plain_codes" "BPF_LDX OR BPF_MEM \<notin> set chk_plain_codes"
    "BPF_ST \<notin> set chk_plain_codes" "BPF_STX \<notin> set chk_plain_codes"
    "BPF_JMP OR BPF_JA \<notin> set chk_plain_codes"
    by (simp_all add: chk_plain_codes_def)
  have "set chk_branch_codes \<inter> (set chk_plain_codes \<union>
      {BPF_ALU OR BPF_DIV OR BPF_K, BPF_LD OR BPF_MEM, BPF_LDX OR BPF_MEM, BPF_ST, BPF_STX, BPF_JMP OR BPF_JA}) = {}"
    by (simp add: chk_plain_codes_def chk_branch_codes_def)
  then have branch: "c \<notin> set chk_plain_codes" "c \<noteq> BPF_ALU OR BPF_DIV OR BPF_K" "c \<noteq> BPF_LD OR BPF_MEM"
    "c \<noteq> BPF_LDX OR BPF_MEM" "c \<noteq> BPF_ST" "c \<noteq> BPF_STX" "c \<noteq> BPF_JMP OR BPF_JA"
    if "c \<in> set chk_branch_codes" for c using that by blast+
  show "sf_code f = BPF_ALU OR BPF_DIV OR BPF_K \<Longrightarrow> sf_k f \<noteq> 0"
    using assms not_plain(1) by (simp add: chk_insn_def)
  show "sf_code f = BPF_JMP OR BPF_JA \<Longrightarrow> sf_k f < word_of_int (int flen - int pc - 1)"
    using assms not_plain(6) by (simp add: chk_insn_def not_le)
  show "sf_code f \<in> {BPF_LD OR BPF_MEM, BPF_LDX OR BPF_MEM, BPF_ST, BPF_STX} \<Longrightarrow> unat (sf_k f) < BPF_MEMWORDS"
    using assms not_plain(2-5) by (auto simp: chk_insn_def word_le_nat_alt)
  show "sf_code f \<in> set chk_branch_codes \<Longrightarrow> pc + unat (sf_jt f) + 1 < flen \<and> pc + unat (sf_jf f) + 1 < flen"
    using assms branch[of "sf_code f"] by (simp add: chk_insn_def)
qed

lemma if_Some_eq_None: "((if P then Some x else y) = None) \<longleftrightarrow> \<not> P \<and> y = None"
  by simp

text \<open>The numeric values of the labels each group of instructions handles.\<close>

lemma bpf_alu_None: "bpf_alu f s = None \<Longrightarrow> sf_code f \<notin> alu_codes"
  unfolding bpf_alu_def Let_def if_Some_eq_None alu_codes_def by simp

lemma bpf_jmp_None: "bpf_jmp f s = None \<Longrightarrow> sf_code f \<notin> jmp_codes"
  unfolding bpf_jmp_def Let_def if_Some_eq_None jmp_codes_def by simp

lemma bpf_ld_None: "bpf_ld skb f s = None \<Longrightarrow> sf_code f \<notin> ld_codes"
  unfolding bpf_ld_def Let_def if_Some_eq_None ld_codes_def by simp

lemma bpf_misc_None: "bpf_misc f s = None \<Longrightarrow> sf_code f \<notin> misc_codes"
  unfolding bpf_misc_def Let_def if_Some_eq_None misc_codes_def by simp

lemma chk_codes_subset:
  "set chk_plain_codes \<subseteq> alu_codes \<union> jmp_codes \<union> ld_codes \<union> misc_codes"
  "set chk_branch_codes \<subseteq> jmp_codes"
  "BPF_ALU OR BPF_DIV OR BPF_K \<in> alu_codes" "BPF_LD OR BPF_MEM \<in> ld_codes"
  "BPF_LDX OR BPF_MEM \<in> ld_codes" "BPF_ST \<in> misc_codes" "BPF_STX \<in> misc_codes"
  "BPF_JMP OR BPF_JA \<in> jmp_codes"
  by (simp_all add: chk_plain_codes_def chk_branch_codes_def alu_codes_def jmp_codes_def
      ld_codes_def misc_codes_def)

lemma chk_insn_codes:
  "chk_insn flen pc f \<Longrightarrow> sf_code f \<in> alu_codes \<union> jmp_codes \<union> ld_codes \<union> misc_codes"
  unfolding chk_insn_def Let_def using chk_codes_subset by (simp only: split: if_splits) auto

lemma chk_insn_known:
  assumes "chk_insn flen pc f"
  shows "\<not> (bpf_alu f s = None \<and> bpf_jmp f s = None \<and> bpf_ld skb f s = None \<and> bpf_misc f s = None)"
  using chk_insn_codes[OF assms] bpf_alu_None[of f s] bpf_jmp_None[of f s] bpf_ld_None[of skb f s]
    bpf_misc_None[of f s] by blast

lemma chk_loop_nth: "chk_loop flen pc fs \<Longrightarrow> i < length fs \<Longrightarrow> chk_insn flen (pc + i) (fs ! i)"
proof (induction fs arbitrary: pc i)
  case (Cons f fs)
  then show ?case using Cons.IH[of "Suc pc" "i - 1"] by (cases i) (auto split: if_splits)
qed simp

text \<open>What the checker establishes of a program, in one place.\<close>

lemma sk_chk_filterD:
  assumes "sk_chk_filter prog = Inr ()"
  shows "0 < length prog" "length prog \<le> BPF_MAXINSNS"
    "i < length prog \<Longrightarrow> chk_insn (length prog) i (prog ! i)"
    "BPF_CLASS (sf_code (prog ! (length prog - 1))) = BPF_RET"
  using assms chk_loop_nth[of "length prog" 0 prog i]
  by (auto simp: sk_chk_filter_def Let_def split: if_splits)

lemma unat_of_nat_small: "n < 2 ^ 31 \<Longrightarrow> unat (of_nat n :: u32) = n"
  by (simp add: unat_of_nat)

lemma sint_of_nat_small: "n < 2 ^ 31 \<Longrightarrow> sint (of_nat n :: u32) = int n"
  by (simp add: sint_uint unat_of_nat signed_take_bit_int_eq_self uint_nat del: of_nat_unat)

text \<open>An accepted jump stays in the program.\<close>

lemma checked_jump_bound:
  assumes ci: "chk_insn flen i f" and i: "i < flen" and n: "flen \<le> BPF_MAXINSNS"
    and d: "sf_code f = BPF_JMP OR BPF_JA \<and> d = sf_k f \<or>
       sf_code f \<in> set chk_branch_codes \<and> (d = ucast (sf_jt f) \<or> d = ucast (sf_jf f))"
  shows "i + unat d + 1 < flen"
  using d
proof
  assume ja: "sf_code f = BPF_JMP OR BPF_JA \<and> d = sf_k f"
  have "(word_of_int (int flen - int i - 1) :: u32) = of_nat (flen - i - 1)"
    using i by (simp add: of_nat_diff)
  then have "unat d < flen - i - 1"
    using ja chk_insnD(3)[OF ci] n by (simp add: word_less_nat_alt unat_of_nat_small)
  then show ?thesis by simp
next
  assume br: "sf_code f \<in> set chk_branch_codes \<and> (d = ucast (sf_jt f) \<or> d = ucast (sf_jf f))"
  have "unat (ucast b :: u32) = unat b" for b :: u8
    using unsigned_less[of b, where ?'a = nat] by (simp add: unsigned_ucast_eq take_bit_nat_eq_self)
  then show ?thesis using br chk_insnD(4)[OF ci] by auto
qed

text \<open>From instruction \<open>i\<close> of a checked program a step stops safely or moves forward, still inside it.\<close>

lemma bpf_step_checked:
  assumes chk: "sk_chk_filter prog = Inr ()" and i: "i < length prog"
    and pc: "bpf_pc s = of_nat i" and mem: "length (bpf_mem s) = BPF_MEMWORDS"
  shows "case bpf_step skb (prog ! i) s of
      Stop r \<Rightarrow> bpf_safe r
    | Next s' \<Rightarrow> length (bpf_mem s') = BPF_MEMWORDS \<and>
        (\<exists>j. i < j \<and> j < length prog \<and> bpf_pc s' + 1 = of_nat j)"
proof -
  define f where "f = prog ! i"
  note c = sk_chk_filterD[OF chk]
  have ci: "chk_insn (length prog) i f" using c(3)[OF i] by (simp add: f_def)
  note cd = chk_insnD[OF ci]
  have next_ok: "i < Suc i \<and> Suc i < length prog \<and> bpf_pc s + 1 = of_nat (Suc i)"
    if "BPF_CLASS (sf_code f) \<noteq> BPF_RET"
  proof -
    have "i \<noteq> length prog - 1" using that c(4) by (auto simp: f_def)
    then show ?thesis using i pc by simp
  qed
  have straight: ?thesis if "bpf_step skb f s = r" "bpf_straight s r"
    "BPF_CLASS (sf_code f) \<noteq> BPF_RET \<or> (\<exists>v. r = Stop (Ret v))" for r
    using that next_ok mem unfolding f_def[symmetric]
    by (cases r) (auto intro: exI[of _ "Suc i"])
  consider (alu) r where "bpf_alu f s = Some r"
    | (jmp) r where "bpf_alu f s = None" "bpf_jmp f s = Some r"
    | (ld) r where "bpf_alu f s = None" "bpf_jmp f s = None" "bpf_ld skb f s = Some r"
    | (misc) r where "bpf_alu f s = None" "bpf_jmp f s = None" "bpf_ld skb f s = None" "bpf_misc f s = Some r"
    using chk_insn_known[OF ci, of s skb]
    by (cases "bpf_alu f s"; cases "bpf_jmp f s"; cases "bpf_ld skb f s"; cases "bpf_misc f s") auto
  then show ?thesis
  proof cases
    case alu
    then show ?thesis using bpf_alu_straight[OF alu cd(1)]
      by (intro straight[of r]) (auto simp: bpf_step_def)
  next
    case ld
    moreover have "sf_code f \<in> {BPF_LD OR BPF_MEM, BPF_LDX OR BPF_MEM} \<Longrightarrow> unat (sf_k f) < length (bpf_mem s)"
      using cd(2) mem by auto
    ultimately show ?thesis using bpf_ld_straight[of skb f s r]
      by (intro straight[of r]) (auto simp: bpf_step_def)
  next
    case misc
    moreover have "sf_code f \<in> {BPF_ST, BPF_STX} \<Longrightarrow> unat (sf_k f) < length (bpf_mem s)"
      using cd(2) mem by auto
    ultimately show ?thesis using bpf_misc_straight[of f s r]
      by (intro straight[of r]) (auto simp: bpf_step_def)
  next
    case jmp
    obtain d where r: "r = Next (s\<lparr>bpf_pc := bpf_pc s + d\<rparr>)"
      and d: "sf_code f = BPF_JMP OR BPF_JA \<and> d = sf_k f \<or>
       sf_code f \<in> set chk_branch_codes \<and> (d = ucast (sf_jt f) \<or> d = ucast (sf_jf f))"
      using bpf_jmp_forward(1)[OF jmp(2)] by blast
    have "i + unat d + 1 < length prog" using checked_jump_bound[OF ci i c(2) d] .
    moreover have "bpf_pc s + d + 1 = of_nat (i + unat d + 1)" by (simp add: pc)
    ultimately show ?thesis using jmp r mem
      by (auto simp: bpf_step_def f_def[symmetric] intro!: exI[of _ "i + unat d + 1"])
  qed
qed

lemma bpf_loop_checked:
  assumes chk: "sk_chk_filter prog = Inr ()"
  shows "i < length prog \<Longrightarrow> bpf_pc s = of_nat i \<Longrightarrow> length (bpf_mem s) = BPF_MEMWORDS \<Longrightarrow>
    \<exists>r. bpf_loop skb prog s = Some r \<and> bpf_safe r"
proof (induction "length prog - i" arbitrary: i s rule: less_induct)
  case less
  have small: "i < 2 ^ 31" using less.prems(1) sk_chk_filterD(2)[OF chk] by simp
  have loop: "bpf_loop skb prog s = (case bpf_step skb (prog ! i) s of Stop r \<Rightarrow> Some r
      | Next s' \<Rightarrow> bpf_loop skb prog (s'\<lparr>bpf_pc := bpf_pc s' + 1\<rparr>))"
    using less.prems small by (subst bpf_loop.simps) (simp add: sint_of_nat_small)
  note step = bpf_step_checked[OF chk less.prems, of skb]
  show ?case
  proof (cases "bpf_step skb (prog ! i) s")
    case (Stop r)
    then show ?thesis using step loop by simp
  next
    case (Next s')
    with step obtain j where j: "i < j" "j < length prog" "bpf_pc s' + 1 = of_nat j"
      and m: "length (bpf_mem s') = BPF_MEMWORDS" by auto
    then show ?thesis
      using less.hyps[of j "s'\<lparr>bpf_pc := bpf_pc s' + 1\<rparr>"] loop Next by simp
  qed
qed

lemma bpf_load_nonneg:
  assumes "skb_wf skb" "0 \<le> sint k" "0 < sz"
  shows "\<exists>v. bpf_load skb k sz = Ok v"
  using skb_header_pointer_flat[OF assms]
  by (auto simp: bpf_load_def load_pointer_def assms split: if_splits)

lemma bpf_ancillary_nonneg:
  assumes "0 \<le> sint k"
  shows "bpf_ancillary skb k s = Stop (Ret 0)"
proof -
  note sint_nonneg_unat(2)[OF assms]
  then have "unat (k + 0x1000) = unat k + 0x1000" by (simp add: unat_plus_if')
  then have "k + 0x1000 \<noteq> c" if "unat c < 0x1000" for c 
    using that by (metis not_add_less2)
  from this[of 0] this[of 4] this[of 8] this[of 12] show ?thesis by (simp add: bpf_ancillary_def SKF_AD_OFF_def Let_def)
qed

lemma bpf_load_A_nonneg:
  assumes "skb_wf skb" "0 \<le> sint k" "0 < sz"
  shows "bpf_load_A skb k sz s \<noteq> Stop (Fault x)"
  using bpf_load_nonneg[OF assms] bpf_ancillary_nonneg[OF assms(2)]
  by (auto simp: bpf_load_A_def split: option.splits)

lemma bpf_step_defined:
  assumes "skb_wf skb" and "bpf_plain f" and "bpf_step skb f s = Stop r"
  shows "bpf_defined r"
proof -
  have load: "bpf_load_A skb (sf_k f) sz s = Stop r \<Longrightarrow> bpf_defined r" if "0 \<le> sint (sf_k f)" "0 < sz" for sz
    using bpf_load_A_nonneg[OF assms(1) that, of s] by (auto simp: bpf_defined_def)
  have "bpf_defined r" if "bpf_alu f s = Some (Stop r)"
    using that assms(2) unfolding bpf_alu_def Let_def bpf_plain_def bpf_shl_def bpf_shr_def
    by (auto simp: bpf_defined_def word_less_nat_alt split: if_splits)
  moreover have "bpf_defined r" if "bpf_jmp f s = Some (Stop r)"
    using that bpf_jmp_forward(1) by blast
  moreover have "bpf_defined r" if "bpf_ld skb f s = Some (Stop r)"
    using that assms(2) load[of 4] load[of 2] load[of 1] bpf_load_nonneg[OF assms(1), of "sf_k f" 1]
    unfolding bpf_ld_def Let_def bpf_plain_def bpf_mem_read_def
    by (auto simp: bpf_defined_def split: if_splits option.splits)
  moreover have "bpf_defined r" if "bpf_misc f s = Some (Stop r)"
    using that unfolding bpf_misc_def Let_def bpf_mem_write_def
    by (auto simp: bpf_defined_def split: if_splits)
  moreover have "bpf_defined (Fault Bad_insn)" by (simp add: bpf_defined_def image_iff)
  ultimately show ?thesis using assms(3) by (auto simp: bpf_step_def split: option.splits)
qed

lemma bpf_loop_defined:
  assumes "bpf_loop skb prog s = Some r" and "skb_wf skb" and "\<forall>f \<in> set prog. bpf_plain f"
  shows "bpf_defined r"
  using assms
proof (induct rule: bpf_loop.raw_induct[rotated, consumes 1, case_names step])
  case (step loop skb prog s r)
  let ?pc = "sint (bpf_pc s)"
  consider (pc) "r = Fault Pc_oob" | (out) "r = Ret 0"
    | (insn) "0 \<le> ?pc" "?pc < int (length prog)"
        "(case bpf_step skb (prog ! nat ?pc) s of Stop r \<Rightarrow> Some r
          | Next s' \<Rightarrow> loop skb prog (s'\<lparr>bpf_pc := bpf_pc s' + 1\<rparr>)) = Some r"
    using step.hyps(2) by (auto split: if_splits)
  then show ?case
  proof cases
    case insn
    then have "prog ! nat ?pc \<in> set prog" by simp
    then show ?thesis
      using insn(3) step.hyps(1) step.prems bpf_step_defined[of skb "prog ! nat ?pc" s r]
      by (auto split: bpf_outcome.splits)
  qed (auto simp: bpf_defined_def)
qed

lemma sk_run_filter_checked:
  assumes "sk_chk_filter prog = Inr ()" and "length mem0 = BPF_MEMWORDS"
  shows "\<exists>r. sk_run_filter mem0 skb prog = Some r \<and> bpf_safe r"
  using bpf_loop_checked[OF assms(1), of 0] sk_chk_filterD(1)[OF assms(1)] assms(2)
  by (simp add: sk_run_filter_def)

lemma ip_filter_chk: "sk_chk_filter ip_filter = Inr ()"
  by (simp add: sk_chk_filter_def ip_filter_def chk_insn_def chk_plain_codes_def chk_branch_codes_def BPF_CLASS_def)

lemma ip_filter_plain: "\<forall>f \<in> set ip_filter. bpf_plain f"
  by (simp add: ip_filter_def bpf_plain_def)

section \<open>Properties\<close>

text \<open>
  C6. A program that \<open>sk_chk_filter\<close> accepts can be run on any packet: \<open>sk_run_filter\<close> returns (every
  jump goes forward), it never fetches an instruction outside the program, never touches scratch
  memory outside \<open>mem[]\<close>, never divides by zero and never reaches the default label.
\<close>

theorem sk_run_filter_safe:
  assumes "sk_chk_filter prog = Inr ()" and "length mem0 = BPF_MEMWORDS"
  shows "\<exists>r. sk_run_filter mem0 skb prog = Some r \<and> r \<notin> Fault ` {Bad_insn, Mem_oob, Div_zero, Pc_oob}"
  using sk_run_filter_checked[OF assms] by (simp add: bpf_safe_def)

theorem sk_run_filter_safe_witness:
  "\<exists>r. sk_run_filter (replicate 16 0) (SKB [] [1, 2] 2 0 0 1 0 0 0 [] []) ip_filter = Some r \<and>
     r \<notin> Fault ` {Bad_insn, Mem_oob, Div_zero, Pc_oob}"
  by (rule sk_run_filter_safe) (simp_all add: ip_filter_chk)

text \<open>
  C7. An accepted program whose packet loads use constant non-negative offsets and whose shifts
  are by constants below 32 always returns a value on a well-formed buffer: no undefined behaviour
  is left.
\<close>

theorem sk_run_filter_returns:
  assumes "sk_chk_filter prog = Inr ()" and "length mem0 = BPF_MEMWORDS"
    and "skb_wf skb" and "\<forall>f \<in> set prog. bpf_plain f"
  shows "\<exists>v. sk_run_filter mem0 skb prog = Some (Ret v)"
proof -
  obtain r where r: "sk_run_filter mem0 skb prog = Some r" and "bpf_safe r"
    using sk_run_filter_checked[OF assms(1,2)] by blast
  moreover have "bpf_defined r"
    using r bpf_loop_defined assms(3,4) by (auto simp: sk_run_filter_def)
  ultimately show ?thesis
    by (cases r; (cases "(case r of Fault x \<Rightarrow> x)")?) (auto simp: bpf_safe_def bpf_defined_def)
qed

theorem sk_run_filter_returns_witness:
  "\<exists>v. sk_run_filter (replicate 16 0) (SKB [] [1, 2] 2 0 0 1 0 0 0 [] []) ip_filter = Some (Ret v)"
  by (rule sk_run_filter_returns) (simp_all add: ip_filter_chk ip_filter_plain)


text \<open>
  C9. The scratch memory is not initialised and the checker does not require a store before a
  load: this accepted program returns the first word of what the stack held.
\<close>

theorem scratch_memory_leak:
  "sk_chk_filter [\<lparr>sf_code = BPF_LD OR BPF_MEM, sf_jt = 0, sf_jf = 0, sf_k = 0\<rparr>,
      \<lparr>sf_code = BPF_RET OR BPF_A, sf_jt = 0, sf_jf = 0, sf_k = 0\<rparr>] = Inr () \<and>
   sk_run_filter (w # ws) skb
     [\<lparr>sf_code = BPF_LD OR BPF_MEM, sf_jt = 0, sf_jf = 0, sf_k = 0\<rparr>,
      \<lparr>sf_code = BPF_RET OR BPF_A, sf_jt = 0, sf_jf = 0, sf_k = 0\<rparr>] = Some (Ret w)"
  by (simp add: sk_chk_filter_def chk_insn_def chk_plain_codes_def BPF_CLASS_def sk_run_filter_def
      bpf_loop.simps bpf_step_def bpf_alu_def bpf_jmp_def bpf_ld_def bpf_misc_def bpf_mem_read_def)

end
