(* ===== verification/Filter_Attach.thy ===== *)
theory Filter_Attach
  imports Socket_Filter
begin

text \<open>
  The life of a socket filter: \<^verbatim>\<open>sk_attach_filter\<close>, \<^verbatim>\<open>sk_detach_filter\<close> and \<^verbatim>\<open>sk_filter\<close> of
  \<^verbatim>\<open>net/core/filter.c\<close>, the reference counting and memory accounting of \<^verbatim>\<open>include/net/sock.h\<close> and
  the filter's part of \<^verbatim>\<open>sk_clone\<close>, \<^verbatim>\<open>sk_free\<close> and \<^verbatim>\<open>sock_kmalloc\<close> of \<^verbatim>\<open>net/core/sock.c\<close>. Filters live on
  an explicit heap: a filter that is used after its \<^verbatim>\<open>kfree\<close> is \<open>Bug\<close>. The RCU callbacks that
  \<^verbatim>\<open>call_rcu_bh\<close> queues run as steps of their own, at any later time.
\<close>

section \<open>Model\<close>

type_synonym filter_addr = nat
type_synonym sock_id = nat

record sk_filter_t =
  skf_refcnt :: int
  skf_insns :: "sock_filter list"

record sock =
  sk_omem_alloc :: int
  sk_filter_ptr :: "filter_addr option"

record net =
  net_filters :: "filter_addr \<rightharpoonup> sk_filter_t"
  net_socks :: "sock_id \<rightharpoonup> sock"
  net_rcu :: "filter_addr list"

text \<open>
  \<^verbatim>\<open>sk_filter_len\<close>; \<^verbatim>\<open>sizeof(struct sock_filter)\<close> is 8 and \<^verbatim>\<open>sizeof(struct sk_filter)\<close> 16. The program length is
  the \<^verbatim>\<open>unsigned short\<close> of \<^verbatim>\<open>struct sock_fprog\<close>, so the size and the counters stay far below \<^verbatim>\<open>INT_MAX\<close>.
\<close>

definition sk_filter_len :: "sk_filter_t \<Rightarrow> int" where
  "sk_filter_len fp = int (length (skf_insns fp)) * 8 + 16"

definition filter_of :: "net \<Rightarrow> filter_addr \<Rightarrow> sk_filter_t kresult" where
  "filter_of w fp = (case net_filters w fp of Some f \<Rightarrow> Ok f | None \<Rightarrow> Bug)"

definition sk_filter_release :: "filter_addr \<Rightarrow> net \<Rightarrow> net kresult" where
  "sk_filter_release fp w =
     (case filter_of w fp of
        Ok f \<Rightarrow>
          (if skf_refcnt f - 1 = 0 then Ok (w\<lparr>net_filters := (net_filters w)(fp := None)\<rparr>)
           else Ok (w\<lparr>net_filters := (net_filters w)(fp \<mapsto> f\<lparr>skf_refcnt := skf_refcnt f - 1\<rparr>)\<rparr>))
      | Err e \<Rightarrow> Err e
      | Bug \<Rightarrow> Bug)"

definition omem_add :: "sock_id \<Rightarrow> int \<Rightarrow> net \<Rightarrow> net" where
  "omem_add sk n w =
     w\<lparr>net_socks := (net_socks w)(sk := map_option (\<lambda>s. s\<lparr>sk_omem_alloc := sk_omem_alloc s + n\<rparr>) (net_socks w sk))\<rparr>"

definition set_filter :: "sock_id \<Rightarrow> filter_addr option \<Rightarrow> net \<Rightarrow> net" where
  "set_filter sk fp w =
     w\<lparr>net_socks := (net_socks w)(sk := map_option (\<lambda>s. s\<lparr>sk_filter_ptr := fp\<rparr>) (net_socks w sk))\<rparr>"

definition sk_filter_uncharge :: "sock_id \<Rightarrow> filter_addr \<Rightarrow> net \<Rightarrow> net kresult" where
  "sk_filter_uncharge sk fp w =
     (case filter_of w fp of
        Ok f \<Rightarrow> sk_filter_release fp (omem_add sk (- sk_filter_len f) w)
      | Err e \<Rightarrow> Err e
      | Bug \<Rightarrow> Bug)"

definition sk_filter_charge :: "sock_id \<Rightarrow> filter_addr \<Rightarrow> net \<Rightarrow> net kresult" where
  "sk_filter_charge sk fp w =
     (case filter_of w fp of
        Ok f \<Rightarrow>
          Ok (omem_add sk (sk_filter_len f)
                (w\<lparr>net_filters := (net_filters w)(fp \<mapsto> f\<lparr>skf_refcnt := skf_refcnt f + 1\<rparr>)\<rparr>))
      | Err e \<Rightarrow> Err e
      | Bug \<Rightarrow> Bug)"

definition sk_filter_delayed_uncharge :: "sock_id \<Rightarrow> filter_addr \<Rightarrow> net \<Rightarrow> net kresult" where
  "sk_filter_delayed_uncharge sk fp w =
     (case filter_of w fp of
        Ok f \<Rightarrow> Ok ((omem_add sk (- sk_filter_len f) w)\<lparr>net_rcu := net_rcu w @ [fp]\<rparr>)
      | Err e \<Rightarrow> Err e
      | Bug \<Rightarrow> Bug)"

text \<open>\<^verbatim>\<open>sk_filter_rcu_release\<close>, run by RCU for the oldest queued callback.\<close>

definition sk_filter_rcu_release :: "net \<Rightarrow> net kresult" where
  "sk_filter_rcu_release w =
     (case net_rcu w of
        [] \<Rightarrow> Ok w
      | fp # q \<Rightarrow> sk_filter_release fp (w\<lparr>net_rcu := q\<rparr>))"

text \<open>
  \<^verbatim>\<open>sock_kmalloc\<close> and \<^verbatim>\<open>sock_kfree_s\<close>; \<open>mem\<close> is what \<^verbatim>\<open>kmalloc\<close> returns (\<open>None\<close>: no memory). The first
  comparison is unsigned in C; sizes and the sysctl are not negative.
\<close>

definition sock_kmalloc :: "int \<Rightarrow> filter_addr option \<Rightarrow> sock_id \<Rightarrow> int \<Rightarrow> net \<Rightarrow> filter_addr option \<times> net" where
  "sock_kmalloc optmem_max mem sk sz w =
     (case net_socks w sk of
        Some s \<Rightarrow>
          (if sz \<le> optmem_max \<and> sk_omem_alloc s + sz < optmem_max then
             let w' = omem_add sk sz w in
             (case mem of
                Some a \<Rightarrow> (Some a, w'\<lparr>net_filters := (net_filters w')(a \<mapsto> \<lparr>skf_refcnt = 0, skf_insns = []\<rparr>)\<rparr>)
              | None \<Rightarrow> (None, omem_add sk (- sz) w'))
           else (None, w))
      | None \<Rightarrow> (None, w))"

definition sock_kfree_s :: "sock_id \<Rightarrow> filter_addr \<Rightarrow> int \<Rightarrow> net \<Rightarrow> net" where
  "sock_kfree_s sk mem sz w = omem_add sk (- sz) (w\<lparr>net_filters := (net_filters w)(mem := None)\<rparr>)"

text \<open>
  \<^verbatim>\<open>sk_attach_filter\<close>. The inputs are the user's program pointer (a \<^verbatim>\<open>NULL\<close> flag), its length, the
  allocator's answer and the instructions \<^verbatim>\<open>copy_from_user\<close> delivers (\<open>None\<close>: a fault). The second
  component is the errno, \<open>None\<close> for success.
\<close>

definition sk_attach_filter ::
  "int \<Rightarrow> filter_addr option \<Rightarrow> bool \<Rightarrow> nat \<Rightarrow> sock_filter list option \<Rightarrow> sock_id \<Rightarrow> net \<Rightarrow> (net \<times> errno option) kresult" where
  "sk_attach_filter optmem_max mem is_null len copied sk w =
     (let fsize = int len * 8 in
      if is_null then Ok (w, Some EINVAL)
      else
        (case sock_kmalloc optmem_max mem sk (fsize + 16) w of
           (None, w) \<Rightarrow> Ok (w, Some ENOMEM)
         | (Some fp, w) \<Rightarrow>
             (case copied of
                None \<Rightarrow> Ok (sock_kfree_s sk fp (fsize + 16) w, Some EFAULT)
              | Some insns \<Rightarrow>
                  let w = w\<lparr>net_filters := (net_filters w)(fp \<mapsto> \<lparr>skf_refcnt = 1, skf_insns = insns\<rparr>)\<rparr> in
                  (case sk_chk_filter insns of
                     Inl e \<Rightarrow>
                       (case sk_filter_uncharge sk fp w of
                          Ok w \<Rightarrow> Ok (w, Some e) | Err e' \<Rightarrow> Err e' | Bug \<Rightarrow> Bug)
                   | Inr _ \<Rightarrow>
                       (let old_fp = Option.bind (net_socks w sk) sk_filter_ptr; w = set_filter sk (Some fp) w in
                        (case old_fp of
                           None \<Rightarrow> Ok (w, None)
                         | Some old \<Rightarrow>
                             (case sk_filter_delayed_uncharge sk old w of
                                Ok w \<Rightarrow> Ok (w, None) | Err e' \<Rightarrow> Err e' | Bug \<Rightarrow> Bug)))))))"

definition sk_detach_filter :: "sock_id \<Rightarrow> net \<Rightarrow> (net \<times> errno option) kresult" where
  "sk_detach_filter sk w =
     (case Option.bind (net_socks w sk) sk_filter_ptr of
        None \<Rightarrow> Ok (w, Some ENOENT)
      | Some fp \<Rightarrow>
          (case sk_filter_delayed_uncharge sk fp (set_filter sk None w) of
             Ok w \<Rightarrow> Ok (w, None) | Err e \<Rightarrow> Err e | Bug \<Rightarrow> Bug))"

text \<open>
  \<^verbatim>\<open>sk_free\<close>; the flag is the report "optmem leakage detected", made when the counter is not zero
  in the end.
\<close>

definition sk_free :: "sock_id \<Rightarrow> net \<Rightarrow> (net \<times> bool) kresult" where
  "sk_free sk w =
     (let r = (case Option.bind (net_socks w sk) sk_filter_ptr of
                 None \<Rightarrow> Ok w
               | Some fp \<Rightarrow>
                   (case sk_filter_uncharge sk fp w of
                      Ok w \<Rightarrow> Ok (set_filter sk None w) | Err e \<Rightarrow> Err e | Bug \<Rightarrow> Bug))
      in case r of
           Ok w \<Rightarrow>
             (let leak = (case net_socks w sk of Some s \<Rightarrow> sk_omem_alloc s \<noteq> 0 | None \<Rightarrow> False)
              in Ok (w\<lparr>net_socks := (net_socks w)(sk := None)\<rparr>, leak))
         | Err e \<Rightarrow> Err e
         | Bug \<Rightarrow> Bug)"

text \<open>
  \<^verbatim>\<open>sk_clone\<close>, as far as the filter is concerned: \<open>newsk\<close> is the socket \<^verbatim>\<open>sk_prot_alloc\<close> returns and
  \<open>xfrm_fails\<close> whether \<^verbatim>\<open>xfrm_sk_clone_policy\<close> fails, in which case the copy is freed again.
\<close>

definition sk_clone :: "sock_id option \<Rightarrow> bool \<Rightarrow> sock_id \<Rightarrow> net \<Rightarrow> net kresult" where
  "sk_clone newsk xfrm_fails sk w =
     (case (newsk, net_socks w sk) of
        (Some n, Some s) \<Rightarrow>
          (let w = w\<lparr>net_socks := (net_socks w)(n \<mapsto> s\<lparr>sk_omem_alloc := 0\<rparr>)\<rparr>;
               r = (case sk_filter_ptr s of None \<Rightarrow> Ok w | Some fp \<Rightarrow> sk_filter_charge n fp w)
           in if xfrm_fails then
                (case r of
                   Ok w \<Rightarrow> (case sk_free n w of Ok (w, _) \<Rightarrow> Ok w | Err e \<Rightarrow> Err e | Bug \<Rightarrow> Bug)
                 | Err e \<Rightarrow> Err e | Bug \<Rightarrow> Bug)
              else r)
      | _ \<Rightarrow> Ok w)"

text \<open>
  \<^verbatim>\<open>sk_filter\<close>: \<open>security\<close> is the answer of \<^verbatim>\<open>security_sock_rcv_skb\<close> and \<open>pskb_trim\<close> what trimming the
  packet to a length returns. \<open>None\<close> inside \<open>Ok\<close> would be a filter that never returns.
\<close>

definition sk_filter :: "errno option \<Rightarrow> (u32 \<Rightarrow> errno option) \<Rightarrow> u32 list \<Rightarrow> sock_id \<Rightarrow> sk_buff \<Rightarrow> net \<Rightarrow>
    (errno option + bpf_fault) option kresult" where
  "sk_filter security pskb_trim mem0 sk skb w =
     (if security \<noteq> None then Ok (Some (Inl security))
      else
        (case Option.bind (net_socks w sk) sk_filter_ptr of
           None \<Rightarrow> Ok (Some (Inl None))
         | Some fp \<Rightarrow>
             (case filter_of w fp of
                Ok f \<Rightarrow>
                  Ok (case sk_run_filter mem0 skb (skf_insns f) of
                        None \<Rightarrow> None
                      | Some (Ret pkt_len) \<Rightarrow>
                          Some (Inl (if pkt_len \<noteq> 0 then pskb_trim pkt_len else Some EPERM))
                      | Some (Fault x) \<Rightarrow> Some (Inr x))
              | Err e \<Rightarrow> Err e
              | Bug \<Rightarrow> Bug)))"

text \<open>
  The system as a transition relation: sockets are created without a filter (\<^verbatim>\<open>sk_alloc\<close> returns
  zeroed memory), the allocators return addresses that are not in use.
\<close>

inductive net_step :: "net \<Rightarrow> net kresult \<Rightarrow> bool" for w :: net where
  create: "net_socks w sk = None \<Longrightarrow>
     net_step w (Ok (w\<lparr>net_socks := (net_socks w)(sk \<mapsto> \<lparr>sk_omem_alloc = 0, sk_filter_ptr = None\<rparr>)\<rparr>))"
| attach: "sk \<in> dom (net_socks w) \<Longrightarrow> (\<forall>a. mem = Some a \<longrightarrow> net_filters w a = None) \<Longrightarrow>
     (\<forall>insns. copied = Some insns \<longrightarrow> length insns = len) \<Longrightarrow>
     net_step w (map_kresult fst (sk_attach_filter optmem_max mem is_null len copied sk w))"
| detach: "sk \<in> dom (net_socks w) \<Longrightarrow> net_step w (map_kresult fst (sk_detach_filter sk w))"
| clone: "sk \<in> dom (net_socks w) \<Longrightarrow> (\<forall>n. newsk = Some n \<longrightarrow> net_socks w n = None) \<Longrightarrow>
     net_step w (sk_clone newsk xfrm_fails sk w)"
| free: "sk \<in> dom (net_socks w) \<Longrightarrow> net_step w (map_kresult fst (sk_free sk w))"
| rcu: "net_step w (sk_filter_rcu_release w)"

inductive net_reach :: "net kresult \<Rightarrow> bool" where
  init: "net_reach (Ok \<lparr>net_filters = Map.empty, net_socks = Map.empty, net_rcu = []\<rparr>)"
| step: "net_reach (Ok w) \<Longrightarrow> net_step w r \<Longrightarrow> net_reach r"

text \<open>
  The invariant: a filter's count is the number of sockets that point to it plus its queued
  callbacks, no pointer dangles, what is installed was accepted by the checker, and a socket's
  option memory is its filter's size. Inside an operation the books are off by what the running
  code holds: \<open>d\<close> references to each filter and \<open>e\<close> bytes charged to each socket.
\<close>

definition filter_users :: "net \<Rightarrow> filter_addr \<Rightarrow> sock_id set" where
  "filter_users w fp = {sk. \<exists>s. net_socks w sk = Some s \<and> sk_filter_ptr s = Some fp}"

definition filter_refs :: "net \<Rightarrow> filter_addr \<Rightarrow> int" where
  "filter_refs w fp = int (card (filter_users w fp)) + int (count_list (net_rcu w) fp)"

definition charge :: "net \<Rightarrow> filter_addr option \<Rightarrow> int" where
  "charge w p =
     (case p of None \<Rightarrow> 0
      | Some fp \<Rightarrow> (case net_filters w fp of Some f \<Rightarrow> sk_filter_len f | None \<Rightarrow> 0))"

definition filter_ok :: "(filter_addr \<Rightarrow> int) \<Rightarrow> net \<Rightarrow> filter_addr \<Rightarrow> bool" where
  "filter_ok d w fp \<longleftrightarrow>
     (case net_filters w fp of
         None \<Rightarrow> filter_refs w fp = 0 \<and> d fp = 0
       | Some f \<Rightarrow> skf_refcnt f = filter_refs w fp + d fp \<and> 0 < skf_refcnt f \<and> sk_chk_filter (skf_insns f) = Inr ())"

definition net_bal :: "(filter_addr \<Rightarrow> int) \<Rightarrow> (sock_id \<Rightarrow> int) \<Rightarrow> net \<Rightarrow> bool" where
  "net_bal d e w \<longleftrightarrow> finite (dom (net_socks w)) \<and> (\<forall>fp. filter_ok d w fp) \<and>
     (\<forall>sk s. net_socks w sk = Some s \<longrightarrow> sk_omem_alloc s = charge w (sk_filter_ptr s) + e sk)"

abbreviation net_inv :: "net \<Rightarrow> bool" where
  "net_inv \<equiv> net_bal (\<lambda>_. 0) (\<lambda>_. 0)"

text \<open>A network with one socket that filters for IP packets.\<close>

definition ip_net :: net where
  "ip_net = \<lparr>net_filters = [7 \<mapsto> \<lparr>skf_refcnt = 1, skf_insns = ip_filter\<rparr>],
     net_socks = [0 \<mapsto> \<lparr>sk_omem_alloc = 48, sk_filter_ptr = Some 7\<rparr>], net_rcu = []\<rparr>"

section \<open>Lemmas\<close>

lemma finite_filter_users [simp, intro]: "finite (dom (net_socks w)) \<Longrightarrow> finite (filter_users w fp)"
  by (rule finite_subset[of _ "dom (net_socks w)"]) (auto simp: filter_users_def)

lemma filter_users_alt: "filter_users w fp = {sk. map_option sk_filter_ptr (net_socks w sk) = Some (Some fp)}"
  by (auto simp: filter_users_def)

lemma filter_users_cong:
  "(\<And>sk. map_option sk_filter_ptr (net_socks w' sk) = map_option sk_filter_ptr (net_socks w sk)) \<Longrightarrow>
   filter_users w' fp = filter_users w fp"
  by (simp add: filter_users_alt)

lemma omem_add_simps [simp]:
  "net_filters (omem_add sk n w) = net_filters w" "net_rcu (omem_add sk n w) = net_rcu w"
  "dom (net_socks (omem_add sk n w)) = dom (net_socks w)"
  "map_option sk_filter_ptr (net_socks (omem_add sk n w) k) = map_option sk_filter_ptr (net_socks w k)"
  by (auto simp: omem_add_def option.map_comp o_def)

lemma set_filter_simps [simp]:
  "net_filters (set_filter sk p w) = net_filters w" "net_rcu (set_filter sk p w) = net_rcu w"
  "dom (net_socks (set_filter sk p w)) = dom (net_socks w)"
  by (auto simp: set_filter_def)

lemma filter_users_omem_add [simp]: "filter_users (omem_add sk n w) = filter_users w"
  by (intro ext filter_users_cong) simp

lemma charge_omem_add [simp]: "charge (omem_add sk n w) = charge w"
  by (simp add: charge_def fun_eq_iff cong: option.case_cong)

lemma charge_set_filter [simp]: "charge (set_filter sk p w) = charge w"
  by (simp add: charge_def fun_eq_iff cong: option.case_cong)

lemma charge_update_rcu [simp]: "charge (w\<lparr>net_rcu := q\<rparr>) = charge w"
  by (simp add: charge_def fun_eq_iff cong: option.case_cong)

lemma filter_users_update [simp]:
  "filter_users (w\<lparr>net_rcu := q\<rparr>) = filter_users w" "filter_users (w\<lparr>net_filters := m\<rparr>) = filter_users w"
  by (simp_all add: filter_users_def fun_eq_iff)

lemma filter_refs_simps [simp]:
  "filter_refs (w\<lparr>net_filters := m\<rparr>) = filter_refs w" "filter_refs (omem_add sk n w) = filter_refs w"
  by (simp_all add: filter_refs_def fun_eq_iff)

lemma filter_refs_nonneg: "0 \<le> filter_refs w fp"
  by (simp add: filter_refs_def)

lemma filter_refs_eq_0D:
  assumes "finite (dom (net_socks w))" "filter_refs w fp = 0" "net_socks w sk = Some s"
  shows "sk_filter_ptr s \<noteq> Some fp"
proof -
  have "card (filter_users w fp) = 0" using assms(2) unfolding filter_refs_def by linarith
  then have "filter_users w fp = {}" using assms(1) by simp
  then show ?thesis using assms(3) by (auto simp: filter_users_def)
qed

lemma net_balI:
  assumes "finite (dom (net_socks w))" and "\<And>fp. filter_ok d w fp"
    and "\<And>sk s. net_socks w sk = Some s \<Longrightarrow> sk_omem_alloc s = charge w (sk_filter_ptr s) + e sk"
  shows "net_bal d e w"
  using assms by (simp add: net_bal_def)

lemma net_balD:
  assumes "net_bal d e w"
  shows "finite (dom (net_socks w))" "filter_ok d w fp"
    "net_socks w sk = Some s \<Longrightarrow> sk_omem_alloc s = charge w (sk_filter_ptr s) + e sk"
  using assms by (simp_all add: net_bal_def)

lemma omem_add_bal: 
  assumes "net_bal d e w"
  shows "net_bal d (e(sk := e sk + n)) (omem_add sk n w)"
proof (rule net_balI)
  fix fp show "filter_ok d (omem_add sk n w) fp" using net_balD(2)[OF assms, of fp] by (simp add: filter_ok_def split: option.splits)
next
  fix k s assume "net_socks (omem_add sk n w) k = Some s"
  then show "sk_omem_alloc s = charge (omem_add sk n w) (sk_filter_ptr s) + (e(sk := e sk + n)) k"
    using net_balD(3)[OF assms, of k] unfolding charge_omem_add by (auto simp: omem_add_def split: if_splits)
qed (use net_balD(1)[OF assms] in simp)

lemma filter_users_set_filter:
  assumes "net_socks w sk = Some s"
  shows "filter_users (set_filter sk p w) fp =
    (if p = Some fp then insert sk (filter_users w fp) else filter_users w fp - {sk})"
proof (rule set_eqI)
  fix k show "k \<in> filter_users (set_filter sk p w) fp \<longleftrightarrow>
      k \<in> (if p = Some fp then insert sk (filter_users w fp) else filter_users w fp - {sk})"
    using assms by (cases "k = sk") (simp_all add: filter_users_alt set_filter_def)
qed

lemma card_filter_users_set_filter:
  assumes "net_socks w sk = Some s" and "finite (dom (net_socks w))"
  shows "int (card (filter_users (set_filter sk p w) fp)) =
    int (card (filter_users w fp)) + of_bool (p = Some fp) - of_bool (sk_filter_ptr s = Some fp)"
proof -
  have mem: "sk \<in> filter_users w fp \<longleftrightarrow> sk_filter_ptr s = Some fp" using assms(1) by (auto simp: filter_users_def)
  have "card (filter_users w fp) > 0" if "sk \<in> filter_users w fp"
    using that assms(2) by (auto simp: card_gt_0_iff)
  then show ?thesis
    using mem assms(2) by (auto simp: filter_users_set_filter[OF assms(1)] card_insert_if insert_absorb)
qed

lemma set_filter_bal:
  assumes "net_bal d e w" and sk: "net_socks w sk = Some s" and p: "\<And>fp. p = Some fp \<Longrightarrow> fp \<in> dom (net_filters w)"
  shows "net_bal (\<lambda>fp. d fp + of_bool (sk_filter_ptr s = Some fp) - of_bool (p = Some fp))
     (e(sk := e sk + charge w (sk_filter_ptr s) - charge w p)) (set_filter sk p w)"
proof (rule net_balI)
  note bal = net_balD[OF assms(1)]
  have refs: "filter_refs (set_filter sk p w) fp =
      filter_refs w fp + of_bool (p = Some fp) - of_bool (sk_filter_ptr s = Some fp)" for fp
    using card_filter_users_set_filter[OF sk bal(1)] by (simp add: filter_refs_def)
  fix fp
  have "sk_filter_ptr s \<noteq> Some fp \<and> p \<noteq> Some fp" if "net_filters w fp = None"
    using that bal(2)[of fp] filter_refs_eq_0D[OF bal(1) _ sk] p by (auto simp: filter_ok_def)
  then show "filter_ok (\<lambda>fp. d fp + of_bool (sk_filter_ptr s = Some fp) - of_bool (p = Some fp)) (set_filter sk p w) fp"
    using bal(2)[of fp] refs[of fp] by (cases "net_filters w fp") (auto simp: filter_ok_def)
next
  fix k t assume "net_socks (set_filter sk p w) k = Some t"
  then show "sk_omem_alloc t = charge (set_filter sk p w) (sk_filter_ptr t) +
      (e(sk := e sk + charge w (sk_filter_ptr s) - charge w p)) k"
    using net_balD(3)[OF assms(1), of k] sk unfolding charge_set_filter
    by (auto simp: set_filter_def split: if_splits)
qed (use net_balD(1)[OF assms(1)] in simp)

lemma enqueue_bal:
  assumes "net_bal d e w" and "fp \<in> dom (net_filters w)"
  shows "net_bal (d(fp := d fp - 1)) e (w\<lparr>net_rcu := net_rcu w @ [fp]\<rparr>)"
proof (rule net_balI)
  fix g show "filter_ok (d(fp := d fp - 1)) (w\<lparr>net_rcu := net_rcu w @ [fp]\<rparr>) g"
    using net_balD(2)[OF assms(1), of g] assms(2) 
    by (cases "net_filters w g") (auto simp: filter_ok_def filter_refs_def)
qed (use net_balD(1,3)[OF assms(1)] in simp_all)

lemma dequeue_bal:
  assumes "net_bal d e w" and "net_rcu w = fp # q" and "d fp = 0"
  shows "net_bal (d(fp := 1)) e (w\<lparr>net_rcu := q\<rparr>)"
proof (rule net_balI)
  fix g show "filter_ok (d(fp := 1)) (w\<lparr>net_rcu := q\<rparr>) g"
    using net_balD(2)[OF assms(1), of g] assms(2,3)
    by (cases "net_filters w g") (auto simp: filter_ok_def filter_refs_def)
qed (use net_balD(1,3)[OF assms(1)] in simp_all)

text \<open>Dropping a reference the running code holds: the filter is there, and freed only with its last user.\<close>

lemma sk_filter_release_bal:
  assumes bal: "net_bal d e w" and d: "0 < d fp"
  shows "\<exists>w'. sk_filter_release fp w = Ok w' \<and> net_bal (d(fp := d fp - 1)) e w' \<and> net_socks w' = net_socks w"
proof -
  note b = net_balD[OF bal]
  obtain f where f: "net_filters w fp = Some f" and r: "skf_refcnt f = filter_refs w fp + d fp"
    and c: "sk_chk_filter (skf_insns f) = Inr ()"
    using b(2)[of fp] d by (auto simp: filter_ok_def split: option.splits)
  define m where "m = (if skf_refcnt f - 1 = 0 then (net_filters w)(fp := None)
      else (net_filters w)(fp \<mapsto> f\<lparr>skf_refcnt := skf_refcnt f - 1\<rparr>))"
  have z: "filter_refs w fp = 0 \<and> d fp = 1" if "skf_refcnt f = 1" using that r d filter_refs_nonneg[of w fp] by linarith
  have "net_bal (d(fp := d fp - 1)) e (w\<lparr>net_filters := m\<rparr>)"
  proof (rule net_balI)
    fix g show "filter_ok (d(fp := d fp - 1)) (w\<lparr>net_filters := m\<rparr>) g"
    proof (cases "g = fp")
      case True
      have "m fp = None \<and> filter_refs w fp = 0 \<and> d fp = 1 \<or>
          (\<exists>f'. m fp = Some f' \<and> skf_refcnt f' = skf_refcnt f - 1 \<and> 0 < skf_refcnt f' \<and> skf_insns f' = skf_insns f)"
        using z r d filter_refs_nonneg[of w fp] by (cases "skf_refcnt f = 1") (auto simp: m_def)
      then show ?thesis using True r c by (auto simp: filter_ok_def)
    next
      case False
      then show ?thesis using b(2)[of g] by (simp add: filter_ok_def m_def split: option.splits)
    qed
  next
    fix sk s assume "net_socks (w\<lparr>net_filters := m\<rparr>) sk = Some s"
    then show "sk_omem_alloc s = charge (w\<lparr>net_filters := m\<rparr>) (sk_filter_ptr s) + e sk"
      using b(3)[of sk s] filter_refs_eq_0D[OF b(1) conjunct1[OF z], of sk s] f
      unfolding charge_def m_def sk_filter_len_def by (cases "skf_refcnt f = 1"; cases "sk_filter_ptr s") simp_all
  qed (use b(1) in simp)
  moreover have "sk_filter_release fp w = Ok (w\<lparr>net_filters := m\<rparr>)"
    using f by (simp add: sk_filter_release_def filter_of_def m_def)
  ultimately show ?thesis by simp
qed

lemma new_filter_bal:
  assumes "net_bal d e w" and a: "net_filters w a = None" and chk: "sk_chk_filter insns = Inr ()"
  shows "net_bal (d(a := 1)) e (w\<lparr>net_filters := (net_filters w)(a \<mapsto> \<lparr>skf_refcnt = 1, skf_insns = insns\<rparr>)\<rparr>)"
proof (rule net_balI)
  note b = net_balD[OF assms(1)]
  have z: "filter_refs w a = 0" using b(2)[of a] a by (simp add: filter_ok_def)
  fix g show "filter_ok (d(a := 1)) (w\<lparr>net_filters := (net_filters w)(a \<mapsto> \<lparr>skf_refcnt = 1, skf_insns = insns\<rparr>)\<rparr>) g"
    using b(2)[of g] z chk by (cases "net_filters w g") (auto simp: filter_ok_def)
  fix sk s assume "net_socks (w\<lparr>net_filters := (net_filters w)(a \<mapsto> \<lparr>skf_refcnt = 1, skf_insns = insns\<rparr>)\<rparr>) sk = Some s"
  then show "sk_omem_alloc s = charge (w\<lparr>net_filters := (net_filters w)(a \<mapsto> \<lparr>skf_refcnt = 1, skf_insns = insns\<rparr>)\<rparr>) (sk_filter_ptr s) + e sk"
    using b(3)[of sk s] filter_refs_eq_0D[OF b(1) z, of sk s] by (cases "sk_filter_ptr s") (auto simp: charge_def)
qed (use net_balD(1)[OF assms(1)] in simp)


text \<open>The operations, in terms of the books they keep.\<close>

lemma bal_cong: "net_bal d e w \<Longrightarrow> d = d' \<Longrightarrow> e = e' \<Longrightarrow> net_bal d' e' w"
  by simp

lemma filter_ok_domI: "net_bal d e w \<Longrightarrow> net_socks w sk = Some s \<Longrightarrow> sk_filter_ptr s = Some fp \<Longrightarrow> \<exists>f. net_filters w fp = Some f"
  using net_balD(2)[of d e w fp] filter_refs_eq_0D[OF net_balD(1), of d e w fp sk s]
  by (auto simp: filter_ok_def split: option.splits)

lemma delayed_uncharge_bal:
  assumes "net_bal d e w" and "net_filters w fp = Some f"
  shows "\<exists>w'. sk_filter_delayed_uncharge sk fp w = Ok w' \<and>
     net_bal (d(fp := d fp - 1)) (e(sk := e sk - sk_filter_len f)) w'"
  using enqueue_bal[OF omem_add_bal[OF assms(1)], of fp sk "- sk_filter_len f"] assms(2)
  by (simp add: sk_filter_delayed_uncharge_def filter_of_def domIff)

lemma uncharge_bal:
  assumes "net_bal d e w" and "net_filters w fp = Some f" and "0 < d fp"
  shows "\<exists>w'. sk_filter_uncharge sk fp w = Ok w' \<and>
     net_bal (d(fp := d fp - 1)) (e(sk := e sk - sk_filter_len f)) w' \<and>
     net_socks w' = net_socks (omem_add sk (- sk_filter_len f) w)"
  using sk_filter_release_bal[OF omem_add_bal[OF assms(1)], of fp sk "- sk_filter_len f"] assms(2,3)
  by (simp add: sk_filter_uncharge_def filter_of_def)

lemma sk_detach_filter_inv:
  assumes "net_inv w"
  shows "\<exists>w' r. sk_detach_filter sk w = Ok (w', r) \<and> net_inv w'"
proof (cases "Option.bind (net_socks w sk) sk_filter_ptr")
  case None
  then show ?thesis using assms by (simp add: sk_detach_filter_def)
next
  case (Some fp)
  then obtain s where s: "net_socks w sk = Some s" "sk_filter_ptr s = Some fp" by (auto simp: bind_eq_Some_conv)
  then obtain f where f: "net_filters w fp = Some f" using filter_ok_domI[OF assms] by blast
  have "net_bal (\<lambda>g. of_bool (g = fp)) ((\<lambda>_. 0)(sk := sk_filter_len f)) (set_filter sk None w)"
    using s f by (intro bal_cong[OF set_filter_bal[OF assms s(1), of None]]) (auto simp: charge_def)
  from delayed_uncharge_bal[OF this, of fp f sk] f obtain w' where
    w': "sk_filter_delayed_uncharge sk fp (set_filter sk None w) = Ok w'" and
    "net_bal ((\<lambda>g. of_bool (g = fp))(fp := 0)) ((\<lambda>_. 0)(sk := 0)) w'" by auto
  then have "net_inv w'" by (elim bal_cong) auto
  then show ?thesis using Some w' by (simp add: sk_detach_filter_def)
qed

lemma sk_filter_rcu_release_inv:
  assumes "net_inv w"
  shows "\<exists>w'. sk_filter_rcu_release w = Ok w' \<and> net_inv w'"
proof (cases "net_rcu w")
  case (Cons fp q)
  from sk_filter_release_bal[OF dequeue_bal[OF assms Cons], of fp] obtain w' where
    w': "sk_filter_release fp (w\<lparr>net_rcu := q\<rparr>) = Ok w'" and "net_bal ((\<lambda>_. 0)(fp := 0)) (\<lambda>_. 0) w'" by auto
  then have "net_inv w'" by (elim bal_cong) auto
  then show ?thesis using Cons w' by (simp add: sk_filter_rcu_release_def)
qed (use assms in \<open>simp add: sk_filter_rcu_release_def\<close>)

lemma remove_sock_bal:
  assumes "net_bal d e w" and "\<And>s. net_socks w sk = Some s \<Longrightarrow> sk_filter_ptr s = None"
  shows "net_bal d (e(sk := 0)) (w\<lparr>net_socks := (net_socks w)(sk := None)\<rparr>)"
proof (rule net_balI)
  have "filter_users (w\<lparr>net_socks := (net_socks w)(sk := None)\<rparr>) = filter_users w"
    using assms(2) by (auto simp: filter_users_def fun_eq_iff)
  then show "filter_ok d (w\<lparr>net_socks := (net_socks w)(sk := None)\<rparr>) fp" for fp
    using net_balD(2)[OF assms(1), of fp] by (simp add: filter_ok_def filter_refs_def split: option.splits)
qed (use net_balD(1,3)[OF assms(1)] in \<open>auto simp: charge_def cong: option.case_cong split: if_splits\<close>)


text \<open>\<^verbatim>\<open>sk_free\<close> drops its reference before it clears the pointer; the other order gives the same result.\<close>

lemma uncharge_set_filter:
  "sk_filter_uncharge sk fp (set_filter sk p w) = map_kresult (set_filter sk p) (sk_filter_uncharge sk fp w)"
proof -
  have "omem_add sk n (set_filter sk p w) = set_filter sk p (omem_add sk n w)" for n
    by (cases "net_socks w sk"; cases "the (net_socks w sk)") (simp_all add: omem_add_def set_filter_def)
  moreover have "sk_filter_release fp (set_filter sk p w) = map_kresult (set_filter sk p) (sk_filter_release fp w)" for w
    by (simp add: sk_filter_release_def filter_of_def set_filter_def split: option.splits)
  ultimately show ?thesis
    by (simp add: sk_filter_uncharge_def filter_of_def split: option.splits)
qed

lemma sk_free_inv:
  assumes "net_inv w" and s: "net_socks w sk = Some s"
  shows "\<exists>w'. sk_free sk w = Ok (w', False) \<and> net_inv w'"
proof -
  have "\<exists>w'. (case Option.bind (net_socks w sk) sk_filter_ptr of None \<Rightarrow> Ok w
       | Some fp \<Rightarrow> (case sk_filter_uncharge sk fp w of
            Ok w \<Rightarrow> Ok (set_filter sk None w) | Err e \<Rightarrow> Err e | Bug \<Rightarrow> Bug)) = Ok w' \<and> net_inv w' \<and>
     (\<forall>s. net_socks w' sk = Some s \<longrightarrow> sk_filter_ptr s = None)"
  proof (cases "sk_filter_ptr s")
    case None
    then show ?thesis using assms by simp
  next
    case (Some fp)
    then obtain f where f: "net_filters w fp = Some f" using filter_ok_domI[OF assms] by blast
    have "net_bal (\<lambda>g. of_bool (g = fp)) ((\<lambda>_. 0)(sk := sk_filter_len f)) (set_filter sk None w)"
      using Some f by (intro bal_cong[OF set_filter_bal[OF assms(1) s, of None]]) (auto simp: charge_def)
    from uncharge_bal[OF this, of fp f sk] f obtain w' where
      w': "sk_filter_uncharge sk fp (set_filter sk None w) = Ok w'" and
      "net_bal ((\<lambda>g. of_bool (g = fp))(fp := 0)) ((\<lambda>_. 0)(sk := 0)) w'" and
      socks: "net_socks w' = net_socks (omem_add sk (- sk_filter_len f) (set_filter sk None w))"
      by auto
    then have "net_inv w'" by (elim bal_cong) auto
    moreover have "sk_filter_ptr t = None" if "net_socks w' sk = Some t" for t
      using that socks by (auto simp: omem_add_def set_filter_def)
    moreover obtain v where "sk_filter_uncharge sk fp w = Ok v" "w' = set_filter sk None v"
      using w' unfolding uncharge_set_filter by (cases "sk_filter_uncharge sk fp w") auto
    ultimately show ?thesis using Some s by auto
  qed
  then obtain w' where w': "(case Option.bind (net_socks w sk) sk_filter_ptr of None \<Rightarrow> Ok w
       | Some fp \<Rightarrow> (case sk_filter_uncharge sk fp w of
            Ok w \<Rightarrow> Ok (set_filter sk None w) | Err e \<Rightarrow> Err e | Bug \<Rightarrow> Bug)) = Ok w'" "net_inv w'"
    and p: "\<And>s. net_socks w' sk = Some s \<Longrightarrow> sk_filter_ptr s = None" by blast
  have "net_inv (w'\<lparr>net_socks := (net_socks w')(sk := None)\<rparr>)"
    by (rule bal_cong[OF remove_sock_bal[OF w'(2) p]]) auto
  moreover have "sk_omem_alloc t = 0" if "net_socks w' sk = Some t" for t
    using net_balD(3)[OF w'(2) that] p[OF that] by (simp add: charge_def)
  ultimately show ?thesis using w'(1) unfolding sk_free_def Let_def by (auto split: option.splits)
qed

lemma add_sock_bal:
  assumes "net_bal d e w" and n: "net_socks w n = None" and p: "\<And>fp. sk_filter_ptr t = Some fp \<Longrightarrow> fp \<in> dom (net_filters w)"
  shows "net_bal (\<lambda>fp. d fp - of_bool (sk_filter_ptr t = Some fp)) (e(n := sk_omem_alloc t - charge w (sk_filter_ptr t)))
    (w\<lparr>net_socks := (net_socks w)(n \<mapsto> t)\<rparr>)"
proof (rule net_balI)
  note b = net_balD[OF assms(1)]
  fix fp
  have "filter_users (w\<lparr>net_socks := (net_socks w)(n \<mapsto> t)\<rparr>) fp =
      (if sk_filter_ptr t = Some fp then insert n (filter_users w fp) else filter_users w fp)"
    and "n \<notin> filter_users w fp"
    using n by (auto simp: filter_users_def)
  then have "filter_refs (w\<lparr>net_socks := (net_socks w)(n \<mapsto> t)\<rparr>) fp = filter_refs w fp + of_bool (sk_filter_ptr t = Some fp)"
    using b(1) by (simp add: filter_refs_def)
  then show "filter_ok (\<lambda>fp. d fp - of_bool (sk_filter_ptr t = Some fp)) (w\<lparr>net_socks := (net_socks w)(n \<mapsto> t)\<rparr>) fp"
    using b(2)[of fp] p[of fp] by (auto simp: filter_ok_def split: option.splits)
qed (use net_balD(1,3)[OF assms(1)] in \<open>auto simp: charge_def cong: option.case_cong split: if_splits\<close>)

lemma sk_filter_charge_bal:
  assumes "net_bal d e w" and f: "net_filters w fp = Some f"
  shows "\<exists>w'. sk_filter_charge sk fp w = Ok w' \<and> net_bal (d(fp := d fp + 1)) (e(sk := e sk + sk_filter_len f)) w' \<and>
    dom (net_socks w') = dom (net_socks w)"
proof -
  let ?w = "w\<lparr>net_filters := (net_filters w)(fp \<mapsto> f\<lparr>skf_refcnt := skf_refcnt f + 1\<rparr>)\<rparr>"
  note b = net_balD[OF assms(1)]
  have c: "charge ?w p = charge w p" for p
    using f by (cases p) (auto simp: charge_def sk_filter_len_def)
  have "filter_ok (d(fp := d fp + 1)) ?w g" for g
    using b(2)[of g] f by (cases "g = fp") (auto simp: filter_ok_def split: option.splits)
  then have "net_bal (d(fp := d fp + 1)) e ?w" using b(1,3) c by (intro net_balI) simp_all
  from omem_add_bal[OF this] f show ?thesis by (simp add: sk_filter_charge_def filter_of_def)
qed

lemma sk_clone_inv:
  assumes inv: "net_inv w" and n: "\<And>n. newsk = Some n \<Longrightarrow> net_socks w n = None"
  shows "\<exists>w'. sk_clone newsk xfrm_fails sk w = Ok w' \<and> net_inv w'"
proof (cases "(newsk, net_socks w sk)")
  case (Pair a b)
  show ?thesis
  proof (cases "\<exists>m s. a = Some m \<and> b = Some s")
    case False
    then show ?thesis using Pair inv by (cases a; cases b) (auto simp: sk_clone_def)
  next
    case True
    then obtain m s where ms: "newsk = Some m" "net_socks w sk = Some s" using Pair by auto
    let ?t = "s\<lparr>sk_omem_alloc := 0\<rparr>"
    let ?w = "w\<lparr>net_socks := (net_socks w)(m \<mapsto> ?t)\<rparr>"
    let ?r = "(case sk_filter_ptr s of None \<Rightarrow> Ok ?w | Some fp \<Rightarrow> sk_filter_charge m fp ?w)"
    have bal: "net_bal (\<lambda>fp. 0 - of_bool (sk_filter_ptr ?t = Some fp)) ((\<lambda>_. 0)(m := 0 - charge w (sk_filter_ptr ?t))) ?w"
      using add_sock_bal[OF inv n[OF ms(1)], of ?t] filter_ok_domI[OF inv ms(2)] by auto
    have "\<exists>w'. ?r = Ok w' \<and> net_inv w' \<and> m \<in> dom (net_socks w')"
    proof (cases "sk_filter_ptr s")
      case None
      then show ?thesis using bal_cong[OF bal, of "\<lambda>_. 0" "\<lambda>_. 0"] by (auto simp: charge_def)
    next
      case (Some fp)
      then obtain f where f: "net_filters w fp = Some f" using filter_ok_domI[OF inv ms(2)] by blast
      with sk_filter_charge_bal[OF bal, of fp f m] obtain w' where "sk_filter_charge m fp ?w = Ok w'"
        and w': "net_bal ((\<lambda>g. 0 - of_bool (sk_filter_ptr ?t = Some g))(fp := 0)) ((\<lambda>_. 0)(m := 0)) w'"
        and "m \<in> dom (net_socks w')"
        using Some by (auto simp: charge_def)
      moreover have "net_inv w'" using Some by (intro bal_cong[OF w']) auto
      ultimately show ?thesis using Some by simp
    qed
    then obtain w' t where "?r = Ok w'" "net_inv w'" "net_socks w' m = Some t" by blast
    moreover obtain w'' where "sk_free m w' = Ok (w'', False)" "net_inv w''"
      using sk_free_inv calculation(2,3) by blast
    ultimately show ?thesis using ms unfolding sk_clone_def Let_def by (cases xfrm_fails) simp_all
  qed
qed


lemma omem_add_inverse [simp]:
  "omem_add sk m (omem_add sk n w) = omem_add sk (n + m) w" "omem_add sk 0 w = w"
proof -
  show "omem_add sk m (omem_add sk n w) = omem_add sk (n + m) w"
    by (cases "net_socks w sk") (simp_all add: omem_add_def add.assoc)
  show "omem_add sk 0 w = w"
    by (cases "net_socks w sk") (simp_all add: omem_add_def fun_upd_idem)
qed

lemma omem_add_filters [simp]:
  "omem_add sk n (w\<lparr>net_filters := m\<rparr>) = (omem_add sk n w)\<lparr>net_filters := m\<rparr>"
  by (simp add: omem_add_def)

text \<open>A failed attach undoes all it did.\<close>

lemma sk_attach_filter_failed:
  assumes "sk_attach_filter optmem_max mem is_null len copied sk w = Ok (w', Some e)"
    and "\<And>a. mem = Some a \<Longrightarrow> net_filters w a = None"
    and "\<And>insns. copied = Some insns \<Longrightarrow> length insns = len"
  shows "w' = w"
  using assms unfolding sk_attach_filter_def sock_kmalloc_def Let_def
  by (auto simp: sk_filter_uncharge_def sk_filter_release_def sk_filter_len_def filter_of_def sock_kfree_s_def
      fun_upd_idem split: if_splits option.splits sum.splits kresult.splits)

lemma sk_attach_filter_inv:
  assumes inv: "net_inv w" and s: "net_socks w sk = Some s" and mem: "\<And>a. mem = Some a \<Longrightarrow> net_filters w a = None"
    and len: "\<And>insns. copied = Some insns \<Longrightarrow> length insns = len"
  shows "\<exists>w' r. sk_attach_filter optmem_max mem is_null len copied sk w = Ok (w', r) \<and> net_inv w'"
proof (cases "\<exists>w' e. sk_attach_filter optmem_max mem is_null len copied sk w = Ok (w', Some e)")
  case True
  then show ?thesis using sk_attach_filter_failed[OF _ mem len] inv by blast
next
  case False
  then obtain fp insns where fp: "mem = Some fp" and copied: "copied = Some insns" and chk: "sk_chk_filter insns = Inr ()"
    and run: "sk_attach_filter optmem_max mem is_null len copied sk w =
     (let w2 = (omem_add sk (int len * 8 + 16) w)\<lparr>net_filters := (net_filters w)(fp \<mapsto> \<lparr>skf_refcnt = 1, skf_insns = insns\<rparr>)\<rparr>;
          w3 = set_filter sk (Some fp) w2 in
      case sk_filter_ptr s of None \<Rightarrow> Ok (w3, None)
      | Some old \<Rightarrow> (case sk_filter_delayed_uncharge sk old w3 of Ok w \<Rightarrow> Ok (w, None) | Err e' \<Rightarrow> Err e' | Bug \<Rightarrow> Bug))"
    using s unfolding sk_attach_filter_def sock_kmalloc_def Let_def
    by (auto simp: omem_add_def sk_filter_uncharge_def sk_filter_release_def filter_of_def
        split: if_splits option.splits sum.splits)
  let ?n = "int len * 8 + 16"
  define w2 where "w2 = (omem_add sk ?n w)\<lparr>net_filters := (net_filters w)(fp \<mapsto> \<lparr>skf_refcnt = 1, skf_insns = insns\<rparr>)\<rparr>"
  have w2: "net_bal ((\<lambda>_. 0)(fp := 1)) ((\<lambda>_. 0)(sk := ?n)) w2"
    using new_filter_bal[OF omem_add_bal[OF inv, of sk ?n], of fp insns] mem[OF fp] chk by (simp add: w2_def)
  let ?s = "s\<lparr>sk_omem_alloc := sk_omem_alloc s + ?n\<rparr>"
  have s2: "net_socks w2 sk = Some ?s" using s by (simp add: w2_def omem_add_def)
  have new: "charge w2 (Some fp) = ?n" "fp \<in> dom (net_filters w2)"
    using len[OF copied] by (simp_all add: charge_def w2_def sk_filter_len_def)
  have "sk_filter_ptr s \<noteq> Some fp" using filter_ok_domI[OF inv s, of fp] mem[OF fp] by auto
  moreover have w3: "net_bal (\<lambda>g. ((\<lambda>_. 0)(fp := 1)) g + of_bool (sk_filter_ptr ?s = Some g) - of_bool (Some fp = Some g))
    (((\<lambda>_. 0)(sk := ?n))(sk := ?n + charge w2 (sk_filter_ptr ?s) - ?n)) (set_filter sk (Some fp) w2)"
    using set_filter_bal[OF w2 s2, of "Some fp"] new by simp
  show ?thesis
  proof (cases "sk_filter_ptr s")
    case None
    have "net_inv (set_filter sk (Some fp) w2)"
      using None by (intro bal_cong[OF w3]) (auto simp: charge_def)
    then show ?thesis using run None by (simp add: w2_def Let_def)
  next
    case (Some old)
    then obtain f where f: "net_filters w old = Some f" "old \<noteq> fp"
      using filter_ok_domI[OF inv s] mem[OF fp] by fastforce
    then have "net_bal (\<lambda>g. of_bool (g = old)) ((\<lambda>_. 0)(sk := sk_filter_len f)) (set_filter sk (Some fp) w2)"
      using Some by (intro bal_cong[OF w3]) (auto simp: charge_def w2_def)
    from delayed_uncharge_bal[OF this, of old f sk] f obtain w' where
      w': "sk_filter_delayed_uncharge sk old (set_filter sk (Some fp) w2) = Ok w'" and
      "net_bal ((\<lambda>g. of_bool (g = old))(old := 0)) ((\<lambda>_. 0)(sk := 0)) w'" by (auto simp: w2_def)
    then have "net_inv w'" by (elim bal_cong) auto
    then show ?thesis using run Some w' by (simp add: w2_def Let_def)
  qed
qed

lemma net_step_inv:
  assumes "net_step w r" and "net_inv w"
  shows "\<exists>w'. r = Ok w' \<and> net_inv w'"
  using assms(1)
proof cases
  case (create sk)
  let ?t = "\<lparr>sk_omem_alloc = 0, sk_filter_ptr = None\<rparr>"
  show ?thesis using create bal_cong[OF add_sock_bal[OF assms(2) create(2), of ?t], of "\<lambda>_. 0" "\<lambda>_. 0"]
    by (auto simp: charge_def)
next
  case (attach sk mem copied len optmem_max is_null)
  then obtain s where "net_socks w sk = Some s" by blast
  then show ?thesis using sk_attach_filter_inv[OF assms(2), of sk s mem copied len optmem_max is_null] attach by auto
next
  case (detach sk)
  then show ?thesis using sk_detach_filter_inv[OF assms(2), of sk] by auto
next
  case (clone sk newsk xfrm_fails)
  then show ?thesis using sk_clone_inv[OF assms(2), of newsk xfrm_fails sk] by auto
next
  case (free sk)
  then show ?thesis using sk_free_inv[OF assms(2), of sk] by auto
next
  case rcu
  then show ?thesis using sk_filter_rcu_release_inv[OF assms(2)] by auto
qed

lemma net_reach_inv: "net_reach r \<Longrightarrow> \<exists>w. r = Ok w \<and> net_inv w"
proof (induction rule: net_reach.induct)
  case init
  then show ?case by (simp add: net_bal_def filter_ok_def filter_refs_def filter_users_def)
qed (use net_step_inv in blast)


text \<open>A run: create a socket and attach the filter \<open>ip\<close>.\<close>

lemma ip_net_reach: "net_reach (Ok ip_net)"
proof -
  let ?w = "\<lparr>net_filters = Map.empty, net_socks = [0 \<mapsto> \<lparr>sk_omem_alloc = 0, sk_filter_ptr = None\<rparr>], net_rcu = []\<rparr>"
  have 1: "net_reach (Ok ?w)"
    using net_reach.step[OF net_reach.init net_step.create, of 0] by simp
  have "map_kresult fst (sk_attach_filter 10240 (Some 7) False 4 (Some ip_filter) 0 ?w) = Ok ip_net"
    using ip_filter_chk
    by (simp add: sk_attach_filter_def sock_kmalloc_def omem_add_def set_filter_def ip_net_def)
  then show ?thesis
    using net_reach.step[OF 1 net_step.attach, of 0 "Some 7" "Some ip_filter" 4 10240 False]
    by (simp add: ip_filter_def)
qed

section \<open>Properties\<close>





text \<open>
  C12. An attach that fails, for whatever reason, leaves sockets, filters, memory accounting and
  queued callbacks exactly as they were.
\<close>

theorem sk_attach_filter_atomic:
  assumes "sk_attach_filter optmem_max mem is_null len copied sk w = Ok (w', Some e)"
    and "\<And>a. mem = Some a \<Longrightarrow> net_filters w a = None"
    and "\<And>insns. copied = Some insns \<Longrightarrow> length insns = len"
  shows "w' = w"
  by (rule sk_attach_filter_failed[OF assms])

theorem sk_attach_filter_atomic_witness:
  "sk_attach_filter 10240 (Some 8) False 1 (Some [\<lparr>sf_code = BPF_LD, sf_jt = 0, sf_jf = 0, sf_k = 0\<rparr>]) 0 ip_net =
     Ok (ip_net, Some EINVAL)"
proof -
  let ?r = "sk_attach_filter 10240 (Some 8) False 1 (Some [\<lparr>sf_code = BPF_LD, sf_jt = 0, sf_jf = 0, sf_k = 0\<rparr>]) 0 ip_net"
  have "\<exists>w'. ?r = Ok (w', Some EINVAL)"
    by (simp add: sk_attach_filter_def sock_kmalloc_def omem_add_def ip_net_def sk_chk_filter_def chk_insn_def
        chk_plain_codes_def BPF_CLASS_def sk_filter_uncharge_def sk_filter_release_def filter_of_def)
  then obtain w' where "?r = Ok (w', Some EINVAL)" by blast
  moreover from this have "w' = ip_net" by (rule sk_attach_filter_atomic) (simp_all add: ip_net_def)
  ultimately show ?thesis by simp
qed



end
