(* ===== verification/Rwsem.thy ===== *)
theory Rwsem
  imports Transition
begin

text \<open>
  The reader/writer semaphore of \<^verbatim>\<open>lib/rwsem-spinlock.c\<close>. Every operation is one critical section under
  \<^verbatim>\<open>wait_lock\<close>; a blocked task sits in the wait list until another task takes its waiter off the list and
  clears \<^verbatim>\<open>waiter.task\<close>, which is how it is given the lock. The system interleaves the operations of any
  number of tasks.
\<close>

section \<open>Model\<close>

datatype rwsem_flag = RWSEM_WAITING_FOR_READ | RWSEM_WAITING_FOR_WRITE

abbreviation (input) READ :: rwsem_flag where "READ \<equiv> RWSEM_WAITING_FOR_READ"
abbreviation (input) WRITE :: rwsem_flag where "WRITE \<equiv> RWSEM_WAITING_FOR_WRITE"

text \<open>\<^verbatim>\<open>struct rwsem_waiter\<close> is a pair of the task and its flag.\<close>

type_synonym rwsem_waiter = "task \<times> rwsem_flag"

record rw_semaphore =
  activity :: int
  wait_list :: "rwsem_waiter list"

definition init_rwsem :: rw_semaphore where
  "init_rwsem = \<lparr>activity = 0, wait_list = []\<rparr>"

text \<open>The loop of \<^verbatim>\<open>__rwsem_do_wake\<close> that takes readers off the front of the queue.\<close>

fun wake_readers :: "rwsem_waiter list \<Rightarrow> task list \<times> rwsem_waiter list" where
  "wake_readers [] = ([], [])"
| "wake_readers ((tsk, f) # ws) =
     (if f = RWSEM_WAITING_FOR_READ then
        let (woken, rest) = wake_readers ws in (tsk # woken, rest)
      else ([], (tsk, f) # ws))"

text \<open>
  \<^verbatim>\<open>__rwsem_do_wake\<close> and \<^verbatim>\<open>__rwsem_wake_one_writer\<close> return the tasks whose \<^verbatim>\<open>waiter.task\<close> they clear. Both
  are called with a nonempty list; on an empty one the first entry does not exist (\<open>Bug\<close>).
\<close>

definition rwsem_do_wake :: "rw_semaphore \<Rightarrow> bool \<Rightarrow> (rw_semaphore \<times> task list) kresult" where
  "rwsem_do_wake sem wakewrite =
     (case wait_list sem of
        [] \<Rightarrow> Bug
      | (tsk, f) # ws \<Rightarrow>
          if \<not> wakewrite \<and> f = RWSEM_WAITING_FOR_WRITE then Ok (sem, [])
          else if wakewrite \<and> f = RWSEM_WAITING_FOR_WRITE then
            Ok (sem\<lparr>activity := -1, wait_list := ws\<rparr>, [tsk])
          else
            (let (woken, rest) = wake_readers ((tsk, f) # ws)
             in Ok (sem\<lparr>activity := activity sem + int (length woken), wait_list := rest\<rparr>, woken)))"

definition rwsem_wake_one_writer :: "rw_semaphore \<Rightarrow> (rw_semaphore \<times> task list) kresult" where
  "rwsem_wake_one_writer sem =
     (case wait_list sem of
        [] \<Rightarrow> Bug
      | (tsk, f) # ws \<Rightarrow> Ok (sem\<lparr>activity := -1, wait_list := ws\<rparr>, [tsk]))"

text \<open>
  The critical sections of \<^verbatim>\<open>__down_read\<close> and \<^verbatim>\<open>__down_write_nested\<close>: the flag tells whether the lock was
  granted at once; otherwise the task is queued and sleeps until its waiter is cleared.
\<close>

definition down_read :: "task \<Rightarrow> rw_semaphore \<Rightarrow> rw_semaphore \<times> bool" where
  "down_read tsk sem =
     (if activity sem \<ge> 0 \<and> wait_list sem = [] then (sem\<lparr>activity := activity sem + 1\<rparr>, True)
      else (sem\<lparr>wait_list := wait_list sem @ [(tsk, RWSEM_WAITING_FOR_READ)]\<rparr>, False))"

definition down_read_trylock :: "rw_semaphore \<Rightarrow> rw_semaphore \<times> bool" where
  "down_read_trylock sem =
     (if activity sem \<ge> 0 \<and> wait_list sem = [] then (sem\<lparr>activity := activity sem + 1\<rparr>, True)
      else (sem, False))"

definition down_write_nested :: "task \<Rightarrow> rw_semaphore \<Rightarrow> rw_semaphore \<times> bool" where
  "down_write_nested tsk sem =
     (if activity sem = 0 \<and> wait_list sem = [] then (sem\<lparr>activity := -1\<rparr>, True)
      else (sem\<lparr>wait_list := wait_list sem @ [(tsk, RWSEM_WAITING_FOR_WRITE)]\<rparr>, False))"

definition down_write :: "task \<Rightarrow> rw_semaphore \<Rightarrow> rw_semaphore \<times> bool" where
  "down_write tsk sem = down_write_nested tsk sem"

definition down_write_trylock :: "rw_semaphore \<Rightarrow> rw_semaphore \<times> bool" where
  "down_write_trylock sem =
     (if activity sem = 0 \<and> wait_list sem = [] then (sem\<lparr>activity := -1\<rparr>, True) else (sem, False))"

definition up_read :: "rw_semaphore \<Rightarrow> (rw_semaphore \<times> task list) kresult" where
  "up_read sem =
     (let sem = sem\<lparr>activity := activity sem - 1\<rparr> in
      if activity sem = 0 \<and> wait_list sem \<noteq> [] then rwsem_wake_one_writer sem else Ok (sem, []))"

definition up_write :: "rw_semaphore \<Rightarrow> (rw_semaphore \<times> task list) kresult" where
  "up_write sem =
     (let sem = sem\<lparr>activity := 0\<rparr> in
      if wait_list sem \<noteq> [] then rwsem_do_wake sem True else Ok (sem, []))"

definition downgrade_write :: "rw_semaphore \<Rightarrow> (rw_semaphore \<times> task list) kresult" where
  "downgrade_write sem =
     (let sem = sem\<lparr>activity := 1\<rparr> in
      if wait_list sem \<noteq> [] then rwsem_do_wake sem False else Ok (sem, []))"

definition rwsem_is_locked :: "rw_semaphore \<Rightarrow> bool" where
  "rwsem_is_locked sem \<longleftrightarrow> activity sem \<noteq> 0"

text \<open>
  The tasks: outside, asleep in the \<^verbatim>\<open>for (;;)\<close> loop, given the lock but not yet back from the loop
  (\<^verbatim>\<open>waiter.task\<close> is \<^verbatim>\<open>NULL\<close>), holding the lock. Waking moves a sleeper on with whatever lock it asked for.
\<close>

datatype rw_phase = Out | Waiting rwsem_flag | Granted rwsem_flag | Holding rwsem_flag

record rw_system =
  rw_sem :: rw_semaphore
  rw_phase :: "task \<Rightarrow> rw_phase"

fun grant :: "rw_phase \<Rightarrow> rw_phase" where
  "grant (Waiting f) = Granted f"
| "grant p = p"

definition wake_up :: "task list \<Rightarrow> (task \<Rightarrow> rw_phase) \<Rightarrow> task \<Rightarrow> rw_phase" where
  "wake_up woken ph = (\<lambda>t. if t \<in> set woken then grant (ph t) else ph t)"

definition lock_phase :: "rwsem_flag \<Rightarrow> bool \<Rightarrow> rw_phase" where
  "lock_phase f granted = (if granted then Holding f else Waiting f)"

definition try_phase :: "rwsem_flag \<Rightarrow> bool \<Rightarrow> rw_phase" where
  "try_phase f granted = (if granted then Holding f else Out)"

inductive rw_step :: "rw_system \<Rightarrow> rw_system \<Rightarrow> bool" where
  down_read: "ph t = Out \<Longrightarrow> down_read t sem = (sem', g) \<Longrightarrow>
    rw_step \<lparr>rw_sem = sem, rw_phase = ph\<rparr> \<lparr>rw_sem = sem', rw_phase = ph(t := lock_phase RWSEM_WAITING_FOR_READ g)\<rparr>"
| down_read_trylock: "ph t = Out \<Longrightarrow> down_read_trylock sem = (sem', g) \<Longrightarrow>
    rw_step \<lparr>rw_sem = sem, rw_phase = ph\<rparr> \<lparr>rw_sem = sem', rw_phase = ph(t := try_phase RWSEM_WAITING_FOR_READ g)\<rparr>"
| down_write: "ph t = Out \<Longrightarrow> down_write t sem = (sem', g) \<Longrightarrow>
    rw_step \<lparr>rw_sem = sem, rw_phase = ph\<rparr> \<lparr>rw_sem = sem', rw_phase = ph(t := lock_phase RWSEM_WAITING_FOR_WRITE g)\<rparr>"
| down_write_trylock: "ph t = Out \<Longrightarrow> down_write_trylock sem = (sem', g) \<Longrightarrow>
    rw_step \<lparr>rw_sem = sem, rw_phase = ph\<rparr> \<lparr>rw_sem = sem', rw_phase = ph(t := try_phase RWSEM_WAITING_FOR_WRITE g)\<rparr>"
| resume: "ph t = Granted f \<Longrightarrow>
    rw_step \<lparr>rw_sem = sem, rw_phase = ph\<rparr> \<lparr>rw_sem = sem, rw_phase = ph(t := Holding f)\<rparr>"
| up_read: "ph t = Holding RWSEM_WAITING_FOR_READ \<Longrightarrow> up_read sem = Ok (sem', woken) \<Longrightarrow>
    rw_step \<lparr>rw_sem = sem, rw_phase = ph\<rparr> \<lparr>rw_sem = sem', rw_phase = wake_up woken (ph(t := Out))\<rparr>"
| up_write: "ph t = Holding RWSEM_WAITING_FOR_WRITE \<Longrightarrow> up_write sem = Ok (sem', woken) \<Longrightarrow>
    rw_step \<lparr>rw_sem = sem, rw_phase = ph\<rparr> \<lparr>rw_sem = sem', rw_phase = wake_up woken (ph(t := Out))\<rparr>"
| downgrade_write: "ph t = Holding RWSEM_WAITING_FOR_WRITE \<Longrightarrow> downgrade_write sem = Ok (sem', woken) \<Longrightarrow>
    rw_step \<lparr>rw_sem = sem, rw_phase = ph\<rparr>
      \<lparr>rw_sem = sem', rw_phase = wake_up woken (ph(t := Holding RWSEM_WAITING_FOR_READ))\<rparr>"

definition rw_init :: "rw_system \<Rightarrow> bool" where
  "rw_init s \<longleftrightarrow> s = \<lparr>rw_sem = init_rwsem, rw_phase = (\<lambda>_. Out)\<rparr>"

text \<open>Who has the lock, and the invariant.\<close>

definition holders :: "rwsem_flag \<Rightarrow> (task \<Rightarrow> rw_phase) \<Rightarrow> task set" where
  "holders f ph = {t. ph t = Granted f \<or> ph t = Holding f}"

abbreviation readers :: "(task \<Rightarrow> rw_phase) \<Rightarrow> task set" where
  "readers \<equiv> holders RWSEM_WAITING_FOR_READ"

abbreviation writers :: "(task \<Rightarrow> rw_phase) \<Rightarrow> task set" where
  "writers \<equiv> holders RWSEM_WAITING_FOR_WRITE"

text \<open>
  \<open>count_ok\<close>: \<^verbatim>\<open>activity\<close> is the number of readers, or -1 for one writer and no reader. \<open>queue_ok\<close>: the list holds
  exactly the sleeping tasks, once each. \<open>busy\<close>: tasks wait only while the lock is taken, and a
  reader at the head of the queue waits for a writer.
\<close>

definition count_ok :: "int \<Rightarrow> (task \<Rightarrow> rw_phase) \<Rightarrow> bool" where
  "count_ok a ph \<longleftrightarrow> finite (readers ph) \<and>
     (writers ph = {} \<and> a = int (card (readers ph)) \<or> (\<exists>t. writers ph = {t}) \<and> readers ph = {} \<and> a = -1)"

definition queue_ok :: "rwsem_waiter list \<Rightarrow> (task \<Rightarrow> rw_phase) \<Rightarrow> bool" where
  "queue_ok ws ph \<longleftrightarrow> distinct (map fst ws) \<and> (\<forall>t f. (t, f) \<in> set ws \<longleftrightarrow> ph t = Waiting f)"

definition busy :: "int \<Rightarrow> rwsem_waiter list \<Rightarrow> bool" where
  "busy a ws \<longleftrightarrow>
     (case ws of [] \<Rightarrow> True
      | (t, f) # _ \<Rightarrow> a \<noteq> 0 \<and> (f = RWSEM_WAITING_FOR_READ \<longrightarrow> a < 0))"

definition rw_inv :: "rw_system \<Rightarrow> bool" where
  "rw_inv s \<longleftrightarrow> count_ok (activity (rw_sem s)) (rw_phase s) \<and> queue_ok (wait_list (rw_sem s)) (rw_phase s) \<and>
     busy (activity (rw_sem s)) (wait_list (rw_sem s))"

text \<open>The work left to drain the queue: sleepers, then holders, then granted locks not yet taken up.\<close>

definition rw_measure :: "(rw_system \<times> rw_system) set" where
  "rw_measure = measures [\<lambda>s. length (wait_list (rw_sem s)),
     \<lambda>s. card (readers (rw_phase s)) + card (writers (rw_phase s)), \<lambda>s. card {t. \<exists>f. rw_phase s t = Granted f}]"

text \<open>A state in which one writer holds the lock and a reader and a writer queue behind it.\<close>

definition rw_example :: rw_system where
  "rw_example =
     \<lparr>rw_sem = \<lparr>activity = -1, wait_list = [(2, RWSEM_WAITING_FOR_READ), (3, RWSEM_WAITING_FOR_WRITE)]\<rparr>,
      rw_phase = (\<lambda>_. Out)(1 := Holding RWSEM_WAITING_FOR_WRITE, 2 := Waiting RWSEM_WAITING_FOR_READ,
        3 := Waiting RWSEM_WAITING_FOR_WRITE)\<rparr>"

section \<open>Lemmas\<close>

lemma not_READ [simp]: "f \<noteq> RWSEM_WAITING_FOR_READ \<longleftrightarrow> f = RWSEM_WAITING_FOR_WRITE"
  by (cases f) auto

lemma wake_readers_spec:
  "wake_readers ws = (woken, rest) \<Longrightarrow>
   \<exists>us. ws = us @ rest \<and> woken = map fst us \<and> (\<forall>u \<in> set us. snd u = READ) \<and> (rest \<noteq> [] \<longrightarrow> snd (hd rest) = WRITE)"
proof (induction ws arbitrary: woken rest rule: wake_readers.induct)
  case (2 tsk f ws)
  show ?case
  proof (cases "f = READ")
    case True
    obtain w r where wr: "wake_readers ws = (w, r)" by (cases "wake_readers ws")
    with 2 True obtain us where "ws = us @ r" "w = map fst us" "\<forall>u \<in> set us. snd u = READ" "r \<noteq> [] \<longrightarrow> snd (hd r) = WRITE"
      by blast
    then show ?thesis using 2(2) True wr by (intro exI[of _ "(tsk, f) # us"]) auto
  qed (use 2(2) in \<open>auto simp: exI[of _ "[]"]\<close>)
qed simp

lemma holders_upd:
  "holders f (ph(t := p)) = (if p = Granted f \<or> p = Holding f then insert t (holders f ph) else holders f ph - {t})"
  by (auto simp: holders_def)

lemma not_in_holders [simp]: "ph t = Out \<Longrightarrow> t \<notin> holders f ph" "ph t = Waiting g \<Longrightarrow> t \<notin> holders f ph"
  by (simp_all add: holders_def)

lemma wake_up_Nil [simp]: "wake_up [] ph = ph"
  by (simp add: wake_up_def)

lemma queue_okD: "queue_ok ws ph \<Longrightarrow> (t, f) \<in> set ws \<longleftrightarrow> ph t = Waiting f"
  by (simp add: queue_ok_def)

lemma wake_up_waiting:
  assumes "queue_ok (us @ ws) ph"
  shows "wake_up (map fst us) ph t = (if \<exists>f. (t, f) \<in> set us then grant (ph t) else ph t)"
  by (force simp: wake_up_def)

lemma holders_wake_up:
  assumes "queue_ok (us @ ws) ph"
  shows "holders f (wake_up (map fst us) ph) = holders f ph \<union> {t. (t, f) \<in> set us}"
proof (rule set_eqI)
  fix t
  show "t \<in> holders f (wake_up (map fst us) ph) \<longleftrightarrow> t \<in> holders f ph \<union> {t. (t, f) \<in> set us}"
  proof (cases "\<exists>g. (t, g) \<in> set us")
    case True
    then obtain g where g: "(t, g) \<in> set us" by blast
    then have "ph t = Waiting g" using queue_okD[OF assms, of t g] by simp
    moreover have "(t, f) \<in> set us \<longleftrightarrow> g = f" using g calculation queue_okD[OF assms, of t f] by auto
    ultimately show ?thesis using True by (simp add: holders_def wake_up_waiting[OF assms])
  next
    case False
    then show ?thesis by (simp add: holders_def wake_up_waiting[OF assms])
  qed
qed

lemma queue_ok_snoc:
  assumes "queue_ok ws ph" and "ph t = Out"
  shows "queue_ok (ws @ [(t, f)]) (ph(t := Waiting f))"
proof -
  have "t \<notin> set (map fst ws)" using queue_okD[OF assms(1), of t] assms(2) by auto
  then show ?thesis using assms by (auto simp: queue_ok_def)
qed

lemma queue_ok_upd:
  "queue_ok ws ph \<Longrightarrow> (\<forall>f. ph t \<noteq> Waiting f \<and> p \<noteq> Waiting f) \<Longrightarrow> queue_ok ws (ph(t := p))"
  unfolding queue_ok_def by auto

lemma queue_ok_wake:
  assumes "queue_ok (us @ ws) ph"
  shows "queue_ok ws (wake_up (map fst us) ph)"
proof -
  have "(t, f) \<in> set ws \<longleftrightarrow> wake_up (map fst us) ph t = Waiting f" for t f
  proof (cases "t \<in> set (map fst us)")
    case True
    then obtain g where g: "(t, g) \<in> set us" by auto
    then have "ph t = Waiting g" using queue_okD[OF assms, of t g] by simp
    moreover have "t \<notin> set (map fst ws)" using True assms by (auto simp: queue_ok_def)
    ultimately show ?thesis using True by (force simp: wake_up_def)
  next
    case False
    then have "(t, f) \<notin> set us" by force
    then show ?thesis using False queue_okD[OF assms, of t f] by (simp add: wake_up_def)
  qed
  then show ?thesis using assms by (auto simp: queue_ok_def)
qed

lemma busy_simps [simp]: "busy a []" "busy a ((t, f) # ws) \<longleftrightarrow> a \<noteq> 0 \<and> (f = READ \<longrightarrow> a < 0)"
  by (simp_all add: busy_def)

lemma busy_snoc: "busy a ws \<Longrightarrow> (ws = [] \<Longrightarrow> a \<noteq> 0 \<and> (f = READ \<longrightarrow> a < 0)) \<Longrightarrow> busy a (ws @ [(t, f)])"
  by (cases ws) auto

lemma card_queued:
  assumes "queue_ok (us @ ws) ph" and "\<forall>u \<in> set us. snd u = f"
  shows "card {t. (t, f) \<in> set us} = length us" "finite {t. (t, f) \<in> set us}"
proof -
  have e: "{t. (t, f) \<in> set us} = set (map fst us)" using assms(2) by force
  have "distinct (map fst us)" using assms(1) by (simp add: queue_ok_def)
  from distinct_card[OF this] show "card {t. (t, f) \<in> set us} = length us" by (simp add: e)
  show "finite {t. (t, f) \<in> set us}" by (simp add: e)
qed

text \<open>What the counter says about the holders.\<close>

lemma count_ok_cases:
  assumes "count_ok a ph"
  shows "t \<in> writers ph \<Longrightarrow> writers ph = {t} \<and> readers ph = {} \<and> a = -1"
    "t \<in> readers ph \<Longrightarrow> writers ph = {} \<and> 0 < a \<and> a = int (card (readers ph))"
    "0 \<le> a \<Longrightarrow> writers ph = {} \<and> a = int (card (readers ph))"
    "a = 0 \<Longrightarrow> writers ph = {} \<and> readers ph = {}"
  using assms by (auto simp: count_ok_def card_gt_0_iff)

lemma count_okI: "finite (readers ph) \<Longrightarrow> writers ph = {} \<Longrightarrow> a = int (card (readers ph)) \<Longrightarrow> count_ok a ph"
  "writers ph = {t} \<Longrightarrow> readers ph = {} \<Longrightarrow> count_ok (-1) ph"
  by (auto simp: count_ok_def)

lemma count_ok_finite: "count_ok a ph \<Longrightarrow> finite (holders f ph)"
  by (cases f) (auto simp: count_ok_def)

lemma count_ok_same_holders:
  "count_ok a ph \<Longrightarrow> readers ph' = readers ph \<Longrightarrow> writers ph' = writers ph \<Longrightarrow> count_ok a ph'"
  by (simp add: count_ok_def)

lemma count_ok_add_reader:
  assumes "count_ok a ph" "0 \<le> a" "ph t = Out"
  shows "count_ok (a + 1) (ph(t := Holding READ))"
  using count_ok_cases(3)[OF assms(1,2)] count_ok_finite[OF assms(1)] assms(3)
  by (intro count_okI(1)) (auto simp: holders_upd)

lemma count_ok_add_writer: "count_ok 0 ph \<Longrightarrow> count_ok (-1) (ph(t := Holding WRITE))"
  by (drule count_ok_cases(4), simp) (auto simp: holders_upd intro!: count_okI(2))

lemma count_ok_drop_reader:
  assumes "count_ok a ph" "ph t = Holding READ"
  shows "count_ok (a - 1) (ph(t := Out))" "0 < a"
proof -
  have t: "t \<in> readers ph" using assms(2) by (simp add: holders_def)
  note c = count_ok_cases(2)[OF assms(1) t]
  then show "0 < a" by simp
  have "int (card (readers ph - {t})) = a - 1"
    using c t count_ok_finite[OF assms(1)] by (simp add: of_nat_diff)
  then show "count_ok (a - 1) (ph(t := Out))"
    using c count_ok_finite[OF assms(1)] by (intro count_okI(1)) (auto simp: holders_upd)
qed

text \<open>Waking the writer at the head, or the readers at the front, when the lock has become free.\<close>

lemma wake_writer_inv:
  assumes "count_ok 0 ph" and "queue_ok ((w, WRITE) # ws) ph"
  shows "rw_inv \<lparr>rw_sem = \<lparr>activity = -1, wait_list = ws\<rparr>, rw_phase = wake_up [w] ph\<rparr>"
proof -
  have q: "queue_ok ([(w, WRITE)] @ ws) ph" using assms(2) by simp
  have "holders f (wake_up [w] ph) = (if f = WRITE then {w} else {})" for f
    using holders_wake_up[OF q, of f] count_ok_cases(4)[OF assms(1)] by (cases f) auto
  then show ?thesis using queue_ok_wake[OF q]
    by (cases ws) (auto simp: rw_inv_def intro!: count_okI(2))
qed

lemma wake_readers_inv:
  assumes "count_ok a ph" and "0 \<le> a" and "queue_ok ws ph"
    and "wake_readers ws = (woken, rest)" and "woken \<noteq> []"
  shows "rw_inv \<lparr>rw_sem = \<lparr>activity = a + int (length woken), wait_list = rest\<rparr>, rw_phase = wake_up woken ph\<rparr>"
proof -
  obtain us where us: "ws = us @ rest" "woken = map fst us" "\<forall>u \<in> set us. snd u = READ" "rest \<noteq> [] \<longrightarrow> snd (hd rest) = WRITE"
    using wake_readers_spec[OF assms(4)] by blast
  have q: "queue_ok (us @ rest) ph" using assms(3) us by simp
  let ?U = "{t. (t, READ) \<in> set us}"
  have disj: "readers ph \<inter> ?U = {}" 
  proof -
    have "ph t = Waiting READ" if "(t, READ) \<in> set us" for t using queue_okD[OF q, of t READ] that by simp
    then show ?thesis by (auto simp: holders_def)
  qed
  have "writers (wake_up woken ph) = {}" "readers (wake_up woken ph) = readers ph \<union> ?U"
    using holders_wake_up[OF q] count_ok_cases(3)[OF assms(1,2)] us(2,3) by auto
  then have "count_ok (a + int (length woken)) (wake_up woken ph)"
    using count_ok_cases(3)[OF assms(1,2)] count_ok_finite[OF assms(1)] card_queued[OF q us(3)] disj us(2)
    by (intro count_okI(1)) (simp_all add: card_Un_disjoint)
  moreover have "busy (a + int (length woken)) rest"
    using us(4) assms(2,5) by (cases rest; cases woken) auto
  ultimately show ?thesis using queue_ok_wake[OF q] us(2) by (simp add: rw_inv_def)
qed

lemma wake_readers_nonempty: "wake_readers ((t, READ) # ws) = (woken, rest) \<Longrightarrow> woken \<noteq> []"
  by (auto split: prod.splits)

text \<open>The releasing operations keep the invariant, and never look for a waiter in an empty list.\<close>

lemma up_read_inv:
  assumes inv: "rw_inv \<lparr>rw_sem = sem, rw_phase = ph\<rparr>" and t: "ph t = Holding READ"
  shows "\<exists>sem' woken. up_read sem = Ok (sem', woken) \<and> rw_inv \<lparr>rw_sem = sem', rw_phase = wake_up woken (ph(t := Out))\<rparr>"
proof -
  have c: "count_ok (activity sem) ph" and q: "queue_ok (wait_list sem) ph" and b: "busy (activity sem) (wait_list sem)"
    using inv by (simp_all add: rw_inv_def)
  note c' = count_ok_drop_reader[OF c t]
  have q': "queue_ok (wait_list sem) (ph(t := Out))" using q t by (simp add: queue_ok_upd)
  show ?thesis
  proof (cases "activity sem = 1 \<and> wait_list sem \<noteq> []")
    case True
    then obtain w ws where w: "wait_list sem = (w, WRITE) # ws" using b c'(2)
      by (cases "wait_list sem") auto
    then show ?thesis using wake_writer_inv[of "ph(t := Out)" w ws] c' q' True
      by (cases sem) (simp add: up_read_def rwsem_wake_one_writer_def)
  next
    case False
    then have "busy (activity sem - 1) (wait_list sem)" using b c'(2) by (cases "wait_list sem") auto
    then show ?thesis using False c' q' by (auto simp: up_read_def rw_inv_def)
  qed
qed

lemma writer_alone:
  assumes "count_ok a ph" "ph t = Holding WRITE"
  shows "count_ok 0 (ph(t := Out))" "count_ok 1 (ph(t := Holding READ))"
proof -
  have "t \<in> writers ph" using assms(2) by (simp add: holders_def)
  from count_ok_cases(1)[OF assms(1) this] have "writers ph = {t}" "readers ph = {}" by auto
  then show "count_ok 0 (ph(t := Out))" "count_ok 1 (ph(t := Holding READ))"
    by (auto simp: holders_upd intro!: count_okI(1))
qed

lemma rwsem_do_wake_inv:
  assumes c: "count_ok a ph" and a: "0 \<le> a" "wakewrite \<longleftrightarrow> a = 0" and q: "queue_ok (wait_list sem) ph"
    and ne: "wait_list sem \<noteq> []" and sem: "activity sem = a"
  shows "\<exists>sem' woken. rwsem_do_wake sem wakewrite = Ok (sem', woken) \<and> rw_inv \<lparr>rw_sem = sem', rw_phase = wake_up woken ph\<rparr>"
proof -
  obtain w f ws where wf: "wait_list sem = (w, f) # ws" using ne by (cases "wait_list sem") auto
  show ?thesis
  proof (cases f)
    case RWSEM_WAITING_FOR_WRITE
    then show ?thesis using wake_writer_inv[of ph w ws] c a q wf sem
      by (cases sem) (auto simp: rwsem_do_wake_def rw_inv_def)
  next
    case RWSEM_WAITING_FOR_READ
    obtain woken rest where wr: "wake_readers (wait_list sem) = (woken, rest)" by fastforce
    have "woken \<noteq> []" using wr wake_readers_nonempty wf RWSEM_WAITING_FOR_READ by simp
    then show ?thesis using wake_readers_inv[OF c a(1) q wr] wr wf RWSEM_WAITING_FOR_READ sem
      by (cases sem) (auto simp: rwsem_do_wake_def split: prod.splits)
  qed
qed

lemma up_write_inv:
  assumes inv: "rw_inv \<lparr>rw_sem = sem, rw_phase = ph\<rparr>" and t: "ph t = Holding WRITE"
  shows "\<exists>sem' woken. up_write sem = Ok (sem', woken) \<and> rw_inv \<lparr>rw_sem = sem', rw_phase = wake_up woken (ph(t := Out))\<rparr>"
proof -
  have c: "count_ok 0 (ph(t := Out))" and q: "queue_ok (wait_list sem) (ph(t := Out))"
    using inv t writer_alone queue_ok_upd by (auto simp: rw_inv_def)
  show ?thesis
    using rwsem_do_wake_inv[OF c, of True "sem\<lparr>activity := 0\<rparr>"] c q
    by (cases "wait_list sem = []") (auto simp: up_write_def rw_inv_def)
qed

lemma downgrade_write_inv:
  assumes inv: "rw_inv \<lparr>rw_sem = sem, rw_phase = ph\<rparr>" and t: "ph t = Holding WRITE"
  shows "\<exists>sem' woken. downgrade_write sem = Ok (sem', woken) \<and>
    rw_inv \<lparr>rw_sem = sem', rw_phase = wake_up woken (ph(t := Holding READ))\<rparr>"
proof -
  have c: "count_ok 1 (ph(t := Holding READ))" and q: "queue_ok (wait_list sem) (ph(t := Holding READ))"
    using inv t writer_alone queue_ok_upd by (auto simp: rw_inv_def)
  show ?thesis
    using rwsem_do_wake_inv[OF c, of False "sem\<lparr>activity := 1\<rparr>"] c q
    by (cases "wait_list sem = []") (auto simp: downgrade_write_def rw_inv_def)
qed

text \<open>The acquiring operations.\<close>

lemma down_read_inv:
  assumes "rw_inv \<lparr>rw_sem = sem, rw_phase = ph\<rparr>" "ph t = Out" "down_read t sem = (sem', g)"
  shows "rw_inv \<lparr>rw_sem = sem', rw_phase = ph(t := lock_phase READ g)\<rparr>"
  using assms queue_ok_snoc[of "wait_list sem" ph t] count_ok_add_reader[of "activity sem" ph t]
    count_ok_same_holders[of "activity sem" ph "ph(t := Waiting READ)"] queue_ok_upd[of "wait_list sem" ph t]
    busy_snoc[of "activity sem" "wait_list sem" READ t]
  by (auto simp: down_read_def rw_inv_def lock_phase_def holders_upd split: if_splits)

lemma down_write_inv:
  assumes "rw_inv \<lparr>rw_sem = sem, rw_phase = ph\<rparr>" "ph t = Out" "down_write t sem = (sem', g)"
  shows "rw_inv \<lparr>rw_sem = sem', rw_phase = ph(t := lock_phase WRITE g)\<rparr>"
  using assms queue_ok_snoc[of "wait_list sem" ph t] count_ok_add_writer[of ph t]
    count_ok_same_holders[of "activity sem" ph "ph(t := Waiting WRITE)"] queue_ok_upd[of "wait_list sem" ph t]
    busy_snoc[of "activity sem" "wait_list sem" WRITE t]
  by (auto simp: down_write_def down_write_nested_def rw_inv_def lock_phase_def holders_upd split: if_splits)

lemma trylock_inv:
  assumes "rw_inv \<lparr>rw_sem = sem, rw_phase = ph\<rparr>" "ph t = Out"
  shows "down_read_trylock sem = (sem', g) \<Longrightarrow> rw_inv \<lparr>rw_sem = sem', rw_phase = ph(t := try_phase READ g)\<rparr>"
    "down_write_trylock sem = (sem', g) \<Longrightarrow> rw_inv \<lparr>rw_sem = sem', rw_phase = ph(t := try_phase WRITE g)\<rparr>"
proof -
  have same: "ph(t := Out) = ph" using assms(2) by auto
  show "down_read_trylock sem = (sem', g) \<Longrightarrow> rw_inv \<lparr>rw_sem = sem', rw_phase = ph(t := try_phase READ g)\<rparr>"
    using assms count_ok_add_reader[of "activity sem" ph t] queue_ok_upd[of "wait_list sem" ph t]
    by (auto simp: down_read_trylock_def rw_inv_def try_phase_def same split: if_splits)
  show "down_write_trylock sem = (sem', g) \<Longrightarrow> rw_inv \<lparr>rw_sem = sem', rw_phase = ph(t := try_phase WRITE g)\<rparr>"
    using assms count_ok_add_writer[of ph t] queue_ok_upd[of "wait_list sem" ph t]
    by (auto simp: down_write_trylock_def rw_inv_def try_phase_def same split: if_splits)
qed

lemma resume_inv:
  assumes "rw_inv \<lparr>rw_sem = sem, rw_phase = ph\<rparr>" "ph t = Granted f"
  shows "rw_inv \<lparr>rw_sem = sem, rw_phase = ph(t := Holding f)\<rparr>"
proof -
  have "holders g (ph(t := Holding f)) = holders g ph" for g
    using assms(2) by (auto simp: holders_def)
  then show ?thesis using assms count_ok_same_holders[of "activity sem" ph "ph(t := Holding f)"]
      queue_ok_upd[of "wait_list sem" ph t "Holding f"]
    by (simp add: rw_inv_def)
qed

lemma rw_step_inv: "rw_step s s' \<Longrightarrow> rw_inv s \<Longrightarrow> rw_inv s'"
proof (induction rule: rw_step.induct)
  case (up_read ph t sem sem' woken)
  then show ?case using up_read_inv[of sem ph t] by auto
next
  case (up_write ph t sem sem' woken)
  then show ?case using up_write_inv[of sem ph t] by auto
next
  case (downgrade_write ph t sem sem' woken)
  then show ?case using downgrade_write_inv[of sem ph t] by auto
qed (blast intro: down_read_inv down_write_inv trylock_inv resume_inv)+

lemma rw_init_inv: "rw_init s \<Longrightarrow> rw_inv s"
  by (simp add: rw_init_def rw_inv_def init_rwsem_def count_ok_def queue_ok_def holders_def)

interpretation rwsem: invariant_system rw_init rw_step rw_inv
  by unfold_locales (auto intro: rw_init_inv rw_step_inv)


text \<open>Draining: as long as somebody waits, somebody holds the lock, and a release brings the queue forward.\<close>

lemma rw_inv_holder:
  assumes "rw_inv s" and "wait_list (rw_sem s) \<noteq> []"
  shows "\<exists>h f. h \<in> holders f (rw_phase s)"
  using assms by (cases "wait_list (rw_sem s)") (auto simp: rw_inv_def count_ok_def)

lemma wake_up_phase: "wake_up woken ph t = ph t \<or> (\<exists>f. ph t = Waiting f \<and> wake_up woken ph t = Granted f)"
  by (cases "ph t") (auto simp: wake_up_def)

lemma wf_rw_measure: "wf rw_measure"
  by (simp add: rw_measure_def)

lemma up_read_measure:
  assumes inv: "rw_inv \<lparr>rw_sem = sem, rw_phase = ph\<rparr>" and t: "ph t = Holding READ" and up: "up_read sem = Ok (sem', woken)"
  shows "(\<lparr>rw_sem = sem', rw_phase = wake_up woken (ph(t := Out))\<rparr>, \<lparr>rw_sem = sem, rw_phase = ph\<rparr>) \<in> rw_measure"
proof (cases "activity sem = 1 \<and> wait_list sem \<noteq> []")
  case True
  then show ?thesis using up by (auto simp: up_read_def rwsem_wake_one_writer_def rw_measure_def split: list.splits)
next
  case False
  have c: "count_ok (activity sem) ph" using inv by (simp add: rw_inv_def)
  have m: "t \<in> readers ph" using t by (simp add: holders_def)
  then have "writers ph = {}" "0 < card (readers ph)" using count_ok_cases(2)[OF c m] by simp_all
  then show ?thesis using False up m by (auto simp: up_read_def rw_measure_def holders_upd split: if_splits)
qed

lemma up_write_measure:
  assumes t: "ph t = Holding WRITE" and up: "up_write sem = Ok (sem', woken)" and ne: "wait_list sem \<noteq> []"
  shows "(\<lparr>rw_sem = sem', rw_phase = wake_up woken (ph(t := Out))\<rparr>, \<lparr>rw_sem = sem, rw_phase = ph\<rparr>) \<in> rw_measure"
proof -
  obtain w f ws where wf: "wait_list sem = (w, f) # ws" using ne by (cases "wait_list sem") auto
  have "length (wait_list sem') < length (wait_list sem)"
  proof (cases f)
    case RWSEM_WAITING_FOR_WRITE
    then show ?thesis using up wf by (auto simp: up_write_def rwsem_do_wake_def)
  next
    case RWSEM_WAITING_FOR_READ
    obtain woken' rest where wr: "wake_readers (wait_list sem) = (woken', rest)" by fastforce
    then have "woken' \<noteq> []" using wake_readers_nonempty wf RWSEM_WAITING_FOR_READ by simp
    then have "length rest < length (wait_list sem)" using wake_readers_spec[OF wr] by auto
    moreover have "wait_list sem' = rest"
      using up wr wf RWSEM_WAITING_FOR_READ by (auto simp: up_write_def rwsem_do_wake_def split: prod.splits)
    ultimately show ?thesis by simp
  qed
  then show ?thesis by (simp add: rw_measure_def)
qed

lemma drain_step:
  assumes inv: "rw_inv s" and w: "rw_phase s t = Waiting f"
  shows "\<exists>s'. rw_step s s' \<and> (s', s) \<in> rw_measure \<and> (rw_phase s' t = Waiting f \<or> rw_phase s' t = Granted f)"
proof -
  obtain sem ph where s: "s = \<lparr>rw_sem = sem, rw_phase = ph\<rparr>" by (cases s)
  have q: "queue_ok (wait_list sem) ph" and c: "count_ok (activity sem) ph" using inv by (simp_all add: rw_inv_def s)
  then have ne: "wait_list sem \<noteq> []" using queue_okD[OF q, of t f] w by (auto simp: s)
  obtain h g where h: "h \<in> holders g ph" using rw_inv_holder[OF inv] ne by (auto simp: s)
  have ht: "h \<noteq> t" using h w by (auto simp: s holders_def)
  consider (granted) "ph h = Granted g" | (reader) "ph h = Holding READ" | (writer) "ph h = Holding WRITE"
    using h by (cases g) (auto simp: holders_def)
  then show ?thesis
  proof cases
    case granted
    let ?ph = "ph(h := Holding g)"
    have "t \<in> readers ph \<union> writers ph" if "ph t = Granted k" for t k
      using that by (cases k) (auto simp: holders_def)
    then have "{t. \<exists>f. ph t = Granted f} \<subseteq> readers ph \<union> writers ph" by blast
    then have fin: "finite {t. \<exists>f. ph t = Granted f}" by (rule finite_subset) (simp add: count_ok_finite[OF c])
    have "{t. \<exists>f. ?ph t = Granted f} \<subset> {t. \<exists>f. ph t = Granted f}" using granted by auto
    then have "card {t. \<exists>f. ?ph t = Granted f} < card {t. \<exists>f. ph t = Granted f}"
      by (rule psubset_card_mono[OF fin])
    moreover have "holders k ?ph = holders k ph" for k using granted by (auto simp: holders_def)
    ultimately have "(\<lparr>rw_sem = sem, rw_phase = ?ph\<rparr>, s) \<in> rw_measure" by (simp add: s rw_measure_def)
    then show ?thesis using rw_step.resume[of ph h g sem] granted w ht by (intro exI[of _ "\<lparr>rw_sem = sem, rw_phase = ?ph\<rparr>"]) (simp add: s)
  next
    case reader
    obtain sem' woken where up: "up_read sem = Ok (sem', woken)" using up_read_inv[of sem ph h] inv reader by (auto simp: s)
    then show ?thesis
      using up_read_measure[of sem ph h sem' woken] inv reader rw_step.up_read[of ph h, OF reader up] w ht wake_up_phase[of woken "ph(h := Out)" t]
      by (intro exI[of _ "\<lparr>rw_sem = sem', rw_phase = wake_up woken (ph(h := Out))\<rparr>"]) (auto simp: s)
  next
    case writer
    obtain sem' woken where up: "up_write sem = Ok (sem', woken)" using up_write_inv[of sem ph h] inv writer by (auto simp: s)
    then show ?thesis
      using up_write_measure[of ph h sem sem' woken] ne writer rw_step.up_write[of ph h, OF writer up] w ht wake_up_phase[of woken "ph(h := Out)" t]
      by (intro exI[of _ "\<lparr>rw_sem = sem', rw_phase = wake_up woken (ph(h := Out))\<rparr>"]) (auto simp: s)
  qed
qed

lemma drain:
  "rw_inv s \<Longrightarrow> rw_phase s t = Waiting f \<or> rw_phase s t = Granted f \<Longrightarrow> \<exists>s'. rw_step\<^sup>*\<^sup>* s s' \<and> rw_phase s' t = Holding f"
proof (induction s rule: wf_induct_rule[OF wf_rw_measure])
  case (1 s)
  show ?case
  proof (cases "rw_phase s t = Granted f")
    case True
    then have "rw_step s (s\<lparr>rw_phase := (rw_phase s)(t := Holding f)\<rparr>)"
      using rw_step.resume[of "rw_phase s" t f "rw_sem s"] by (cases s) simp
    then show ?thesis by (intro exI[of _ "s\<lparr>rw_phase := (rw_phase s)(t := Holding f)\<rparr>"]) simp
  next
    case False
    with 1 obtain s' where "rw_step s s'" "(s', s) \<in> rw_measure" "rw_phase s' t = Waiting f \<or> rw_phase s' t = Granted f"
      using drain_step by blast
    then show ?thesis using 1 rw_step_inv by (meson converse_rtranclp_into_rtranclp)
  qed
qed

lemma reach_rw_example: "reach rw_init rw_step
   rw_example"
proof -
  let ?p = "\<lambda>_. Out"
  have 0: "reach rw_init rw_step \<lparr>rw_sem = init_rwsem, rw_phase = ?p\<rparr>" by (rule reach.start) (simp add: rw_init_def)
  have 1: "reach rw_init rw_step \<lparr>rw_sem = \<lparr>activity = -1, wait_list = []\<rparr>, rw_phase = ?p(1 := Holding WRITE)\<rparr>"
    using reach.step[OF 0 rw_step.down_write[of ?p 1 _ _ True]] by (simp add: down_write_def down_write_nested_def init_rwsem_def lock_phase_def)
  have 2: "reach rw_init rw_step \<lparr>rw_sem = \<lparr>activity = -1, wait_list = [(2, READ)]\<rparr>,
      rw_phase = ?p(1 := Holding WRITE, 2 := Waiting READ)\<rparr>"
    using reach.step[OF 1 rw_step.down_read[of _ 2 _ _ False]] by (simp add: down_read_def lock_phase_def)
  show ?thesis
    using reach.step[OF 2 rw_step.down_write[of _ 3 _ _ False]] by (simp add: rw_example_def down_write_def down_write_nested_def lock_phase_def)
qed

section \<open>Properties\<close>

text \<open>
  C14. Readers and writers exclude each other: while a task holds the semaphore for writing (or has
  just been given it) no other task has it in any mode, and \<open>activity\<close> is exactly the number of
  readers, or -1 for a writer.
\<close>

theorem rwsem_exclusion:
  assumes "reach rw_init rw_step s"
  shows "(\<forall>t \<in> writers (rw_phase s). \<forall>u f. u \<in> holders f (rw_phase s) \<longrightarrow> u = t) \<and>
    activity (rw_sem s) = (if writers (rw_phase s) = {} then int (card (readers (rw_phase s))) else -1)"
  using rwsem.reach_inv[OF assms] unfolding rw_inv_def count_ok_def
  by (auto split: if_splits) (metis (full_types) empty_iff rwsem_flag.exhaust singletonD)+

theorem rwsem_exclusion_witness:
  "1 \<in> writers (rw_phase rw_example) \<and> holders RWSEM_WAITING_FOR_READ (rw_phase rw_example) \<subseteq> {1} \<and>
    activity (rw_sem rw_example) = -1"
proof -
  have "1 \<in> writers (rw_phase rw_example)" by (simp add: rw_example_def holders_def)
  with rwsem_exclusion[OF reach_rw_example] show ?thesis by auto
qed

text \<open>
  C15. No wake-up is lost: when a writer releases, the first task in the queue is among those
  that are woken with the lock granted, and so it is when the last reader releases; no release
  ever looks for a waiter in an empty queue.
\<close>

theorem rwsem_release_grants:
  assumes "reach rw_init rw_step s" and "rw_phase s t = Holding f"
  shows "\<exists>sem' woken.
    (if f = RWSEM_WAITING_FOR_WRITE then up_write (rw_sem s) else up_read (rw_sem s)) = Ok (sem', woken) \<and>
    (holders f (rw_phase s) = {t} \<and> wait_list (rw_sem s) \<noteq> [] \<longrightarrow>
       fst (hd (wait_list (rw_sem s))) \<in> set woken)"
proof -
  obtain sem ph where s: "s = \<lparr>rw_sem = sem, rw_phase = ph\<rparr>" by (cases s)
  have inv: "rw_inv \<lparr>rw_sem = sem, rw_phase = ph\<rparr>" using rwsem.reach_inv[OF assms(1)] s by simp
  show ?thesis
  proof (cases f)
    case RWSEM_WAITING_FOR_READ
    then obtain sem' woken where up: "up_read sem = Ok (sem', woken)" using up_read_inv[OF inv, of t] assms(2) s by auto
    have "fst (hd (wait_list sem)) \<in> set woken" if h: "readers ph = {t}" and ne: "wait_list sem \<noteq> []"
    proof -
      have "activity sem = 1" using h inv count_ok_cases(2)[of "activity sem" ph t] by (simp add: rw_inv_def)
      then show ?thesis using up ne by (cases "wait_list sem") (auto simp: up_read_def rwsem_wake_one_writer_def)
    qed
    then show ?thesis using up RWSEM_WAITING_FOR_READ s by auto
  next
    case RWSEM_WAITING_FOR_WRITE
    then obtain sem' woken where up: "up_write sem = Ok (sem', woken)" using up_write_inv[OF inv, of t] assms(2) s by auto
    have "fst (hd (wait_list sem)) \<in> set woken" if ne: "wait_list sem \<noteq> []"
      using up ne by (cases "wait_list sem") (auto simp: up_write_def rwsem_do_wake_def Let_def split: if_splits prod.splits)
    then show ?thesis using up RWSEM_WAITING_FOR_WRITE s by auto
  qed
qed

theorem rwsem_release_grants_witness:
  "\<exists>sem' woken. up_write (rw_sem rw_example) = Ok (sem', woken) \<and> fst (hd (wait_list (rw_sem rw_example))) \<in> set woken"
proof -
  have "rw_phase rw_example 1 = Holding RWSEM_WAITING_FOR_WRITE" "wait_list (rw_sem rw_example) \<noteq> []"
    "holders RWSEM_WAITING_FOR_WRITE (rw_phase rw_example) = {1}"
    by (auto simp: rw_example_def holders_def split: if_splits)
  with rwsem_release_grants[OF reach_rw_example] show ?thesis by fastforce
qed



end
