(* ===== verification/Semaphore.thy ===== *)
theory Semaphore
  imports Transition
begin

text \<open>
  The counting semaphore of \<^verbatim>\<open>kernel/semaphore.c\<close>. The five ways to acquire it share \<^verbatim>\<open>__down_common\<close>, whose
  loop sleeps in \<^verbatim>\<open>schedule_timeout\<close> with the lock dropped; the model cuts it there: one critical section
  up to the sleep, one after it. Signals, expiring timeouts and \<^verbatim>\<open>up\<close> by any task interleave freely.
\<close>

section \<open>Model\<close>

datatype task_state = TASK_UNINTERRUPTIBLE | TASK_INTERRUPTIBLE | TASK_KILLABLE

record semaphore =
  sem_count :: u32
  sem_wait_list :: "task list"

definition sema_init :: "u32 \<Rightarrow> semaphore" where
  "sema_init val = \<lparr>sem_count = val, sem_wait_list = []\<rparr>"

definition MAX_SCHEDULE_TIMEOUT :: int where
  "MAX_SCHEDULE_TIMEOUT = 2 ^ 31 - 1"

text \<open>What \<^verbatim>\<open>schedule_timeout\<close> returns when \<open>elapsed\<close> jiffies have passed.\<close>

definition schedule_timeout :: "u32 \<Rightarrow> int \<Rightarrow> int" where
  "schedule_timeout elapsed timeout =
     (if timeout = MAX_SCHEDULE_TIMEOUT then timeout
      else if timeout < 0 then 0
      else let t = sint (word_of_int timeout - elapsed) in if t < 0 then 0 else t)"

text \<open>A critical section ends with the semaphore acquired, an error, or the task going to sleep.\<close>

datatype down_result = Acquired | Failed errno | Sleeping int

text \<open>The top of the loop, with the task queued; \<open>sig\<close> and \<open>fatal\<close> are the pending signals.\<close>

definition down_loop :: "task_state \<Rightarrow> bool \<Rightarrow> bool \<Rightarrow> int \<Rightarrow> task \<Rightarrow> semaphore \<Rightarrow> semaphore \<times> down_result" where
  "down_loop state sig fatal timeout t sem =
     (if state = TASK_INTERRUPTIBLE \<and> sig then
        (sem\<lparr>sem_wait_list := remove1 t (sem_wait_list sem)\<rparr>, Failed EINTR)
      else if state = TASK_KILLABLE \<and> fatal then
        (sem\<lparr>sem_wait_list := remove1 t (sem_wait_list sem)\<rparr>, Failed EINTR)
      else if timeout \<le> 0 then
        (sem\<lparr>sem_wait_list := remove1 t (sem_wait_list sem)\<rparr>, Failed ETIME)
      else (sem, Sleeping timeout))"

text \<open>\<^verbatim>\<open>__down_common\<close> up to the first sleep, and from waking up to the next one; \<open>up\<close> is \<^verbatim>\<open>waiter.up\<close>.\<close>

definition down_common :: "task_state \<Rightarrow> bool \<Rightarrow> bool \<Rightarrow> int \<Rightarrow> task \<Rightarrow> semaphore \<Rightarrow> semaphore \<times> down_result" where
  "down_common state sig fatal timeout t sem =
     down_loop state sig fatal timeout t (sem\<lparr>sem_wait_list := sem_wait_list sem @ [t]\<rparr>)"

definition down_wakeup ::
  "task_state \<Rightarrow> bool \<Rightarrow> bool \<Rightarrow> u32 \<Rightarrow> int \<Rightarrow> bool \<Rightarrow> task \<Rightarrow> semaphore \<Rightarrow> semaphore \<times> down_result" where
  "down_wakeup state sig fatal elapsed timeout up t sem =
     (let timeout = schedule_timeout elapsed timeout in
      if up then (sem, Acquired) else down_loop state sig fatal timeout t sem)"

text \<open>The entry points.\<close>

definition down :: "bool \<Rightarrow> bool \<Rightarrow> task \<Rightarrow> semaphore \<Rightarrow> semaphore \<times> down_result" where
  "down sig fatal t sem =
     (if sem_count sem > 0 then (sem\<lparr>sem_count := sem_count sem - 1\<rparr>, Acquired)
      else down_common TASK_UNINTERRUPTIBLE sig fatal MAX_SCHEDULE_TIMEOUT t sem)"

definition down_interruptible :: "bool \<Rightarrow> bool \<Rightarrow> task \<Rightarrow> semaphore \<Rightarrow> semaphore \<times> down_result" where
  "down_interruptible sig fatal t sem =
     (if sem_count sem > 0 then (sem\<lparr>sem_count := sem_count sem - 1\<rparr>, Acquired)
      else down_common TASK_INTERRUPTIBLE sig fatal MAX_SCHEDULE_TIMEOUT t sem)"

definition down_killable :: "bool \<Rightarrow> bool \<Rightarrow> task \<Rightarrow> semaphore \<Rightarrow> semaphore \<times> down_result" where
  "down_killable sig fatal t sem =
     (if sem_count sem > 0 then (sem\<lparr>sem_count := sem_count sem - 1\<rparr>, Acquired)
      else down_common TASK_KILLABLE sig fatal MAX_SCHEDULE_TIMEOUT t sem)"

definition down_timeout :: "int \<Rightarrow> bool \<Rightarrow> bool \<Rightarrow> task \<Rightarrow> semaphore \<Rightarrow> semaphore \<times> down_result" where
  "down_timeout jiffies sig fatal t sem =
     (if sem_count sem > 0 then (sem\<lparr>sem_count := sem_count sem - 1\<rparr>, Acquired)
      else down_common TASK_UNINTERRUPTIBLE sig fatal jiffies t sem)"

text \<open>\<^verbatim>\<open>down_trylock\<close>: the subtraction is unsigned, the comparison signed; \<open>True\<close> means not acquired.\<close>

definition down_trylock :: "semaphore \<Rightarrow> semaphore \<times> bool" where
  "down_trylock sem =
     (let cnt = sem_count sem - 1 in
      if sint cnt \<ge> 0 then (sem\<lparr>sem_count := cnt\<rparr>, False) else (sem, True))"

text \<open>\<^verbatim>\<open>up\<close> and \<^verbatim>\<open>__up\<close>: the second component is the task whose \<^verbatim>\<open>waiter.up\<close> is set.\<close>

definition up_waiter :: "semaphore \<Rightarrow> semaphore \<times> task option" where
  "up_waiter sem =
     (case sem_wait_list sem of
        [] \<Rightarrow> (sem, None)
      | t # ts \<Rightarrow> (sem\<lparr>sem_wait_list := ts\<rparr>, Some t))"

definition up :: "semaphore \<Rightarrow> semaphore \<times> task option" where
  "up sem =
     (if sem_wait_list sem = [] then (sem\<lparr>sem_count := sem_count sem + 1\<rparr>, None) else up_waiter sem)"

text \<open>
  The system: each task is outside, asleep in the loop (with its state, timeout and whether \<^verbatim>\<open>waiter.up\<close>
  has been set), or holds the semaphore. \<open>sys_tokens\<close> counts the initial value and every \<^verbatim>\<open>up\<close> by a task that
  did not hold it.
\<close>

datatype sem_phase = Outside | Asleep task_state int bool | Owner

record sem_system =
  sys_sem :: semaphore
  sys_phase :: "task \<Rightarrow> sem_phase"
  sys_tokens :: nat

fun after_down :: "task_state \<Rightarrow> down_result \<Rightarrow> sem_phase" where
  "after_down state Acquired = Owner"
| "after_down state (Failed e) = Outside"
| "after_down state (Sleeping timeout) = Asleep state timeout False"

fun set_up :: "sem_phase \<Rightarrow> sem_phase" where
  "set_up (Asleep state timeout _) = Asleep state timeout True"
| "set_up p = p"

definition grant_opt :: "task option \<Rightarrow> (task \<Rightarrow> sem_phase) \<Rightarrow> task \<Rightarrow> sem_phase" where
  "grant_opt w ph = (case w of None \<Rightarrow> ph | Some t \<Rightarrow> ph(t := set_up (ph t)))"

inductive sem_step :: "sem_system \<Rightarrow> sem_system \<Rightarrow> bool" where
  down: "ph t = Outside \<Longrightarrow> down sig fatal t sem = (sem', r) \<Longrightarrow>
    sem_step \<lparr>sys_sem = sem, sys_phase = ph, sys_tokens = n\<rparr>
      \<lparr>sys_sem = sem', sys_phase = ph(t := after_down TASK_UNINTERRUPTIBLE r), sys_tokens = n\<rparr>"
| down_interruptible: "ph t = Outside \<Longrightarrow> down_interruptible sig fatal t sem = (sem', r) \<Longrightarrow>
    sem_step \<lparr>sys_sem = sem, sys_phase = ph, sys_tokens = n\<rparr>
      \<lparr>sys_sem = sem', sys_phase = ph(t := after_down TASK_INTERRUPTIBLE r), sys_tokens = n\<rparr>"
| down_killable: "ph t = Outside \<Longrightarrow> down_killable sig fatal t sem = (sem', r) \<Longrightarrow>
    sem_step \<lparr>sys_sem = sem, sys_phase = ph, sys_tokens = n\<rparr>
      \<lparr>sys_sem = sem', sys_phase = ph(t := after_down TASK_KILLABLE r), sys_tokens = n\<rparr>"
| down_timeout: "ph t = Outside \<Longrightarrow> down_timeout jiffies sig fatal t sem = (sem', r) \<Longrightarrow>
    sem_step \<lparr>sys_sem = sem, sys_phase = ph, sys_tokens = n\<rparr>
      \<lparr>sys_sem = sem', sys_phase = ph(t := after_down TASK_UNINTERRUPTIBLE r), sys_tokens = n\<rparr>"
| down_trylock: "ph t = Outside \<Longrightarrow> down_trylock sem = (sem', failed) \<Longrightarrow>
    sem_step \<lparr>sys_sem = sem, sys_phase = ph, sys_tokens = n\<rparr>
      \<lparr>sys_sem = sem', sys_phase = ph(t := if failed then Outside else Owner), sys_tokens = n\<rparr>"
| wakeup: "ph t = Asleep state timeout b \<Longrightarrow> down_wakeup state sig fatal elapsed timeout b t sem = (sem', r) \<Longrightarrow>
    sem_step \<lparr>sys_sem = sem, sys_phase = ph, sys_tokens = n\<rparr>
      \<lparr>sys_sem = sem', sys_phase = ph(t := after_down state r), sys_tokens = n\<rparr>"
| up: "ph t = Owner \<Longrightarrow> up sem = (sem', w) \<Longrightarrow>
    sem_step \<lparr>sys_sem = sem, sys_phase = ph, sys_tokens = n\<rparr>
      \<lparr>sys_sem = sem', sys_phase = grant_opt w (ph(t := Outside)), sys_tokens = n\<rparr>"
| up_other: "up sem = (sem', w) \<Longrightarrow> n + 1 < 2 ^ 32 \<Longrightarrow>
    sem_step \<lparr>sys_sem = sem, sys_phase = ph, sys_tokens = n\<rparr>
      \<lparr>sys_sem = sem', sys_phase = grant_opt w ph, sys_tokens = n + 1\<rparr>"

definition sem_init :: "sem_system \<Rightarrow> bool" where
  "sem_init s \<longleftrightarrow> (\<exists>val. s = \<lparr>sys_sem = sema_init val, sys_phase = (\<lambda>_. Outside), sys_tokens = unat val\<rparr>)"

text \<open>
  The invariant: the tokens are exactly the counter, the owners and the sleepers whose \<^verbatim>\<open>waiter.up\<close> is set;
  the queue holds the other sleepers, once each; tasks queue only while the counter is zero.
\<close>

fun owner :: "sem_phase \<Rightarrow> bool" where
  "owner Outside \<longleftrightarrow> False"
| "owner (Asleep st to b) \<longleftrightarrow> b"
| "owner Owner \<longleftrightarrow> True"

definition owners :: "(task \<Rightarrow> sem_phase) \<Rightarrow> task set" where
  "owners ph = {t. owner (ph t)}"

fun queued :: "sem_phase \<Rightarrow> bool" where
  "queued (Asleep st to b) \<longleftrightarrow> \<not> b"
| "queued p \<longleftrightarrow> False"

definition sem_queue_ok :: "task list \<Rightarrow> (task \<Rightarrow> sem_phase) \<Rightarrow> bool" where
  "sem_queue_ok ts ph \<longleftrightarrow> distinct ts \<and> (\<forall>t. t \<in> set ts \<longleftrightarrow> queued (ph t))"

definition sem_inv :: "sem_system \<Rightarrow> bool" where
  "sem_inv s \<longleftrightarrow> finite (owners (sys_phase s)) \<and>
     unat (sem_count (sys_sem s)) + card (owners (sys_phase s)) = sys_tokens s \<and> sys_tokens s < 2 ^ 32 \<and>
     sem_queue_ok (sem_wait_list (sys_sem s)) (sys_phase s) \<and>
     (sem_wait_list (sys_sem s) \<noteq> [] \<longrightarrow> sem_count (sys_sem s) = 0)"

text \<open>One task owns a mutex, another waits for it for at most five jiffies.\<close>

definition sem_example :: sem_system where
  "sem_example = \<lparr>sys_sem = \<lparr>sem_count = 0, sem_wait_list = [2]\<rparr>,
     sys_phase = (\<lambda>_. Outside)(1 := Owner, 2 := Asleep TASK_UNINTERRUPTIBLE 5 False), sys_tokens = 1\<rparr>"

section \<open>Lemmas\<close>

lemma owners_upd:
  "owners (ph(t := p)) = (if owner p then insert t (owners ph) else owners ph - {t})"
  by (auto simp: owners_def)

lemma queued_not_owner: "queued p \<Longrightarrow> \<not> owner p"
  by (cases p) auto

lemma sem_queue_ok_upd: "sem_queue_ok ts ph \<Longrightarrow> queued p = queued (ph t) \<Longrightarrow> sem_queue_ok ts (ph(t := p))"
  by (auto simp: sem_queue_ok_def)

lemma sem_queue_ok_remove: "sem_queue_ok ts ph \<Longrightarrow> \<not> queued p \<Longrightarrow> sem_queue_ok (remove1 t ts) (ph(t := p))"
  by (auto simp: sem_queue_ok_def)

lemma sem_queue_ok_snoc: "sem_queue_ok ts ph \<Longrightarrow> \<not> queued (ph t) \<Longrightarrow> queued p \<Longrightarrow> sem_queue_ok (ts @ [t]) (ph(t := p))"
  by (auto simp: sem_queue_ok_def)

lemma remove1_snoc [simp]: "t \<notin> set ts \<Longrightarrow> remove1 t (ts @ [t]) = ts"
  by (induction ts) auto

text \<open>Taking a free token.\<close>

lemma take_token_inv:
  assumes "sem_inv \<lparr>sys_sem = sem, sys_phase = ph, sys_tokens = n\<rparr>" "ph t = Outside" "0 < sem_count sem"
  shows "sem_inv \<lparr>sys_sem = sem\<lparr>sem_count := sem_count sem - 1\<rparr>, sys_phase = ph(t := Owner), sys_tokens = n\<rparr>"
proof -
  have "t \<notin> owners ph" using assms(2) by (simp add: owners_def)
  moreover have "sem_wait_list sem = []" using assms(1,3) by (auto simp: sem_inv_def)
  ultimately show ?thesis using assms unat_minus_1[OF assms(3)] sem_queue_ok_upd[of "[]" ph Owner t]
    by (auto simp: sem_inv_def owners_upd)
qed

text \<open>The loop on a queued task: it leaves the queue with an error, or stays asleep.\<close>

lemma down_loop_inv:
  assumes inv: "sem_inv \<lparr>sys_sem = sem, sys_phase = ph, sys_tokens = n\<rparr>" and t: "queued (ph t)"
    and r: "down_loop state sig fatal timeout t sem = (sem', r)"
  shows "sem_inv \<lparr>sys_sem = sem', sys_phase = ph(t := after_down state r), sys_tokens = n\<rparr>"
proof -
  have o: "t \<notin> owners ph" using queued_not_owner[OF t] by (simp add: owners_def)
  have "r = Sleeping timeout \<and> sem' = sem \<or>
      (\<exists>e. r = Failed e) \<and> sem' = sem\<lparr>sem_wait_list := remove1 t (sem_wait_list sem)\<rparr>"
    using r by (auto simp: down_loop_def split: if_splits)
  then show ?thesis
  proof
    assume "r = Sleeping timeout \<and> sem' = sem"
    then show ?thesis using inv t o sem_queue_ok_upd[of "sem_wait_list sem" ph _ t] by (simp add: sem_inv_def owners_upd)
  next
    assume "(\<exists>e. r = Failed e) \<and> sem' = sem\<lparr>sem_wait_list := remove1 t (sem_wait_list sem)\<rparr>"
    then show ?thesis using inv o sem_queue_ok_remove[of "sem_wait_list sem" ph Outside t] by (auto simp: sem_inv_def owners_upd)
  qed
qed

lemma enqueue_inv:
  assumes "sem_inv \<lparr>sys_sem = sem, sys_phase = ph, sys_tokens = n\<rparr>" "ph t = Outside" "sem_count sem = 0"
  shows "sem_inv \<lparr>sys_sem = sem\<lparr>sem_wait_list := sem_wait_list sem @ [t]\<rparr>, sys_phase = ph(t := Asleep st to False), sys_tokens = n\<rparr>"
proof -
  have "t \<notin> owners ph" using assms(2) by (simp add: owners_def)
  then show ?thesis using assms sem_queue_ok_snoc[of "sem_wait_list sem" ph t "Asleep st to False"]
    by (simp add: sem_inv_def owners_upd)
qed

lemma down_common_inv:
  assumes "sem_inv \<lparr>sys_sem = sem, sys_phase = ph, sys_tokens = n\<rparr>" "ph t = Outside" "sem_count sem = 0"
    "down_common state sig fatal timeout t sem = (sem', r)"
  shows "sem_inv \<lparr>sys_sem = sem', sys_phase = ph(t := after_down state r), sys_tokens = n\<rparr>"
  using down_loop_inv[OF enqueue_inv[OF assms(1-3), of state timeout], of t state sig fatal timeout sem' r] assms(4)
  by (simp add: down_common_def)

lemma down_any_inv:
  assumes "sem_inv \<lparr>sys_sem = sem, sys_phase = ph, sys_tokens = n\<rparr>" "ph t = Outside"
    "(if sem_count sem > 0 then (sem\<lparr>sem_count := sem_count sem - 1\<rparr>, Acquired)
      else down_common state sig fatal timeout t sem) = (sem', r)"
  shows "sem_inv \<lparr>sys_sem = sem', sys_phase = ph(t := after_down state r), sys_tokens = n\<rparr>"
  using assms take_token_inv[OF assms(1,2)] down_common_inv[OF assms(1,2)]
  by (auto split: if_splits simp: word_gt_0)

lemma down_trylock_inv:
  assumes "sem_inv \<lparr>sys_sem = sem, sys_phase = ph, sys_tokens = n\<rparr>" "ph t = Outside" "down_trylock sem = (sem', failed)"
  shows "sem_inv \<lparr>sys_sem = sem', sys_phase = ph(t := if failed then Outside else Owner), sys_tokens = n\<rparr>"
proof (cases "sint (sem_count sem - 1) \<ge> 0")
  case True
  then have "0 < sem_count sem" by (auto simp: word_gt_0)
  then show ?thesis using take_token_inv[OF assms(1,2)] True assms(3) by (auto simp: down_trylock_def)
next
  case False
  moreover have "ph(t := Outside) = ph" using assms(2) by auto
  ultimately show ?thesis using assms by (auto simp: down_trylock_def)
qed

text \<open>Handing over: the token of an owner, or a new one, goes to the head of the queue or the counter.\<close>

lemma up_inv:
  assumes inv: "finite (owners ph)" "unat (sem_count sem) + card (owners ph) + 1 = n" "n < 2 ^ 32"
    "sem_queue_ok (sem_wait_list sem) ph" "sem_wait_list sem \<noteq> [] \<longrightarrow> sem_count sem = 0"
    and up: "up sem = (sem', w)"
  shows "sem_inv \<lparr>sys_sem = sem', sys_phase = grant_opt w ph, sys_tokens = n\<rparr>"
proof (cases "sem_wait_list sem")
  case Nil
  have "unat (sem_count sem + 1) = unat (sem_count sem) + 1"
    using inv(2,3) by (simp add: unat_plus_if')
  then show ?thesis using assms Nil by (auto simp: up_def sem_inv_def grant_opt_def)
next
  case (Cons t ts)
  then have "queued (ph t)" using inv(4) by (auto simp: sem_queue_ok_def)
  then obtain st to where t: "ph t = Asleep st to False" by (cases "ph t") auto
  then have "t \<notin> owners ph" by (simp add: owners_def)
  then show ?thesis using assms Cons t sem_queue_ok_remove[of "t # ts" ph "Asleep st to True" t]
    by (auto simp: up_def up_waiter_def sem_inv_def grant_opt_def owners_upd)
qed

lemma sem_step_inv: "sem_step s s' \<Longrightarrow> sem_inv s \<Longrightarrow> sem_inv s'"
proof (induction rule: sem_step.induct)
  case (wakeup ph t state timeout b sig fatal elapsed sem sem' r n)
  show ?case
  proof (cases b)
    case True
    then have "owners (ph(t := Owner)) = owners ph" using wakeup(1) by (auto simp: owners_def)
    then show ?thesis using wakeup True sem_queue_ok_upd[of "sem_wait_list sem" ph Owner t]
      by (auto simp: down_wakeup_def sem_inv_def)
  next
    case False
    then show ?thesis using wakeup down_loop_inv[of sem ph n t state sig fatal] by (simp add: down_wakeup_def Let_def)
  qed
next
  case (up ph t sem sem' w n)
  have "t \<in> owners ph" using up(1) by (simp add: owners_def)
  then have "card (owners ph - {t}) + 1 = card (owners ph)"
    using up(3) card_Suc_Diff1[of "owners ph" t] by (simp add: sem_inv_def)
  then show ?case using up sem_queue_ok_upd[of "sem_wait_list sem" ph Outside t]
    by (intro up_inv[of _ sem]) (auto simp: sem_inv_def owners_upd)
next
  case (up_other sem sem' w n ph)
  then show ?case by (intro up_inv[of _ sem]) (auto simp: sem_inv_def)
next
  case (down ph t sig fatal sem sem' r n)
  from down_any_inv[OF down.prems down.hyps(1) down.hyps(2)[unfolded down_def]] show ?case .
next
  case (down_interruptible ph t sig fatal sem sem' r n)
  from down_any_inv[OF down_interruptible.prems down_interruptible.hyps(1) down_interruptible.hyps(2)[unfolded down_interruptible_def]] show ?case .
next
  case (down_killable ph t sig fatal sem sem' r n)
  from down_any_inv[OF down_killable.prems down_killable.hyps(1) down_killable.hyps(2)[unfolded down_killable_def]] show ?case .
next
  case (down_timeout ph t jiffies sig fatal sem sem' r n)
  from down_any_inv[OF down_timeout.prems down_timeout.hyps(1) down_timeout.hyps(2)[unfolded down_timeout_def]] show ?case .
next
  case (down_trylock ph t sem sem' failed n)
  from down_trylock_inv[OF down_trylock.prems down_trylock.hyps] show ?case .
qed

lemma sem_init_inv: "sem_init s \<Longrightarrow> sem_inv s"
  using unsigned_less[where ?'a = nat and ?'b = 32]
  by (auto simp: sem_init_def sem_inv_def sema_init_def owners_def sem_queue_ok_def)

interpretation semaphore: invariant_system sem_init sem_step sem_inv
  by unfold_locales (auto intro: sem_init_inv sem_step_inv)


lemma sem_queue_ok_filter: "sem_queue_ok ts ph \<Longrightarrow> remove1 t ts = filter (\<lambda>u. u \<noteq> t) ts"
  by (simp add: sem_queue_ok_def distinct_remove1_removeAll removeAll_filter_not_eq eq_commute cong: filter_cong)

lemma reach_sem_example: "reach sem_init sem_step sem_example"
proof -
  let ?p = "\<lambda>_. Outside"
  have 0: "reach sem_init sem_step \<lparr>sys_sem = sema_init 1, sys_phase = ?p, sys_tokens = 1\<rparr>"
    by (rule reach.start) (auto simp: sem_init_def intro: exI[of _ 1])
  have 1: "reach sem_init sem_step
      \<lparr>sys_sem = \<lparr>sem_count = 0, sem_wait_list = []\<rparr>, sys_phase = ?p(1 := Owner), sys_tokens = 1\<rparr>"
    using reach.step[OF 0 sem_step.down[of ?p 1 False False _ _ Acquired]]
    by (simp add: down_def sema_init_def)
  show ?thesis
    using reach.step[OF 1 sem_step.down_timeout[of _ 2 5 False False _ _ "Sleeping 5"]]
    by (simp add: down_timeout_def down_common_def down_loop_def sem_example_def)
qed

section \<open>Properties\<close>

text \<open>
  C17. Tokens are conserved: at every moment the counter, the tasks that own the semaphore and the
  sleepers it has been passed to add up to the initial value plus the extra \<open>up\<close> calls, so never more tasks
  own it than that; and a task sleeps without having been passed the semaphore only while the counter is
  zero, so no wake-up is lost to signals, timeouts or races.
\<close>

theorem semaphore_tokens:
  assumes "reach sem_init sem_step s"
  shows "unat (sem_count (sys_sem s)) +
      card {t. sys_phase s t = Owner \<or> (\<exists>st to. sys_phase s t = Asleep st to True)} = sys_tokens s \<and>
    ((\<exists>t st to. sys_phase s t = Asleep st to False) \<longrightarrow> sem_count (sys_sem s) = 0)"
proof -
  have inv: "sem_inv s" by (rule semaphore.reach_inv[OF assms])
  have "owner p \<longleftrightarrow> p = Owner \<or> (\<exists>st to. p = Asleep st to True)" for p by (cases p) auto
  then have "{t. sys_phase s t = Owner \<or> (\<exists>st to. sys_phase s t = Asleep st to True)} = owners (sys_phase s)"
    by (simp add: owners_def)
  moreover have "sem_wait_list (sys_sem s) \<noteq> []" if "sys_phase s t = Asleep st to False" for t st to
  proof -
    have "t \<in> set (sem_wait_list (sys_sem s))" using inv that by (simp add: sem_inv_def sem_queue_ok_def)
    then show ?thesis by auto
  qed
  ultimately show ?thesis using inv by (auto simp: sem_inv_def)
qed

theorem semaphore_tokens_witness:
  "unat (sem_count (sys_sem sem_example)) +
      card {t. sys_phase sem_example t = Owner \<or> (\<exists>st to. sys_phase sem_example t = Asleep st to True)} = sys_tokens sem_example \<and>
    sem_count (sys_sem sem_example) = 0"
proof -
  have "sys_phase sem_example 2 = Asleep TASK_UNINTERRUPTIBLE 5 False" by (simp add: sem_example_def)
  with semaphore_tokens[OF reach_sem_example] show ?thesis by blast
qed

text \<open>
  C18. A wait fails only for the documented reasons, and cleanly: the semaphore had not been passed to
  the task, an interruptible or killable sleep had a signal (\<open>EINTR\<close>) or the timeout ran out (\<open>ETIME\<close>); the
  task is off the queue, the others keep their order and the counter is untouched. In particular the plain
  \<open>down\<close> never fails.
\<close>

theorem semaphore_failure:
  assumes "reach sem_init sem_step s" and "sys_phase s t = Asleep state timeout b"
    and "down_wakeup state sig fatal elapsed timeout b t (sys_sem s) = (sem', Failed e)"
  shows "\<not> b \<and> sem_count sem' = sem_count (sys_sem s) \<and>
    sem_wait_list sem' = filter (\<lambda>u. u \<noteq> t) (sem_wait_list (sys_sem s)) \<and>
    (e = EINTR \<and> (state = TASK_INTERRUPTIBLE \<and> sig \<or> state = TASK_KILLABLE \<and> fatal) \<or>
     e = ETIME \<and> schedule_timeout elapsed timeout \<le> 0 \<and> timeout \<noteq> MAX_SCHEDULE_TIMEOUT)"
proof -
  have "sem_queue_ok (sem_wait_list (sys_sem s)) (sys_phase s)" using semaphore.reach_inv[OF assms(1)] by (simp add: sem_inv_def)
  note f = sem_queue_ok_filter[OF this, of t]
  have "schedule_timeout elapsed MAX_SCHEDULE_TIMEOUT > 0" by (simp add: schedule_timeout_def MAX_SCHEDULE_TIMEOUT_def)
  then show ?thesis using assms(3) f by (auto simp: down_wakeup_def down_loop_def Let_def split: if_splits)
qed

theorem semaphore_failure_witness:
  "down_wakeup TASK_UNINTERRUPTIBLE True True 6 5 False 2 (sys_sem sem_example) = (\<lparr>sem_count = 0, sem_wait_list = []\<rparr>, Failed ETIME) \<and>
   (ETIME = EINTR \<and> (TASK_UNINTERRUPTIBLE = TASK_INTERRUPTIBLE \<and> True \<or> TASK_UNINTERRUPTIBLE = TASK_KILLABLE \<and> True) \<or>
     ETIME = ETIME \<and> schedule_timeout 6 5 \<le> 0 \<and> (5 :: int) \<noteq> MAX_SCHEDULE_TIMEOUT)"
proof -
  have r: "down_wakeup TASK_UNINTERRUPTIBLE True True 6 5 False 2 (sys_sem sem_example) = (\<lparr>sem_count = 0, sem_wait_list = []\<rparr>, Failed ETIME)"
    by (simp add: down_wakeup_def down_loop_def schedule_timeout_def MAX_SCHEDULE_TIMEOUT_def sem_example_def)
  from semaphore_failure[OF reach_sem_example _ r] r show ?thesis by (simp add: sem_example_def)
qed

end
