(* ===== verification/Byte_Order.thy ===== *)
theory Byte_Order
  imports Kernel_Prelude
begin

unbundle bit_operations_syntax

text \<open>
  Multi-byte integers in memory (\<^verbatim>\<open>include/linux/byteorder\<close>, \<^verbatim>\<open>asm-generic/unaligned\<close>): the little-endian and
  big-endian 32-bit accessors as functions between words and byte lists, with their round trips, and
  arrays of equally sized blocks inside a byte buffer.
\<close>

section \<open>Model\<close>

fun le32_to_cpu :: "u8 list \<Rightarrow> u32" where
  "le32_to_cpu [b0, b1, b2, b3] =
     ucast b0 OR push_bit 8 (ucast b1) OR push_bit 16 (ucast b2) OR push_bit 24 (ucast b3)"
| "le32_to_cpu _ = 0"

definition cpu_to_le32 :: "u32 \<Rightarrow> u8 list" where
  "cpu_to_le32 w = [ucast w, ucast (drop_bit 8 w), ucast (drop_bit 16 w), ucast (drop_bit 24 w)]"

definition be32_to_cpu :: "u8 list \<Rightarrow> u32" where
  "be32_to_cpu bs = le32_to_cpu (rev bs)"

definition cpu_to_be32 :: "u32 \<Rightarrow> u8 list" where
  "cpu_to_be32 w = rev (cpu_to_le32 w)"

text \<open>Reading and writing \<open>n\<close> bytes at an offset; \<open>None\<close> is an access outside the buffer.\<close>

definition rd :: "nat \<Rightarrow> nat \<Rightarrow> u8 list \<Rightarrow> u8 list option" where
  "rd n off xs = (if off + n \<le> length xs then Some (take n (drop off xs)) else None)"

definition wr :: "nat \<Rightarrow> u8 list \<Rightarrow> u8 list \<Rightarrow> u8 list option" where
  "wr off ys xs =
     (if off + length ys \<le> length xs then Some (take off xs @ ys @ drop (off + length ys) xs) else None)"

text \<open>A buffer as its whole blocks and the bytes behind them.\<close>

definition blocks :: "nat \<Rightarrow> u8 list list \<Rightarrow> bool" where
  "blocks n bl \<longleftrightarrow> (\<forall>b \<in> set bl. length b = n)"

section \<open>Lemmas\<close>

lemma length_cpu_to_le32 [simp]: "length (cpu_to_le32 w) = 4" "length (cpu_to_be32 w) = 4"
  by (simp_all add: cpu_to_le32_def cpu_to_be32_def)

lemma le32_cpu_le32 [simp]: "le32_to_cpu (cpu_to_le32 w) = w"
proof (rule bit_word_eqI)
  fix n assume n: "n < LENGTH(32)"
  then consider "n < 8" | "8 \<le> n" "n < 16" | "16 \<le> n" "n < 24" | "24 \<le> n" "n < 32" by fastforce
  then show "bit (le32_to_cpu (cpu_to_le32 w)) n \<longleftrightarrow> bit w n"
    by cases (auto simp: cpu_to_le32_def bit_simps)
qed

lemma be32_cpu_be32 [simp]: "be32_to_cpu (cpu_to_be32 w) = w"
  by (simp add: be32_to_cpu_def cpu_to_be32_def)

lemma length4E:
  assumes "length (bs :: u8 list) = 4"
  obtains b0 b1 b2 b3 where "bs = [b0, b1, b2, b3]"
proof -
  have "bs = [bs ! 0, bs ! 1, bs ! 2, bs ! 3]"
    using assms by (intro nth_equalityI) (auto simp: less_Suc_eq numeral_eq_Suc)
  then show ?thesis by (rule that)
qed

lemma cpu_le32_le32 [simp]:
  assumes "length bs = 4"
  shows "cpu_to_le32 (le32_to_cpu bs) = bs"
proof -
  obtain b0 b1 b2 b3 where bs: "bs = [b0, b1, b2, b3]" using assms by (rule length4E)
  have "ucast (le32_to_cpu bs) = b0" "ucast (drop_bit 8 (le32_to_cpu bs)) = b1"
    "ucast (drop_bit 16 (le32_to_cpu bs)) = b2" "ucast (drop_bit 24 (le32_to_cpu bs)) = b3"
    unfolding bs by (rule bit_word_eqI, force simp: bit_simps dest: bit_imp_le_length)+
  then show ?thesis by (simp add: cpu_to_le32_def bs)
qed

lemma cpu_be32_be32 [simp]: "length bs = 4 \<Longrightarrow> cpu_to_be32 (be32_to_cpu bs) = bs"
  by (simp add: be32_to_cpu_def cpu_to_be32_def)

text \<open>Block access on a buffer of blocks.\<close>

lemma blocks_length [simp]: "blocks n bl \<Longrightarrow> length (concat bl) = length bl * n"
  by (induction bl) (auto simp: blocks_def)

lemma blocks_simps [simp]: "blocks n []" "blocks n (b # bl) \<longleftrightarrow> length b = n \<and> blocks n bl"
  "blocks n (bl @ cl) \<longleftrightarrow> blocks n bl \<and> blocks n cl"
  by (auto simp: blocks_def)

lemma blocks_nth [simp]: "blocks n bl \<Longrightarrow> i < length bl \<Longrightarrow> length (bl ! i) = n"
  by (auto simp: blocks_def)

lemma blocks_update [simp]: "blocks n bl \<Longrightarrow> length b = n \<Longrightarrow> blocks n (bl[i := b])"
  by (auto simp: blocks_def dest: set_update_subset_insert[THEN subsetD])

lemma blocks_take_drop: "blocks n bl \<Longrightarrow> blocks n (take i bl)" "blocks n bl \<Longrightarrow> blocks n (drop i bl)"
  by (auto simp: blocks_def dest: in_set_takeD in_set_dropD)

lemma take_concat_blocks: "blocks n bl \<Longrightarrow> i \<le> length bl \<Longrightarrow> take (i * n) (concat bl @ xs) = concat (take i bl)"
proof (induction i arbitrary: bl)
  case (Suc i)
  then show ?case by (cases bl) auto
qed simp

lemma drop_concat_blocks: "blocks n bl \<Longrightarrow> i \<le> length bl \<Longrightarrow> drop (i * n) (concat bl @ xs) = concat (drop i bl) @ xs"
proof (induction i arbitrary: bl)
  case (Suc i)
  then show ?case by (cases bl) auto
qed simp

lemma rd_block:
  assumes "blocks n bl" "i < length bl"
  shows "rd n (i * n) (concat bl @ xs) = Some (bl ! i)"
proof -
  have "i * n + n \<le> length bl * n" using mult_le_mono1[of "Suc i" "length bl" n] assms(2) by simp
  moreover have "drop i bl = bl ! i # drop (Suc i) bl" using assms(2) by (simp add: Cons_nth_drop_Suc)
  ultimately show ?thesis using assms drop_concat_blocks[of n bl i xs] by (simp add: rd_def)
qed

lemma wr_block:
  assumes "blocks n bl" "i < length bl" "length b = n"
  shows "wr (i * n) b (concat bl @ xs) = Some (concat (bl[i := b]) @ xs)"
proof -
  have "i * n + n \<le> length bl * n" using mult_le_mono1[of "Suc i" "length bl" n] assms(2) by simp
  moreover have "drop (i * n + n) (concat bl @ xs) = concat (drop (Suc i) bl) @ xs"
    using drop_concat_blocks[of n bl "Suc i" xs] assms by (simp add: add.commute)
  ultimately show ?thesis using assms take_concat_blocks[of n bl i xs]
    by (simp add: wr_def upd_conv_take_nth_drop)
qed

end
