(* ===== verification/Crypto_Modes.thy ===== *)
theory Crypto_Modes
  imports Crypto_Cipher
begin

unbundle bit_operations_syntax

text \<open>
  Modes of operation: ECB, CBC, PCBC and CTR (\<^verbatim>\<open>crypto/ecb.c\<close>, \<^verbatim>\<open>cbc.c\<close>, \<^verbatim>\<open>pcbc.c\<close>, \<^verbatim>\<open>ctr.c\<close>) over any block cipher,
  with \<^verbatim>\<open>crypto_xor\<close> and \<^verbatim>\<open>crypto_inc\<close> of \<^verbatim>\<open>crypto/algapi.c\<close>. Each mode has a variant for separate buffers and one
  that works in place; a request is processed in the chunks in which the scatterlist walk presents it.
  The walk itself (\<^verbatim>\<open>crypto/blkcipher.c\<close>) is a parameter: the list of chunk sizes it offers and, for each,
  whether source and destination are the same memory.
\<close>

section \<open>Model\<close>

subsection \<open>Byte string helpers\<close>

text \<open>\<^verbatim>\<open>crypto_xor\<close> on the \<open>size\<close> bytes at two addresses, word by word, then byte by byte.\<close>

fun crypto_xor_byte :: "u8 list \<Rightarrow> u8 list \<Rightarrow> u8 list" where
  "crypto_xor_byte (a # as) (b # bs) = (a XOR b) # crypto_xor_byte as bs"
| "crypto_xor_byte as _ = as"

fun crypto_xor :: "u8 list \<Rightarrow> u8 list \<Rightarrow> u8 list" where
  "crypto_xor (a0 # a1 # a2 # a3 # as) (b0 # b1 # b2 # b3 # bs) =
     cpu_to_le32 (le32_to_cpu [a0, a1, a2, a3] XOR le32_to_cpu [b0, b1, b2, b3]) @ crypto_xor as bs"
| "crypto_xor as bs = crypto_xor_byte as bs"

text \<open>
  \<^verbatim>\<open>crypto_inc\<close> walks down from the last byte: the list is reversed, four bytes at a time form a big-endian
  word, the carry goes on to the next word, then to the remaining bytes.
\<close>

fun crypto_inc_byte :: "u8 list \<Rightarrow> u8 list" where
  "crypto_inc_byte [] = []"
| "crypto_inc_byte (b # bs) = (let c = b + 1 in if c \<noteq> 0 then c # bs else c # crypto_inc_byte bs)"

fun crypto_inc_word :: "u8 list \<Rightarrow> u8 list" where
  "crypto_inc_word (b3 # b2 # b1 # b0 # bs) =
     (let c = be32_to_cpu [b0, b1, b2, b3] + 1; w = rev (cpu_to_be32 c)
      in if c \<noteq> 0 then w @ bs else w @ crypto_inc_word bs)"
| "crypto_inc_word bs = crypto_inc_byte bs"

definition crypto_inc :: "u8 list \<Rightarrow> u8 list" where
  "crypto_inc a = rev (crypto_inc_word (rev a))"

subsection \<open>Loops over the blocks of a chunk\<close>

text \<open>
  The loop all modes share: \<^verbatim>\<open>do { body; src += bsize; dst += bsize; } while ((nbytes -= bsize) >= bsize)\<close>. It
  returns the state and the bytes left over; \<open>None\<close> is an access outside the buffers, or the wrap-around of
  \<^verbatim>\<open>nbytes\<close> on a chunk shorter than a block.
\<close>

function walk_loop :: "nat \<Rightarrow> (nat \<Rightarrow> 's \<Rightarrow> 's option) \<Rightarrow> nat \<Rightarrow> nat \<Rightarrow> 's \<Rightarrow> ('s \<times> nat) option" where
  "walk_loop bsize body nbytes off st =
     (if bsize = 0 \<or> nbytes < bsize then None
      else
        (case body off st of
           None \<Rightarrow> None
         | Some st \<Rightarrow>
             if nbytes - bsize \<ge> bsize then walk_loop bsize body (nbytes - bsize) (off + bsize) st
             else Some (st, nbytes - bsize)))"
  by pat_completeness auto

termination walk_loop
  by (relation "measure (\<lambda>(bsize, body, nbytes, off, st). nbytes)") auto

declare walk_loop.simps [simp del]

text \<open>The loop bodies read a block, compute, and write a block; the state is a buffer and the IV.\<close>

type_synonym chunk_result = "(u8 list \<times> u8 list \<times> nat) option"

definition finish :: "((u8 list \<times> u8 list) \<times> nat) option \<Rightarrow> chunk_result" where
  "finish r = (case r of None \<Rightarrow> None | Some ((buf, iv), nbytes) \<Rightarrow> Some (buf, iv, nbytes))"

text \<open>ECB: the inner loop of \<^verbatim>\<open>crypto_ecb_crypt\<close>.\<close>

definition ecb_crypt :: "nat \<Rightarrow> (u8 list \<Rightarrow> u8 list) \<Rightarrow> bool \<Rightarrow> nat \<Rightarrow> u8 list \<Rightarrow> u8 list \<Rightarrow> u8 list \<Rightarrow> chunk_result" where
  "ecb_crypt bsize fn inplace nbytes src dst iv =
     finish (walk_loop bsize (\<lambda>off (dst, iv).
       case rd bsize off (if inplace then dst else src) of
         None \<Rightarrow> None
       | Some s \<Rightarrow> map_option (\<lambda>d. (d, iv)) (wr off (fn s) dst)) nbytes 0 (if inplace then src else dst, iv))"

text \<open>CBC.\<close>

definition cbc_encrypt_segment :: "nat \<Rightarrow> (u8 list \<Rightarrow> u8 list) \<Rightarrow> nat \<Rightarrow> u8 list \<Rightarrow> u8 list \<Rightarrow> u8 list \<Rightarrow> chunk_result" where
  "cbc_encrypt_segment bsize fn nbytes src dst iv =
     finish (walk_loop bsize (\<lambda>off (dst, iv).
       case rd bsize off src of
         None \<Rightarrow> None
       | Some s \<Rightarrow>
           let iv = crypto_xor iv s; c = fn iv
           in map_option (\<lambda>dst. (dst, c)) (wr off c dst)) nbytes 0 (dst, iv))"

definition cbc_encrypt_inplace :: "nat \<Rightarrow> (u8 list \<Rightarrow> u8 list) \<Rightarrow> nat \<Rightarrow> u8 list \<Rightarrow> u8 list \<Rightarrow> chunk_result" where
  "cbc_encrypt_inplace bsize fn nbytes src iv =
     finish (walk_loop bsize (\<lambda>off (src, iv).
       case rd bsize off src of
         None \<Rightarrow> None
       | Some s \<Rightarrow>
           let c = fn (crypto_xor s iv)
           in map_option (\<lambda>src. (src, c)) (wr off c src)) nbytes 0 (src, iv))"

definition cbc_decrypt_segment :: "nat \<Rightarrow> (u8 list \<Rightarrow> u8 list) \<Rightarrow> nat \<Rightarrow> u8 list \<Rightarrow> u8 list \<Rightarrow> u8 list \<Rightarrow> chunk_result" where
  "cbc_decrypt_segment bsize fn nbytes src dst iv =
     finish (walk_loop bsize (\<lambda>off (dst, iv).
       case rd bsize off src of
         None \<Rightarrow> None
       | Some s \<Rightarrow>
           let d = crypto_xor (fn s) iv
           in map_option (\<lambda>dst. (dst, s)) (wr off d dst)) nbytes 0 (dst, iv))"

text \<open>
  Decryption in place runs backwards, because each block needs the previous ciphertext block; the loop
  returns the buffer, the offset of the first block and the bytes left.
\<close>

function cbc_decrypt_back :: "nat \<Rightarrow> (u8 list \<Rightarrow> u8 list) \<Rightarrow> nat \<Rightarrow> nat \<Rightarrow> u8 list \<Rightarrow> (u8 list \<times> nat \<times> nat) option" where
  "cbc_decrypt_back bsize fn nbytes off buf =
     (if bsize = 0 \<or> nbytes < bsize then None
      else
        (case rd bsize off buf of
           None \<Rightarrow> None
         | Some s \<Rightarrow>
             if nbytes - bsize < bsize then
               map_option (\<lambda>buf. (buf, off, nbytes - bsize)) (wr off (fn s) buf)
             else if off < bsize then None
             else
               (case rd bsize (off - bsize) buf of
                  None \<Rightarrow> None
                | Some prev \<Rightarrow>
                    (case wr off (crypto_xor (fn s) prev) buf of
                       None \<Rightarrow> None
                     | Some buf \<Rightarrow> cbc_decrypt_back bsize fn (nbytes - bsize) (off - bsize) buf))))"
  by pat_completeness auto

termination cbc_decrypt_back
  by (relation "measure (\<lambda>(bsize, fn, nbytes, off, buf). nbytes)") auto

declare cbc_decrypt_back.simps [simp del]

definition cbc_decrypt_inplace :: "nat \<Rightarrow> (u8 list \<Rightarrow> u8 list) \<Rightarrow> nat \<Rightarrow> u8 list \<Rightarrow> u8 list \<Rightarrow> chunk_result" where
  "cbc_decrypt_inplace bsize fn nbytes src iv =
     (let start = nbytes - (nbytes AND (bsize - 1)) - bsize in
      case rd bsize start src of
        None \<Rightarrow> None
      | Some last_iv \<Rightarrow>
          (case cbc_decrypt_back bsize fn nbytes start src of
             None \<Rightarrow> None
           | Some (buf, off, left) \<Rightarrow>
               (case rd bsize off buf of
                  None \<Rightarrow> None
                | Some s \<Rightarrow>
                    map_option (\<lambda>buf. (buf, last_iv, left)) (wr off (crypto_xor s iv) buf))))"

text \<open>PCBC.\<close>

definition pcbc_encrypt_segment :: "nat \<Rightarrow> (u8 list \<Rightarrow> u8 list) \<Rightarrow> nat \<Rightarrow> u8 list \<Rightarrow> u8 list \<Rightarrow> u8 list \<Rightarrow> chunk_result" where
  "pcbc_encrypt_segment bsize fn nbytes src dst iv =
     finish (walk_loop bsize (\<lambda>off (dst, iv).
       case rd bsize off src of
         None \<Rightarrow> None
       | Some s \<Rightarrow>
           let iv = crypto_xor iv s; c = fn iv
           in map_option (\<lambda>dst. (dst, crypto_xor c s)) (wr off c dst)) nbytes 0 (dst, iv))"

definition pcbc_encrypt_inplace :: "nat \<Rightarrow> (u8 list \<Rightarrow> u8 list) \<Rightarrow> nat \<Rightarrow> u8 list \<Rightarrow> u8 list \<Rightarrow> chunk_result" where
  "pcbc_encrypt_inplace bsize fn nbytes src iv =
     finish (walk_loop bsize (\<lambda>off (src, iv).
       case rd bsize off src of
         None \<Rightarrow> None
       | Some tmpbuf \<Rightarrow>
           let iv = crypto_xor iv tmpbuf; c = fn iv
           in map_option (\<lambda>src. (src, crypto_xor tmpbuf c)) (wr off c src)) nbytes 0 (src, iv))"

definition pcbc_decrypt_segment :: "nat \<Rightarrow> (u8 list \<Rightarrow> u8 list) \<Rightarrow> nat \<Rightarrow> u8 list \<Rightarrow> u8 list \<Rightarrow> u8 list \<Rightarrow> chunk_result" where
  "pcbc_decrypt_segment bsize fn nbytes src dst iv =
     finish (walk_loop bsize (\<lambda>off (dst, iv).
       case rd bsize off src of
         None \<Rightarrow> None
       | Some s \<Rightarrow>
           let d = crypto_xor (fn s) iv
           in map_option (\<lambda>dst. (dst, crypto_xor s d)) (wr off d dst)) nbytes 0 (dst, iv))"

definition pcbc_decrypt_inplace :: "nat \<Rightarrow> (u8 list \<Rightarrow> u8 list) \<Rightarrow> nat \<Rightarrow> u8 list \<Rightarrow> u8 list \<Rightarrow> chunk_result" where
  "pcbc_decrypt_inplace bsize fn nbytes src iv =
     finish (walk_loop bsize (\<lambda>off (src, iv).
       case rd bsize off src of
         None \<Rightarrow> None
       | Some tmpbuf \<Rightarrow>
           let d = crypto_xor (fn tmpbuf) iv
           in map_option (\<lambda>src. (src, crypto_xor tmpbuf d)) (wr off d src)) nbytes 0 (src, iv))"

text \<open>CTR; the last chunk may be shorter than a block.\<close>

definition ctr_crypt_segment :: "nat \<Rightarrow> (u8 list \<Rightarrow> u8 list) \<Rightarrow> nat \<Rightarrow> u8 list \<Rightarrow> u8 list \<Rightarrow> u8 list \<Rightarrow> chunk_result" where
  "ctr_crypt_segment bsize fn nbytes src dst ctrblk =
     finish (walk_loop bsize (\<lambda>off (dst, ctrblk).
       case rd bsize off src of
         None \<Rightarrow> None
       | Some s \<Rightarrow>
           map_option (\<lambda>dst. (dst, crypto_inc ctrblk)) (wr off (crypto_xor (fn ctrblk) s) dst)) nbytes 0 (dst, ctrblk))"

definition ctr_crypt_inplace :: "nat \<Rightarrow> (u8 list \<Rightarrow> u8 list) \<Rightarrow> nat \<Rightarrow> u8 list \<Rightarrow> u8 list \<Rightarrow> chunk_result" where
  "ctr_crypt_inplace bsize fn nbytes src ctrblk =
     finish (walk_loop bsize (\<lambda>off (src, ctrblk).
       case rd bsize off src of
         None \<Rightarrow> None
       | Some s \<Rightarrow>
           let keystream = fn ctrblk
           in map_option (\<lambda>src. (src, crypto_inc ctrblk)) (wr off (crypto_xor s keystream) src)) nbytes 0 (src, ctrblk))"

definition ctr_crypt_final :: "(u8 list \<Rightarrow> u8 list) \<Rightarrow> nat \<Rightarrow> u8 list \<Rightarrow> u8 list \<Rightarrow> chunk_result" where
  "ctr_crypt_final fn nbytes src ctrblk =
     (let keystream = fn ctrblk in
      if nbytes \<le> length src \<and> nbytes \<le> length keystream then
        Some (crypto_xor (take nbytes keystream) (take nbytes src), crypto_inc ctrblk, 0)
      else None)"

subsection \<open>Requests\<close>

text \<open>
  The outer loop of \<^verbatim>\<open>crypto_cbc_encrypt\<close> and its siblings: as long as the chunk the walk offers (its
  size, and whether it is processed in place) passes the test \<open>go\<close>, run the mode on it and advance by what
  it consumed. The result has the chunks not taken, the offset reached, the destination and the IV.
\<close>

fun walk_crypt :: "(nat \<Rightarrow> bool) \<Rightarrow> (bool \<Rightarrow> nat \<Rightarrow> u8 list \<Rightarrow> u8 list \<Rightarrow> u8 list \<Rightarrow> chunk_result) \<Rightarrow>
    (nat \<times> bool) list \<Rightarrow> nat \<Rightarrow> u8 list \<Rightarrow> u8 list \<Rightarrow> u8 list \<Rightarrow>
    ((nat \<times> bool) list \<times> nat \<times> u8 list \<times> u8 list) option" where
  "walk_crypt go crypt [] off src dst iv = Some ([], off, dst, iv)"
| "walk_crypt go crypt ((n, inplace) # chunks) off src dst iv =
     (if go n then
        (case (rd n off src, rd n off dst) of
           (Some s, Some d) \<Rightarrow>
             (case crypt inplace n s d iv of
                None \<Rightarrow> None
              | Some (out, iv, left) \<Rightarrow>
                  (case wr off (take (n - left) out) dst of
                     None \<Rightarrow> None
                   | Some dst \<Rightarrow> walk_crypt go crypt chunks (off + (n - left)) src dst iv))
         | _ \<Rightarrow> None)
      else Some ((n, inplace) # chunks, off, dst, iv))"

definition walk_all :: "(bool \<Rightarrow> nat \<Rightarrow> u8 list \<Rightarrow> u8 list \<Rightarrow> u8 list \<Rightarrow> chunk_result) \<Rightarrow>
    (nat \<times> bool) list \<Rightarrow> u8 list \<Rightarrow> u8 list \<Rightarrow> u8 list \<Rightarrow> (u8 list \<times> u8 list) option" where
  "walk_all crypt chunks src dst iv =
     map_option (\<lambda>(_, _, dst, iv). (dst, iv)) (walk_crypt (\<lambda>n. n \<noteq> 0) crypt chunks 0 src dst iv)"

definition ecb_request :: "nat \<Rightarrow> (u8 list \<Rightarrow> u8 list) \<Rightarrow> (nat \<times> bool) list \<Rightarrow> u8 list \<Rightarrow> u8 list \<Rightarrow> (u8 list \<times> u8 list) option" where
  "ecb_request bsize fn chunks src dst = walk_all (ecb_crypt bsize fn) chunks src dst []"

definition cbc_encrypt :: "nat \<Rightarrow> (u8 list \<Rightarrow> u8 list) \<Rightarrow> (nat \<times> bool) list \<Rightarrow> u8 list \<Rightarrow> u8 list \<Rightarrow> u8 list \<Rightarrow> (u8 list \<times> u8 list) option" where
  "cbc_encrypt bsize fn chunks src dst iv =
     walk_all (\<lambda>inplace nbytes src dst iv.
       if inplace then cbc_encrypt_inplace bsize fn nbytes src iv
       else cbc_encrypt_segment bsize fn nbytes src dst iv) chunks src dst iv"

definition cbc_decrypt :: "nat \<Rightarrow> (u8 list \<Rightarrow> u8 list) \<Rightarrow> (nat \<times> bool) list \<Rightarrow> u8 list \<Rightarrow> u8 list \<Rightarrow> u8 list \<Rightarrow> (u8 list \<times> u8 list) option" where
  "cbc_decrypt bsize fn chunks src dst iv =
     walk_all (\<lambda>inplace nbytes src dst iv.
       if inplace then cbc_decrypt_inplace bsize fn nbytes src iv
       else cbc_decrypt_segment bsize fn nbytes src dst iv) chunks src dst iv"

definition pcbc_encrypt :: "nat \<Rightarrow> (u8 list \<Rightarrow> u8 list) \<Rightarrow> (nat \<times> bool) list \<Rightarrow> u8 list \<Rightarrow> u8 list \<Rightarrow> u8 list \<Rightarrow> (u8 list \<times> u8 list) option" where
  "pcbc_encrypt bsize fn chunks src dst iv =
     walk_all (\<lambda>inplace nbytes src dst iv.
       if inplace then pcbc_encrypt_inplace bsize fn nbytes src iv
       else pcbc_encrypt_segment bsize fn nbytes src dst iv) chunks src dst iv"

definition pcbc_decrypt :: "nat \<Rightarrow> (u8 list \<Rightarrow> u8 list) \<Rightarrow> (nat \<times> bool) list \<Rightarrow> u8 list \<Rightarrow> u8 list \<Rightarrow> u8 list \<Rightarrow> (u8 list \<times> u8 list) option" where
  "pcbc_decrypt bsize fn chunks src dst iv =
     walk_all (\<lambda>inplace nbytes src dst iv.
       if inplace then pcbc_decrypt_inplace bsize fn nbytes src iv
       else pcbc_decrypt_segment bsize fn nbytes src dst iv) chunks src dst iv"

text \<open>Counter mode leaves the loop at a chunk shorter than a block, which the final step then handles.\<close>

definition ctr_crypt :: "nat \<Rightarrow> (u8 list \<Rightarrow> u8 list) \<Rightarrow> (nat \<times> bool) list \<Rightarrow> u8 list \<Rightarrow> u8 list \<Rightarrow> u8 list \<Rightarrow> (u8 list \<times> u8 list) option" where
  "ctr_crypt bsize fn chunks src dst iv =
     (case walk_crypt (\<lambda>n. bsize \<le> n) (\<lambda>inplace nbytes src dst iv.
         if inplace then ctr_crypt_inplace bsize fn nbytes src iv
         else ctr_crypt_segment bsize fn nbytes src dst iv) chunks 0 src dst iv of
        None \<Rightarrow> None
      | Some ([], off, dst, iv) \<Rightarrow> Some (dst, iv)
      | Some ((n, _) # _, off, dst, iv) \<Rightarrow>
          if n = 0 then Some (dst, iv)
          else (case rd n off src of
                  None \<Rightarrow> None
                | Some s \<Rightarrow>
                    (case ctr_crypt_final fn n s iv of
                       None \<Rightarrow> None
                     | Some (out, iv, _) \<Rightarrow> map_option (\<lambda>dst. (dst, iv)) (wr off out dst))))"

subsection \<open>Reference\<close>

text \<open>
  A chained mode: each block is transformed under the current chaining value, which the step also
  updates. The steps of the modes, straight from their textbook definitions.
\<close>

type_synonym mode_step = "u8 list \<Rightarrow> u8 list \<Rightarrow> u8 list \<times> u8 list"

fun chain :: "mode_step \<Rightarrow> u8 list \<Rightarrow> u8 list list \<Rightarrow> u8 list list" where
  "chain step iv [] = []"
| "chain step iv (b # bl) = fst (step iv b) # chain step (snd (step iv b)) bl"

fun chain_iv :: "mode_step \<Rightarrow> u8 list \<Rightarrow> u8 list list \<Rightarrow> u8 list" where
  "chain_iv step iv [] = iv"
| "chain_iv step iv (b # bl) = chain_iv step (snd (step iv b)) bl"

definition xor_bytes :: "u8 list \<Rightarrow> u8 list \<Rightarrow> u8 list" where
  "xor_bytes a b = map2 (XOR) a b"

definition ecb_step :: "(u8 list \<Rightarrow> u8 list) \<Rightarrow> mode_step" where
  "ecb_step fn iv b = (fn b, iv)"

definition cbc_enc_step :: "(u8 list \<Rightarrow> u8 list) \<Rightarrow> mode_step" where
  "cbc_enc_step fn iv p = (let c = fn (xor_bytes p iv) in (c, c))"

definition cbc_dec_step :: "(u8 list \<Rightarrow> u8 list) \<Rightarrow> mode_step" where
  "cbc_dec_step fn iv c = (xor_bytes (fn c) iv, c)"

definition pcbc_enc_step :: "(u8 list \<Rightarrow> u8 list) \<Rightarrow> mode_step" where
  "pcbc_enc_step fn iv p = (let c = fn (xor_bytes p iv) in (c, xor_bytes p c))"

definition pcbc_dec_step :: "(u8 list \<Rightarrow> u8 list) \<Rightarrow> mode_step" where
  "pcbc_dec_step fn iv c = (let p = xor_bytes (fn c) iv in (p, xor_bytes p c))"

definition ctr_step :: "(u8 list \<Rightarrow> u8 list) \<Rightarrow> mode_step" where
  "ctr_step fn iv p = (xor_bytes p (fn iv), crypto_inc iv)"

text \<open>The value of a big-endian byte string.\<close>

fun le_value :: "u8 list \<Rightarrow> nat" where
  "le_value [] = 0"
| "le_value (b # bs) = unat b + 256 * le_value bs"

definition be_value :: "u8 list \<Rightarrow> nat" where
  "be_value bs = le_value (rev bs)"

text \<open>
  Chunk sizes a walk may offer for \<open>rest\<close> bytes: at least a block and at most what is left, until less than
  a block is.
\<close>

fun chunks_ok :: "nat \<Rightarrow> nat \<Rightarrow> (nat \<times> bool) list \<Rightarrow> bool" where
  "chunks_ok bsize rest [] \<longleftrightarrow> rest < bsize"
| "chunks_ok bsize rest ((n, inplace) # chunks) \<longleftrightarrow>
     bsize \<le> n \<and> n \<le> rest \<and> chunks_ok bsize (rest - (n - n mod bsize)) chunks"

section \<open>Lemmas\<close>

subsection \<open>Exclusive or and the counter\<close>

lemma length_xor_bytes [simp]: "length (xor_bytes a b) = min (length a) (length b)"
  by (simp add: xor_bytes_def)

lemma xor_bytes_Cons [simp]: "xor_bytes (a # as) (b # bs) = (a XOR b) # xor_bytes as bs" "xor_bytes [] bs = []"
  by (simp_all add: xor_bytes_def)

lemma xor_bytes_commute: "xor_bytes a b = xor_bytes b a"
proof (induction a arbitrary: b)
  case (Cons x a)
  then show ?case by (cases b) (auto simp: xor_bytes_def xor.commute)
qed (simp add: xor_bytes_def)

lemma xor_bytes_cancel: "length a = length b \<Longrightarrow> xor_bytes (xor_bytes a b) b = a"
  by (induction a b rule: list_induct2) (simp_all add: xor.assoc xor_bytes_def)

lemma xor_bytes_take: "xor_bytes (take n a) (take n b) = take n (xor_bytes a b)"
  by (simp add: xor_bytes_def take_map take_zip)

lemma crypto_xor_byte_eq: "length a = length b \<Longrightarrow> crypto_xor_byte a b = xor_bytes a b"
  by (induction a b rule: list_induct2) simp_all

lemma bit_le32:
  "bit (le32_to_cpu [b0, b1, b2, b3]) n =
    (if n < 8 then bit b0 n else if n < 16 then bit b1 (n - 8) else if n < 24 then bit b2 (n - 16)
     else bit b3 (n - 24))"
  using bit_imp_le_length[of b0 n] bit_imp_le_length[of b1 "n - 8"] bit_imp_le_length[of b2 "n - 16"]
    bit_imp_le_length[of b3 "n - 24"]
  by (auto simp: bit_simps)

lemma le32_xor: "length a = 4 \<Longrightarrow> length b = 4 \<Longrightarrow> cpu_to_le32 (le32_to_cpu a XOR le32_to_cpu b) = xor_bytes a b"
proof (elim length4E)
  fix a0 a1 a2 a3 b0 b1 b2 b3 assume ab: "a = [a0, a1, a2, a3]" "b = [b0, b1, b2, b3]"
  have "le32_to_cpu a XOR le32_to_cpu b = le32_to_cpu (xor_bytes a b)"
    unfolding ab by (rule bit_word_eqI) (simp add: bit_le32 bit_xor_iff del: le32_to_cpu.simps)
  then show ?thesis using ab by (simp del: le32_to_cpu.simps)
qed

lemma crypto_xor_eq: "length a = length b \<Longrightarrow> crypto_xor a b = xor_bytes a b"
proof (induction a b rule: crypto_xor.induct)
  case (1 a0 a1 a2 a3 as b0 b1 b2 b3 bs)
  then show ?case using le32_xor[of "[a0, a1, a2, a3]" "[b0, b1, b2, b3]"] by (simp del: le32_to_cpu.simps)
qed (simp_all add: crypto_xor_byte_eq)

lemma length_crypto_inc_byte [simp]: "length (crypto_inc_byte bs) = length bs"
  by (induction bs) (auto simp: Let_def)

lemma length_crypto_inc_word [simp]: "length (crypto_inc_word bs) = length bs"
  by (induction bs rule: crypto_inc_word.induct) (auto simp: Let_def)

lemma length_crypto_inc [simp]: "length (crypto_inc a) = length a"
  by (simp add: crypto_inc_def)

lemma le_value_append: "le_value (a @ b) = le_value a + 256 ^ length a * le_value b"
  by (induction a) (auto simp: algebra_simps)

lemma le_value_less: "le_value bs < 256 ^ length bs"
proof (induction bs)
  case (Cons b bs)
  have "unat b < 256" using unsigned_less[of b, where ?'a = nat] by simp
  then show ?case using Cons by simp
qed simp

lemma unat_succ:
  fixes w :: "'a::len word"
  shows "w + 1 \<noteq> 0 \<Longrightarrow> unat (w + 1) = unat w + 1" "w + 1 = 0 \<Longrightarrow> unat w + 1 = 2 ^ LENGTH('a)"
    "unat w + 1 = 2 ^ LENGTH('a) \<Longrightarrow> w + 1 = 0"
proof -
  have lt: "unat w < 2 ^ LENGTH('a)" by (rule unsigned_less)
  have e: "unat (w + 1) = (unat w + 1) mod 2 ^ LENGTH('a)" by (simp add: unat_word_ariths)
  show z: "w + 1 = 0" if "unat w + 1 = 2 ^ LENGTH('a)" using e that by (metis mod_self unsigned_eq_0_iff)
  show "unat w + 1 = 2 ^ LENGTH('a)" if "w + 1 = 0"
  proof -
    have "(unat w + 1) mod 2 ^ LENGTH('a) = 0" using that e by simp
    then show ?thesis using lt by (metis Suc_eq_plus1 Suc_lessI mod_less nat.simps(3))
  qed
  show "unat (w + 1) = unat w + 1" if ne: "w + 1 \<noteq> 0"
  proof -
    have "unat w + 1 \<noteq> 2 ^ LENGTH('a)" using ne e by (metis mod_self unsigned_eq_0_iff)
    then show ?thesis using e lt by simp
  qed
qed

text \<open>Adding one to a little-endian string, by its first digit: no carry, or carry into the rest.\<close>

lemma succ_digit:
  fixes v n d m :: nat
  assumes "v + 1 < d \<Longrightarrow> v' = v + 1 \<and> r' = r" "v + 1 = d \<Longrightarrow> v' = 0 \<and> r' = (r + 1) mod m" "v < d" "r < m"
  shows "v' + d * r' = (v + d * r + 1) mod (d * m)"
proof (cases "v + 1 < d")
  case True
  have "v + d * r + 1 < d * (r + 1)" using True by simp
  also have "\<dots> \<le> d * m" using assms(4) by (intro mult_le_mono2) simp
  finally show ?thesis using assms(1)[OF True] by simp
next
  case False
  then have "v + 1 = d" using assms(3) by simp
  with assms(2)[OF this] have "v' + d * r' = d * ((r + 1) mod m)" by simp
  also have "\<dots> = (d * (r + 1)) mod (d * m)" by (simp add: mult_mod_right)
  also have "d * (r + 1) = v + d * r + 1" using \<open>v + 1 = d\<close> by (simp add: algebra_simps)
  finally show ?thesis .
qed

lemma le_value_inc_byte: "le_value (crypto_inc_byte bs) = (le_value bs + 1) mod 256 ^ length bs"
proof (induction bs)
  case (Cons b bs)
  have lt: "unat b < 256" using unsigned_less[of b, where ?'a = nat] by simp
  define r where "r = (if b + 1 = 0 then crypto_inc_byte bs else bs)"
  have "unat (b + 1) + 256 * le_value r = (unat b + 256 * le_value bs + 1) mod (256 * 256 ^ length bs)"
    using lt le_value_less[of bs] Cons unat_succ[of b]
    by (intro succ_digit) (auto simp: r_def split: if_splits)
  then show ?case by (auto simp: Let_def r_def split: if_splits)
qed simp

lemma le_value_cpu_to_le32: "le_value (cpu_to_le32 w) = unat w"
proof -
  let ?x = "unat w"
  have lt: "?x < 2 ^ 32" using unsigned_less[of w, where ?'a = nat] by simp
  have u: "unat (ucast (drop_bit k w) :: u8) = (?x div 2 ^ k) mod 256" for k
  proof -
    have "unat (drop_bit k w) = ?x div 2 ^ k"
      using lt by (simp only: unsigned_drop_bit_eq) (simp add: drop_bit_eq_div take_bit_nat_eq_self)
    then show ?thesis by (simp only: unsigned_ucast_eq) (simp add: take_bit_eq_mod)
  qed
  have 1: "?x = ?x mod 256 + 256 * (?x div 256)" by simp
  have 2: "?x div 256 = (?x div 256) mod 256 + 256 * (?x div 65536)"
    using div_mult_mod_eq[of "?x div 256" 256] by (simp add: div_mult2_eq[symmetric])
  have 3: "?x div 65536 = (?x div 65536) mod 256 + 256 * (?x div 16777216)"
    using div_mult_mod_eq[of "?x div 65536" 256] by (simp add: div_mult2_eq[symmetric])
  have 4: "?x div 16777216 = (?x div 16777216) mod 256" using lt by (simp add: div_less_iff_less_mult)
  have "le_value (cpu_to_le32 w) = ?x mod 256 + 256 * ((?x div 256) mod 256 + 256 * ((?x div 65536) mod 256 +
      256 * ((?x div 16777216) mod 256)))"
    using u[of 0] u[of 8] u[of 16] u[of 24] by (simp add: cpu_to_le32_def)
  then show ?thesis using 1 2 3 4 by simp
qed

lemma le_value_le32: "length bs = 4 \<Longrightarrow> unat (le32_to_cpu bs) = le_value bs"
  using le_value_cpu_to_le32[of "le32_to_cpu bs"] by simp

lemma le_value_inc_word: "le_value (crypto_inc_word bs) = (le_value bs + 1) mod 256 ^ length bs"
proof (induction bs rule: crypto_inc_word.induct)
  case (1 b3 b2 b1 b0 bs)
  let ?w = "le32_to_cpu [b3, b2, b1, b0]"
  have lt: "unat ?w < 256 ^ 4" using unsigned_less[of ?w, where ?'a = nat] by simp
  have v: "le_value (b3 # b2 # b1 # b0 # bs) = unat ?w + 256 ^ 4 * le_value bs"
    using le_value_append[of "[b3, b2, b1, b0]" bs] le_value_le32[of "[b3, b2, b1, b0]"] by simp
  have c: "be32_to_cpu [b0, b1, b2, b3] = ?w" by (simp add: be32_to_cpu_def)
  have w: "le_value (rev (cpu_to_be32 w) @ r) = unat w + 256 ^ 4 * le_value r" for w r
    by (simp add: le_value_append cpu_to_be32_def le_value_cpu_to_le32)
  define r where "r = (if ?w + 1 = 0 then crypto_inc_word bs else bs)"
  have "unat (?w + 1) + 256 ^ 4 * le_value r = (unat ?w + 256 ^ 4 * le_value bs + 1) mod (256 ^ 4 * 256 ^ length bs)"
    using lt le_value_less[of bs] 1[OF refl refl] unat_succ[of ?w] c
    by (intro succ_digit) (auto simp: r_def split: if_splits simp del: le32_to_cpu.simps)
  then show ?case unfolding v crypto_inc_word.simps Let_def c using w
    by (auto simp: r_def split: if_splits simp del: le32_to_cpu.simps)
qed (simp_all only: crypto_inc_word.simps le_value_inc_byte)

lemma be_value_crypto_inc: "be_value (crypto_inc a) = (be_value a + 1) mod 256 ^ length a"
  using le_value_inc_word[of "rev a"] by (simp add: be_value_def crypto_inc_def)


subsection \<open>The loops\<close>

lemma walk_loop_invariant:
  assumes "0 < bsize" and "r < bsize" and "i < k" and "P i st"
    and step: "\<And>j st. j < k \<Longrightarrow> P j st \<Longrightarrow> \<exists>st'. body (j * bsize) st = Some st' \<and> P (Suc j) st'"
  shows "\<exists>st'. walk_loop bsize body ((k - i) * bsize + r) (i * bsize) st = Some (st', r) \<and> P k st'"
  using assms(3,4)
proof (induction "k - i" arbitrary: i st)
  case (Suc m)
  obtain st' where st': "body (i * bsize) st = Some st'" "P (Suc i) st'" using step Suc.prems by blast
  have n: "(k - i) * bsize + r = bsize + ((k - Suc i) * bsize + r)"
    using Suc.prems(1) by (cases "k - i") (auto simp: Suc_diff_Suc)
  show ?case
  proof (cases "Suc i < k")
    case True
    then have "bsize \<le> (k - Suc i) * bsize + r" by (cases "k - Suc i") auto
    then have "walk_loop bsize body ((k - i) * bsize + r) (i * bsize) st =
        walk_loop bsize body ((k - Suc i) * bsize + r) (Suc i * bsize) st'"
      using n st'(1) assms(1) by (subst walk_loop.simps) (simp add: add.commute)
    moreover have "m = k - Suc i" using Suc(2) by simp
    ultimately show ?thesis using Suc.hyps(1)[of "Suc i" st'] st'(2) True by simp
  next
    case False
    then have "k = Suc i" using Suc.prems(1) by simp
    then show ?thesis using st' assms(1,2) by (subst walk_loop.simps) simp
  qed
qed simp

text \<open>
  A mode step that keeps block and IV sizes. \<open>crypt\<close> implements it on chunks when it transforms the whole
  blocks of a chunk, returns the next IV and the size of the rest.
\<close>

locale mode =
  fixes bsize :: nat and ivsize :: nat and step :: mode_step
  assumes bsize_pos: "0 < bsize"
    and step_length: "length iv = ivsize \<Longrightarrow> length b = bsize \<Longrightarrow>
      length (fst (step iv b)) = bsize \<and> length (snd (step iv b)) = ivsize"
begin

lemma chain_blocks: "length iv = ivsize \<Longrightarrow> blocks bsize bl \<Longrightarrow> blocks bsize (chain step iv bl)"
  by (induction bl arbitrary: iv) (auto simp: step_length)

lemma length_chain [simp]: "length (chain step iv bl) = length bl"
  by (induction bl arbitrary: iv) auto

lemma length_chain_iv: "length iv = ivsize \<Longrightarrow> blocks bsize bl \<Longrightarrow> length (chain_iv step iv bl) = ivsize"
  by (induction bl arbitrary: iv) (auto simp: step_length)

lemma chain_append: "chain step iv (bl @ cl) = chain step iv bl @ chain step (chain_iv step iv bl) cl"
  by (induction bl arbitrary: iv) auto

lemma chain_iv_append: "chain_iv step iv (bl @ cl) = chain_iv step (chain_iv step iv bl) cl"
  by (induction bl arbitrary: iv) auto

lemma chain_nth: "i < length bl \<Longrightarrow> chain step iv bl ! i = fst (step (chain_iv step iv (take i bl)) (bl ! i))"
proof (induction bl arbitrary: iv i)
  case (Cons b bl)
  then show ?case by (cases i) auto
qed simp

lemma chain_iv_Suc: "i < length bl \<Longrightarrow> chain_iv step iv (take (Suc i) bl) = snd (step (chain_iv step iv (take i bl)) (bl ! i))"
  by (simp add: take_Suc_conv_app_nth chain_iv_append)

text \<open>
  A loop body that reads block \<open>i\<close> from \<open>rdbuf\<close>, applies the step and writes block \<open>i\<close> computes the chain; \<open>rdbuf\<close>
  is either the source, or the buffer itself, whose blocks from \<open>i\<close> on are still those of the source.
\<close>

lemma forward_loop:
  assumes bl: "blocks bsize bl" "bl \<noteq> []" and r: "r < bsize" and iv: "length iv = ivsize"
    and dl: "blocks bsize dl" "length dl = length bl"
    and body: "\<And>i d iv. i < length bl \<Longrightarrow> blocks bsize d \<Longrightarrow> length d = length bl \<Longrightarrow> drop i d = drop i dl \<Longrightarrow>
       length iv = ivsize \<Longrightarrow>
       body (i * bsize) (concat d @ t, iv) =
         map_option (\<lambda>buf. (buf, snd (step iv (bl ! i)))) (wr (i * bsize) (fst (step iv (bl ! i))) (concat d @ t))"
  shows "finish (walk_loop bsize body (length bl * bsize + r) 0 (concat dl @ t, iv)) =
    Some (concat (chain step iv bl) @ t, chain_iv step iv bl, r)"
proof -
  let ?c = "chain step iv bl"
  let ?P = "\<lambda>i (buf, v). buf = concat (take i ?c @ drop i dl) @ t \<and> v = chain_iv step iv (take i bl)"
  have "\<exists>st'. body (i * bsize) st = Some st' \<and> ?P (Suc i) st'" if i: "i < length bl" and P: "?P i st" for i st
  proof -
    let ?d = "take i ?c @ drop i dl" and ?v = "chain_iv step iv (take i bl)"
    have cb: "blocks bsize ?c" using chain_blocks iv bl(1) by simp
    have d: "blocks bsize ?d" "length ?d = length bl" "drop i ?d = drop i dl"
      using cb dl i blocks_take_drop by auto
    have v: "length ?v = ivsize" using length_chain_iv iv blocks_take_drop(1)[OF bl(1)] by simp
    have b: "length (bl ! i) = bsize" using bl(1) i by simp
    have w: "wr (i * bsize) (fst (step ?v (bl ! i))) (concat ?d @ t) = Some (concat (?d[i := ?c ! i]) @ t)"
      using wr_block[OF d(1)] d(2) i step_length[OF v b] chain_nth[OF i, of iv] by simp
    have "drop i dl = dl ! i # drop (Suc i) dl" using i dl(2) by (simp add: Cons_nth_drop_Suc)
    then have "?d[i := ?c ! i] = take (Suc i) ?c @ drop (Suc i) dl"
      using i by (simp add: list_update_append take_Suc_conv_app_nth)
    then show ?thesis
      using P body[OF i d v] w chain_iv_Suc[OF i, of iv] by (cases st) auto
  qed
  moreover have "?P 0 (concat dl @ t, iv)" by simp
  ultimately obtain st' where "walk_loop bsize body ((length bl - 0) * bsize + r) (0 * bsize) (concat dl @ t, iv) = Some (st', r)"
    and "?P (length bl) st'"
    using walk_loop_invariant[OF bsize_pos r, of 0 "length bl" ?P] bl(2) by (metis length_greater_0_conv)
  then show ?thesis using dl(2) by (cases st') (simp add: finish_def)
qed

end

text \<open>An implementation of a mode on chunks; a request gives the chain of the mode for every way to cut it up.\<close>

locale chunk_mode = mode +
  fixes crypt :: "bool \<Rightarrow> nat \<Rightarrow> u8 list \<Rightarrow> u8 list \<Rightarrow> u8 list \<Rightarrow> chunk_result"
  assumes crypt_chunk: "blocks bsize bl \<Longrightarrow> bl \<noteq> [] \<Longrightarrow> length t < bsize \<Longrightarrow>
      length d = length bl * bsize + length t \<Longrightarrow> length iv = ivsize \<Longrightarrow>
      \<exists>t'. crypt inplace (length bl * bsize + length t) (concat bl @ t) d iv =
        Some (concat (chain step iv bl) @ t', chain_iv step iv bl, length t)"
begin

lemma crypt_slice:
  assumes bl: "blocks bsize bl" and n: "bsize \<le> n" "i * bsize + n \<le> length bl * bsize + length u" and k: "k = n div bsize"
    and d: "length d = n" and iv: "length iv = ivsize" and u: "length u < bsize"
  shows "\<exists>out. crypt inplace n (take n (drop (i * bsize) (concat bl @ u))) d iv =
      Some (out, chain_iv step iv (take k (drop i bl)), n mod bsize) \<and>
      take (n - n mod bsize) out = concat (chain step iv (take k (drop i bl)))"
    "0 < k" "i + k \<le> length bl" "n - n mod bsize = k * bsize"
proof -
  have nk: "n = k * bsize + n mod bsize" using k by simp
  show k0: "0 < k" using k n(1) bsize_pos by (simp add: div_greater_zero_iff)
  have "(i + k) * bsize \<le> i * bsize + n" using nk by (simp add: add_mult_distrib)
  also have "\<dots> < Suc (length bl) * bsize" using n(2) u by simp
  finally have "i + k < Suc (length bl)" using bsize_pos mult_less_cancel2 by blast
  then show ik: "i + k \<le> length bl" by simp
  show e: "n - n mod bsize = k * bsize" using nk by simp
  have il: "i \<le> length bl" using ik by simp
  define cl where "cl = take k (drop i bl)"
  define t where "t = take (n mod bsize) (concat (drop (i + k) bl) @ u)"
  have cl: "blocks bsize cl" "length cl = k" using bl ik by (auto simp: cl_def blocks_take_drop)
  have dbl: "drop (i * bsize) (concat bl @ u) = concat cl @ concat (drop (i + k) bl) @ u"
  proof -
    have "drop i bl = cl @ drop (i + k) bl"
      using append_take_drop_id[of k "drop i bl"] by (simp add: cl_def add.commute)
    then show ?thesis using drop_concat_blocks[OF bl il, of u] by simp
  qed
  have "(i + k) * bsize \<le> length bl * bsize" using ik by (intro mult_le_mono1)
  then have "n mod bsize \<le> (length bl - (i + k)) * bsize + length u"
    using n(2) nk by (simp add: diff_mult_distrib add_mult_distrib)
  then have lt: "length t = n mod bsize"
    using blocks_take_drop(2)[OF bl, of "i + k"] by (simp add: t_def)
  have s: "take n (drop (i * bsize) (concat bl @ u)) = concat cl @ t"
  proof -
    have "n - k * bsize = n mod bsize" "k * bsize \<le> n" using nk by linarith+
    then show ?thesis using cl unfolding dbl t_def take_append[of _ "concat cl"] by simp
  qed
  have "length d = length cl * bsize + length t" using d nk cl(2) lt by simp
  moreover have "cl \<noteq> []" using cl(2) k0 by auto
  ultimately obtain t' where "crypt inplace (length cl * bsize + length t) (concat cl @ t) d iv =
      Some (concat (chain step iv cl) @ t', chain_iv step iv cl, length t)"
    using crypt_chunk[OF cl(1) _ _ _ iv, of t d inplace] lt bsize_pos by auto
  then show "\<exists>out. crypt inplace n (take n (drop (i * bsize) (concat bl @ u))) d iv =
      Some (out, chain_iv step iv (take k (drop i bl)), n mod bsize) \<and>
      take (n - n mod bsize) out = concat (chain step iv (take k (drop i bl)))"
    using s nk cl lt e chain_blocks[OF iv cl(1)] by (simp add: cl_def[symmetric])
qed

lemma walk_crypt_chain:
  assumes bl: "blocks bsize bl" and u: "length u < bsize" and go: "\<And>n. bsize \<le> n \<Longrightarrow> go n"
    and stop: "\<And>n b cs. rest = (n, b) # cs \<Longrightarrow> \<not> go n"
    and "length dst = length bl * bsize + length u" and "i \<le> length bl" and "length iv = ivsize"
    and "chunks_ok bsize ((length bl - i) * bsize + length u) chunks"
  shows "walk_crypt go crypt (chunks @ rest) (i * bsize) (concat bl @ u) dst iv =
    Some (rest, length bl * bsize, take (i * bsize) dst @ concat (chain step iv (drop i bl)) @ drop (length bl * bsize) dst,
      chain_iv step iv (drop i bl))"
  using assms(5-)
proof (induction chunks arbitrary: i dst iv)
  case Nil
  have "(length bl - i) * bsize < 1 * bsize" using Nil.prems(4) unfolding chunks_ok.simps mult_1 by linarith
  then have "length bl - i < 1" using mult_less_cancel2 by blast
  then have "i = length bl" using Nil.prems(2) by simp
  then show ?case using stop by (cases rest) (auto split: prod.splits)
next
  case (Cons c chunks)
  obtain n ip where c: "c = (n, ip)" by (cases c)
  let ?k = "n div bsize"
  have n1: "bsize \<le> n" "n \<le> (length bl - i) * bsize + length u"
    and cs: "chunks_ok bsize ((length bl - i) * bsize + length u - (n - n mod bsize)) chunks"
    using Cons.prems(4) c by auto
  have "i * bsize \<le> length bl * bsize" using Cons.prems(2) by (rule mult_le_mono1)
  then have n: "bsize \<le> n" "i * bsize + n \<le> length bl * bsize + length u" using n1 unfolding diff_mult_distrib by linarith+
  note sl = crypt_slice[OF bl n refl _ Cons.prems(3) u]
  let ?s = "take n (drop (i * bsize) (concat bl @ u))" and ?d = "take n (drop (i * bsize) dst)"
  have rd: "rd n (i * bsize) (concat bl @ u) = Some ?s" "rd n (i * bsize) dst = Some ?d"
    using n(2) bl Cons.prems(1) by (simp_all add: rd_def)
  have ld: "length ?d = n" using n(2) Cons.prems(1) by simp
  define cl where "cl = take ?k (drop i bl)"
  obtain out where out: "crypt ip n ?s ?d iv = Some (out, chain_iv step iv cl, n mod bsize)"
    "take (n - n mod bsize) out = concat (chain step iv cl)"
    using sl(1)[OF ld, of ip] by (auto simp: cl_def)
  have cl: "blocks bsize cl" "length cl = ?k" using bl sl(3)[OF ld] by (auto simp: cl_def blocks_take_drop)
  have lc: "length (concat (chain step iv cl)) = ?k * bsize" using chain_blocks[OF Cons.prems(3) cl(1)] cl(2) by simp
  define dst' where "dst' = take (i * bsize) dst @ concat (chain step iv cl) @ drop (i * bsize + ?k * bsize) dst"
  have ik: "(i + ?k) * bsize \<le> length bl * bsize" using sl(3)[OF ld] by (intro mult_le_mono1)
  have w: "wr (i * bsize) (take (n - n mod bsize) out) dst = Some dst'"
    using ik Cons.prems(1) lc out(2) by (simp add: wr_def dst'_def add_mult_distrib)
  have ld': "length dst' = length bl * bsize + length u" "take ((i + ?k) * bsize) dst' = take (i * bsize) dst @ concat (chain step iv cl)"
    "drop (length bl * bsize) dst' = drop (length bl * bsize) dst"
    using ik Cons.prems(1,2) lc by (simp_all add: dst'_def add_mult_distrib)
  have cs': "chunks_ok bsize ((length bl - (i + ?k)) * bsize + length u) chunks"
  proof -
    have "i * bsize + ?k * bsize \<le> length bl * bsize" using ik by (simp add: add_mult_distrib)
    then have "(length bl - i) * bsize + length u - (n - n mod bsize) = (length bl - (i + ?k)) * bsize + length u"
      unfolding sl(4)[OF ld] diff_mult_distrib add_mult_distrib by linarith
    then show ?thesis using cs by simp
  qed
  have bl': "drop i bl = cl @ drop (i + ?k) bl"
    using append_take_drop_id[of ?k "drop i bl"] by (simp add: cl_def add.commute)
  have "walk_crypt go crypt ((c # chunks) @ rest) (i * bsize) (concat bl @ u) dst iv =
      walk_crypt go crypt (chunks @ rest) ((i + ?k) * bsize) (concat bl @ u) dst' (chain_iv step iv cl)"
    using rd out(1) w sl(4)[OF ld] go[OF n(1)] by (simp add: c add_mult_distrib)
  also have "\<dots> = Some (rest, length bl * bsize,
      take ((i + ?k) * bsize) dst' @ concat (chain step (chain_iv step iv cl) (drop (i + ?k) bl)) @ drop (length bl * bsize) dst',
      chain_iv step (chain_iv step iv cl) (drop (i + ?k) bl))"
    using Cons.IH[OF ld'(1) sl(3)[OF ld] length_chain_iv[OF Cons.prems(3) cl(1)] cs'] .
  finally show ?case using ld'(2,3) bl' by (simp add: chain_append chain_iv_append)
qed

lemma request:
  assumes "blocks bsize bl" and "length dst = length bl * bsize" and "length iv = ivsize"
    and "chunks_ok bsize (length bl * bsize) chunks"
  shows "walk_all crypt chunks (concat bl) dst iv = Some (concat (chain step iv bl), chain_iv step iv bl)"
  using walk_crypt_chain[OF assms(1), of "[]" "\<lambda>n. n \<noteq> 0" "[]" dst 0 iv chunks] assms(2-) bsize_pos
  by (simp add: walk_all_def)

end

text \<open>Two modes of which the second undoes the first, step by step.\<close>

locale inverse_modes = enc: chunk_mode bsize ivsize estep ecrypt + dec: chunk_mode bsize ivsize dstep dcrypt
  for bsize ivsize estep ecrypt dstep dcrypt +
  assumes inverse_step: "length iv = ivsize \<Longrightarrow> length p = bsize \<Longrightarrow> dstep iv (fst (estep iv p)) = (p, snd (estep iv p))"
begin

lemma chain_inverse:
  "length iv = ivsize \<Longrightarrow> blocks bsize bl \<Longrightarrow>
   chain dstep iv (chain estep iv bl) = bl \<and> chain_iv dstep iv (chain estep iv bl) = chain_iv estep iv bl"
  by (induction bl arbitrary: iv) (auto simp: inverse_step enc.step_length)

lemma roundtrip:
  assumes "blocks bsize bl" and "length iv = ivsize" and "length buf1 = length bl * bsize" and "length buf2 = length bl * bsize"
    and "chunks_ok bsize (length bl * bsize) chunks1" and "chunks_ok bsize (length bl * bsize) chunks2"
  shows "\<exists>c iv'. walk_all ecrypt chunks1 (concat bl) buf1 iv = Some (c, iv') \<and>
    walk_all dcrypt chunks2 c buf2 iv = Some (concat bl, iv')"
  using enc.request[OF assms(1,3,2,5)] dec.request[OF enc.chain_blocks[OF assms(2,1)], of buf2 iv chunks2]
    chain_inverse[OF assms(2,1)] assms
  by simp

end

subsection \<open>The modes are implementations of their steps\<close>

lemma rd_drop_block:
  assumes "blocks n d" "length d = length bl" "drop i d = drop i bl" "i < length bl"
  shows "rd n (i * n) (concat d @ t) = Some (bl ! i)"
proof -
  have "d ! i = bl ! i" using assms by (metis Cons_nth_drop_Suc list.inject)
  then show ?thesis using rd_block[OF assms(1), of i t] assms(2,4) by simp
qed

lemma buffer_blocksE:
  assumes "length d = k * n + r"
  obtains dl dt where "d = concat dl @ dt" "blocks n dl" "length dl = k" "length dt = r"
  using assms
proof (induction k arbitrary: d thesis)
  case (Suc k)
  have "length (drop n d) = k * n + r" using Suc.prems(2) by simp
  with Suc.IH obtain dl dt where "drop n d = concat dl @ dt" "blocks n dl" "length dl = k" "length dt = r" by blast
  moreover have "length (take n d) = n" using Suc.prems(2) by simp
  ultimately show ?case using Suc.prems(1)[of "take n d # dl" dt] by (metis append.assoc append_take_drop_id blocks_simps(2) concat.simps(2) length_Cons)
qed force

text \<open>The two kinds of forward loop, given their body.\<close>

lemma segment_loop:
  assumes m: "mode bsize ivsize step" and bl: "blocks bsize bl" "bl \<noteq> []" and t: "length t < bsize"
    and d: "length d = length bl * bsize + length t" and iv: "length iv = ivsize"
    and body: "\<And>off s dst iv. rd bsize off (concat bl @ t) = Some s \<Longrightarrow> length s = bsize \<Longrightarrow> length iv = ivsize \<Longrightarrow>
       body off (dst, iv) = map_option (\<lambda>buf. (buf, snd (step iv s))) (wr off (fst (step iv s)) dst)"
  shows "\<exists>t'. finish (walk_loop bsize body (length bl * bsize + length t) 0 (d, iv)) =
    Some (concat (chain step iv bl) @ t', chain_iv step iv bl, length t)"
proof -
  obtain dl dt where dl: "d = concat dl @ dt" "blocks bsize dl" "length dl = length bl" using d by (rule buffer_blocksE)
  have "body (i * bsize) (concat e @ dt, v) =
      map_option (\<lambda>buf. (buf, snd (step v (bl ! i)))) (wr (i * bsize) (fst (step v (bl ! i))) (concat e @ dt))"
    if "i < length bl" "length v = ivsize" for i e v
    using body[OF rd_block[OF bl(1) that(1)]] bl(1) that by simp
  then show ?thesis using mode.forward_loop[OF m bl t iv dl(2,3), of body dt] dl(1) by auto
qed

lemma inplace_loop:
  assumes m: "mode bsize ivsize step" and bl: "blocks bsize bl" "bl \<noteq> []" and t: "length t < bsize" and iv: "length iv = ivsize"
    and body: "\<And>off s buf iv. rd bsize off buf = Some s \<Longrightarrow> length s = bsize \<Longrightarrow> length iv = ivsize \<Longrightarrow>
       body off (buf, iv) = map_option (\<lambda>buf. (buf, snd (step iv s))) (wr off (fst (step iv s)) buf)"
  shows "\<exists>t'. finish (walk_loop bsize body (length bl * bsize + length t) 0 (concat bl @ t, iv)) =
    Some (concat (chain step iv bl) @ t', chain_iv step iv bl, length t)"
proof -
  have "body (i * bsize) (concat e @ t, v) =
      map_option (\<lambda>buf. (buf, snd (step v (bl ! i)))) (wr (i * bsize) (fst (step v (bl ! i))) (concat e @ t))"
    if "i < length bl" "blocks bsize e" "length e = length bl" "drop i e = drop i bl" "length v = ivsize" for i e v
    using body[OF rd_drop_block[OF that(2,3,4,1)]] bl(1) that by simp
  then show ?thesis using mode.forward_loop[OF m bl t iv bl(1) refl, of body t] by auto
qed

context block_cipher
begin

lemma mode_steps:
  "mode bsize 0 (ecb_step enc)" "mode bsize 0 (ecb_step dec)"
  "mode bsize bsize (cbc_enc_step enc)" "mode bsize bsize (cbc_dec_step dec)"
  "mode bsize bsize (pcbc_enc_step enc)" "mode bsize bsize (pcbc_dec_step dec)"
  "mode bsize bsize (ctr_step enc)"
  by unfold_locales (auto simp: bsize_pos length_enc length_dec ecb_step_def cbc_enc_step_def cbc_dec_step_def
      pcbc_enc_step_def pcbc_dec_step_def ctr_step_def Let_def)

lemmas step_simps = crypto_xor_eq xor_bytes_commute length_enc length_dec ecb_step_def cbc_enc_step_def cbc_dec_step_def
  pcbc_enc_step_def pcbc_dec_step_def ctr_step_def Let_def

lemma ecb_crypt_chunk:
  assumes f: "f = enc \<or> f = dec" and bl: "blocks bsize bl" "bl \<noteq> []" and t: "length t < bsize"
    and d: "length d = length bl * bsize + length t" and iv: "length iv = 0"
  shows "\<exists>t'. ecb_crypt bsize f inplace (length bl * bsize + length t) (concat bl @ t) d iv =
        Some (concat (chain (ecb_step f) iv bl) @ t', chain_iv (ecb_step f) iv bl, length t)"
proof -
  have m: "mode bsize 0 (ecb_step f)" using f mode_steps(1,2) by auto
  show ?thesis
    unfolding ecb_crypt_def
    by (cases inplace) (auto intro!: segment_loop[OF m bl t d iv] inplace_loop[OF m bl t iv] simp: ecb_step_def)
qed

lemma cbc_encrypt_chunk:
  assumes "blocks bsize bl" "bl \<noteq> []" "length t < bsize" "length d = length bl * bsize + length t" "length iv = bsize"
  shows "\<exists>t'. (if inplace then cbc_encrypt_inplace bsize enc (length bl * bsize + length t) (concat bl @ t) iv
      else cbc_encrypt_segment bsize enc (length bl * bsize + length t) (concat bl @ t) d iv) =
    Some (concat (chain (cbc_enc_step enc) iv bl) @ t', chain_iv (cbc_enc_step enc) iv bl, length t)"
  unfolding cbc_encrypt_inplace_def cbc_encrypt_segment_def
  by (cases inplace) (auto intro!: segment_loop[OF mode_steps(3) assms] inplace_loop[OF mode_steps(3) assms(1-3,5)] simp: step_simps)

lemma pcbc_encrypt_chunk:
  assumes "blocks bsize bl" "bl \<noteq> []" "length t < bsize" "length d = length bl * bsize + length t" "length iv = bsize"
  shows "\<exists>t'. (if inplace then pcbc_encrypt_inplace bsize enc (length bl * bsize + length t) (concat bl @ t) iv
      else pcbc_encrypt_segment bsize enc (length bl * bsize + length t) (concat bl @ t) d iv) =
    Some (concat (chain (pcbc_enc_step enc) iv bl) @ t', chain_iv (pcbc_enc_step enc) iv bl, length t)"
  unfolding pcbc_encrypt_inplace_def pcbc_encrypt_segment_def
  by (cases inplace) (auto intro!: segment_loop[OF mode_steps(5) assms] inplace_loop[OF mode_steps(5) assms(1-3,5)] simp: step_simps)

lemma pcbc_decrypt_chunk:
  assumes "blocks bsize bl" "bl \<noteq> []" "length t < bsize" "length d = length bl * bsize + length t" "length iv = bsize"
  shows "\<exists>t'. (if inplace then pcbc_decrypt_inplace bsize dec (length bl * bsize + length t) (concat bl @ t) iv
      else pcbc_decrypt_segment bsize dec (length bl * bsize + length t) (concat bl @ t) d iv) =
    Some (concat (chain (pcbc_dec_step dec) iv bl) @ t', chain_iv (pcbc_dec_step dec) iv bl, length t)"
  unfolding pcbc_decrypt_inplace_def pcbc_decrypt_segment_def
  by (cases inplace) (auto intro!: segment_loop[OF mode_steps(6) assms] inplace_loop[OF mode_steps(6) assms(1-3,5)] simp: step_simps)

lemma ctr_crypt_chunk:
  assumes "blocks bsize bl" "bl \<noteq> []" "length t < bsize" "length d = length bl * bsize + length t" "length iv = bsize"
  shows "\<exists>t'. (if inplace then ctr_crypt_inplace bsize enc (length bl * bsize + length t) (concat bl @ t) iv
      else ctr_crypt_segment bsize enc (length bl * bsize + length t) (concat bl @ t) d iv) =
    Some (concat (chain (ctr_step enc) iv bl) @ t', chain_iv (ctr_step enc) iv bl, length t)"
  unfolding ctr_crypt_inplace_def ctr_crypt_segment_def
  by (cases inplace) (auto intro!: segment_loop[OF mode_steps(7) assms] inplace_loop[OF mode_steps(7) assms(1-3,5)] simp: step_simps)

lemma cbc_dec_nth:
  "i < length cl \<Longrightarrow> chain (cbc_dec_step dec) iv cl ! i = xor_bytes (dec (cl ! i)) ((iv # cl) ! i)"
proof (induction cl arbitrary: iv i)
  case (Cons c cl)
  then show ?case by (cases i) (auto simp: cbc_dec_step_def)
qed simp

lemma cbc_dec_iv: "chain_iv (cbc_dec_step dec) iv cl = last (iv # cl)"
  by (induction cl arbitrary: iv) (auto simp: cbc_dec_step_def)

lemma cbc_decrypt_back_step:
  assumes cl: "blocks bsize cl" and pl: "pl = chain (cbc_dec_step dec) iv cl" and iv: "length iv = bsize" and r: "r < bsize"
  shows "i < length cl \<Longrightarrow>
    cbc_decrypt_back bsize dec (Suc i * bsize + r) (i * bsize) (concat (take (Suc i) cl @ drop (Suc i) pl) @ t) =
    Some (concat (dec (cl ! 0) # drop 1 pl) @ t, 0, r)"
proof (induction i)
  case 0
  have pb: "blocks bsize pl" "length pl = length cl"
    using mode.chain_blocks[OF mode_steps(4) iv cl] mode.length_chain[OF mode_steps(4)] by (simp_all add: pl)
  let ?b = "take 1 cl @ drop 1 pl"
  have b: "blocks bsize ?b" "0 < length ?b" using cl pb 0 by (auto simp: blocks_take_drop)
  have n: "?b ! 0 = cl ! 0" "?b[0 := dec (cl ! 0)] = dec (cl ! 0) # drop 1 pl" using 0 by (cases cl; simp)+
  have "length (dec (cl ! 0)) = bsize" using cl 0 length_dec by simp
  then show ?case
    using rd_block[OF b, of t] wr_block[OF b, of "dec (cl ! 0)" t] n bsize_pos r
    by (subst cbc_decrypt_back.simps) simp
next
  case (Suc i)
  have pb: "blocks bsize pl" "length pl = length cl"
    using mode.chain_blocks[OF mode_steps(4) iv cl] mode.length_chain[OF mode_steps(4)] by (simp_all add: pl)
  let ?b = "take (Suc (Suc i)) cl @ drop (Suc (Suc i)) pl"
  have b: "blocks bsize ?b" "Suc i < length ?b" "i < length ?b" using cl pb Suc.prems by (auto simp: blocks_take_drop)
  have n: "?b ! Suc i = cl ! Suc i" "?b ! i = cl ! i" using Suc.prems by (simp_all add: nth_append)
  have p: "crypto_xor (dec (cl ! Suc i)) (cl ! i) = pl ! Suc i"
    using cbc_dec_nth[OF Suc.prems, of iv] cl Suc.prems length_dec by (simp add: pl crypto_xor_eq)
  have "length (pl ! Suc i) = bsize" using pb Suc.prems by simp
  moreover have "?b[Suc i := pl ! Suc i] = take (Suc i) cl @ drop (Suc i) pl"
    using Suc.prems pb(2) by (simp add: take_Suc_conv_app_nth list_update_append Cons_nth_drop_Suc)
  ultimately have w: "wr (Suc i * bsize) (pl ! Suc i) (concat ?b @ t) = Some (concat (take (Suc i) cl @ drop (Suc i) pl) @ t)"
    using wr_block[OF b(1,2), of "pl ! Suc i" t] by simp
  have "cbc_decrypt_back bsize dec (Suc (Suc i) * bsize + r) (Suc i * bsize) (concat ?b @ t) =
      cbc_decrypt_back bsize dec (Suc i * bsize + r) (i * bsize) (concat (take (Suc i) cl @ drop (Suc i) pl) @ t)"
    using rd_block[OF b(1,2), of t] rd_block[OF b(1,3), of t] n p w bsize_pos
    by (subst cbc_decrypt_back.simps) (simp add: add.assoc)
  also have "\<dots> = Some (concat (dec (cl ! 0) # drop 1 pl) @ t, 0, r)" using Suc by simp
  finally show ?case .
qed

lemma cbc_decrypt_inplace_chunk:
  assumes cl: "blocks bsize cl" "cl \<noteq> []" and t: "length t < bsize" and iv: "length iv = bsize" and pow: "bsize = 2 ^ j"
  shows "cbc_decrypt_inplace bsize dec (length cl * bsize + length t) (concat cl @ t) iv =
    Some (concat (chain (cbc_dec_step dec) iv cl) @ t, chain_iv (cbc_dec_step dec) iv cl, length t)"
proof -
  let ?pl = "chain (cbc_dec_step dec) iv cl" and ?i = "length cl - 1" and ?n = "length cl * bsize + length t"
  have len: "length cl = Suc ?i" using cl(2) by (cases cl) auto
  have pb: "blocks bsize ?pl" "length ?pl = length cl"
    using mode.chain_blocks[OF mode_steps(4) iv cl(1)] mode.length_chain[OF mode_steps(4)] by simp_all
  have "?n AND (bsize - 1) = ?n mod bsize"
    unfolding pow by (simp only: mask_eq_exp_minus_1[symmetric] take_bit_eq_mask[symmetric] take_bit_eq_mod)
  then have "?n AND (bsize - 1) = length t" using t by simp
  then have start: "?n - (?n AND (bsize - 1)) - bsize = ?i * bsize" by (subst (1 2) len) simp
  have last: "rd bsize (?i * bsize) (concat cl @ t) = Some (last cl)"
    using rd_block[OF cl(1), of ?i t] len cl(2) by (simp add: last_conv_nth)
  have sn: "Suc ?i * bsize + length t = ?n" using len by simp
  have loop: "cbc_decrypt_back bsize dec ?n (?i * bsize) (concat cl @ t) = Some (concat (dec (cl ! 0) # drop 1 ?pl) @ t, 0, length t)"
    using cbc_decrypt_back_step[OF cl(1) refl iv t, of ?i t] len pb(2) unfolding sn by simp
  let ?b = "dec (cl ! 0) # drop 1 ?pl"
  have b: "blocks bsize ?b" "0 < length ?b" using pb cl length_dec by (auto simp: blocks_take_drop)
  have "crypto_xor (dec (cl ! 0)) iv = ?pl ! 0"
    using cbc_dec_nth[of 0 cl iv] cl iv length_dec by (simp add: crypto_xor_eq)
  moreover have "?b[0 := ?pl ! 0] = ?pl" using pb(2) cl(2) by (cases ?pl) auto
  ultimately have "wr 0 (crypto_xor (dec (cl ! 0)) iv) (concat ?b @ t) = Some (concat ?pl @ t)"
    using wr_block[OF b, of "?pl ! 0" t] pb cl(2) by simp
  moreover have "rd bsize 0 (concat ?b @ t) = Some (dec (cl ! 0))" using rd_block[OF b, of t] by simp
  ultimately show ?thesis
    using last loop start cl(2) by (simp add: cbc_decrypt_inplace_def Let_def cbc_dec_iv)
qed

lemma cbc_decrypt_chunk:
  assumes "blocks bsize bl" "bl \<noteq> []" "length t < bsize" "length d = length bl * bsize + length t" "length iv = bsize"
    and pow: "bsize = 2 ^ j"
  shows "\<exists>t'. (if inplace then cbc_decrypt_inplace bsize dec (length bl * bsize + length t) (concat bl @ t) iv
      else cbc_decrypt_segment bsize dec (length bl * bsize + length t) (concat bl @ t) d iv) =
    Some (concat (chain (cbc_dec_step dec) iv bl) @ t', chain_iv (cbc_dec_step dec) iv bl, length t)"
proof (cases inplace)
  case True
  then show ?thesis using cbc_decrypt_inplace_chunk[OF assms(1-3,5) pow] by simp
next
  case False
  then show ?thesis unfolding cbc_decrypt_segment_def
    by (auto intro!: segment_loop[OF mode_steps(4) assms(1-5)] simp: step_simps)
qed

text \<open>The modes as implementations, and their inverses.\<close>

lemma ecb_inverse: "inverse_modes bsize 0 (ecb_step enc) (ecb_crypt bsize enc) (ecb_step dec) (ecb_crypt bsize dec)"
  by (intro inverse_modes.intro chunk_mode.intro chunk_mode_axioms.intro inverse_modes_axioms.intro mode_steps)
    (use ecb_crypt_chunk dec_enc in \<open>auto simp: ecb_step_def\<close>)

lemma xor_cancel: "length a = bsize \<Longrightarrow> length b = bsize \<Longrightarrow> xor_bytes (xor_bytes a b) b = a"
  by (simp add: xor_bytes_cancel)

lemma cbc_inverse:
  assumes "bsize = 2 ^ j"
  shows "inverse_modes bsize bsize
    (cbc_enc_step enc) (\<lambda>inplace nbytes src dst iv. if inplace then cbc_encrypt_inplace bsize enc nbytes src iv
       else cbc_encrypt_segment bsize enc nbytes src dst iv)
    (cbc_dec_step dec) (\<lambda>inplace nbytes src dst iv. if inplace then cbc_decrypt_inplace bsize dec nbytes src iv
       else cbc_decrypt_segment bsize dec nbytes src dst iv)"
  by (intro inverse_modes.intro chunk_mode.intro chunk_mode_axioms.intro inverse_modes_axioms.intro mode_steps
      cbc_encrypt_chunk cbc_decrypt_chunk[OF _ _ _ _ _ assms])
    (auto simp: cbc_enc_step_def cbc_dec_step_def Let_def dec_enc xor_cancel)

lemma pcbc_inverse: "inverse_modes bsize bsize
    (pcbc_enc_step enc) (\<lambda>inplace nbytes src dst iv. if inplace then pcbc_encrypt_inplace bsize enc nbytes src iv
       else pcbc_encrypt_segment bsize enc nbytes src dst iv)
    (pcbc_dec_step dec) (\<lambda>inplace nbytes src dst iv. if inplace then pcbc_decrypt_inplace bsize dec nbytes src iv
       else pcbc_decrypt_segment bsize dec nbytes src dst iv)"
  by (intro inverse_modes.intro chunk_mode.intro chunk_mode_axioms.intro inverse_modes_axioms.intro mode_steps
      pcbc_encrypt_chunk pcbc_decrypt_chunk)
    (auto simp: pcbc_enc_step_def pcbc_dec_step_def Let_def dec_enc xor_cancel)

lemma ctr_inverse: "inverse_modes bsize bsize
    (ctr_step enc) (\<lambda>inplace nbytes src dst iv. if inplace then ctr_crypt_inplace bsize enc nbytes src iv
       else ctr_crypt_segment bsize enc nbytes src dst iv)
    (ctr_step enc) (\<lambda>inplace nbytes src dst iv. if inplace then ctr_crypt_inplace bsize enc nbytes src iv
       else ctr_crypt_segment bsize enc nbytes src dst iv)"
  by (intro inverse_modes.intro chunk_mode.intro chunk_mode_axioms.intro inverse_modes_axioms.intro mode_steps
      ctr_crypt_chunk)
    (auto simp: ctr_step_def xor_cancel length_enc)

text \<open>A counter-mode request: the whole blocks, then the last bytes under the next key stream block.\<close>

definition ctr_stream :: "u8 list \<Rightarrow> u8 list list \<Rightarrow> u8 list \<Rightarrow> u8 list" where
  "ctr_stream iv bl t = concat (chain (ctr_step enc) iv bl) @ xor_bytes t (take (length t) (enc (chain_iv (ctr_step enc) iv bl)))"

lemma ctr_request:
  assumes bl: "blocks bsize bl" and t: "length t < bsize" and d: "length dst = length bl * bsize + length t"
    and iv: "length iv = bsize" and c: "chunks_ok bsize (length bl * bsize + length t) chunks"
  shows "map_option fst (ctr_crypt bsize enc (chunks @ [(length t, inplace)]) (concat bl @ t) dst iv) = Some (ctr_stream iv bl t)"
proof -
  let ?o = "concat (chain (ctr_step enc) iv bl)" and ?iv = "chain_iv (ctr_step enc) iv bl"
  let ?f = "\<lambda>inplace nbytes src dst iv. if inplace then ctr_crypt_inplace bsize enc nbytes src iv
      else ctr_crypt_segment bsize enc nbytes src dst iv"
  have cm: "chunk_mode bsize bsize (ctr_step enc) ?f" using ctr_inverse by (rule inverse_modes.axioms)
  have lo: "length ?o = length bl * bsize"
    using mode.chain_blocks[OF mode_steps(7) iv bl] mode.length_chain[OF mode_steps(7)] by simp
  have "length ?iv = bsize" using mode.length_chain_iv[OF mode_steps(7) iv bl] .
  then have le: "length (enc ?iv) = bsize" by (rule length_enc)
  have w: "walk_crypt (\<lambda>n. bsize \<le> n) ?f (chunks @ [(length t, inplace)]) 0 (concat bl @ t) dst iv =
      Some ([(length t, inplace)], length bl * bsize, ?o @ drop (length bl * bsize) dst, ?iv)"
    using chunk_mode.walk_crypt_chain[OF cm bl t, of "\<lambda>n. bsize \<le> n" "[(length t, inplace)]" dst 0 iv chunks] t d iv c by simp
  have r: "rd (length t) (length bl * bsize) (concat bl @ t) = Some t" using bl by (simp add: rd_def)
  let ?x = "xor_bytes t (take (length t) (enc ?iv))"
  have x: "crypto_xor (take (length t) (enc ?iv)) t = ?x"
    using le t by (simp add: crypto_xor_eq xor_bytes_commute)
  have "wr (length bl * bsize) ?x (?o @ drop (length bl * bsize) dst) = Some (?o @ ?x)"
    using lo d le t by (simp add: wr_def)
  then show ?thesis using w r x le t lo d
    by (cases "t = []") (simp_all add: ctr_crypt_def ctr_crypt_final_def Let_def ctr_stream_def)
qed

lemma ctr_stream_inverse:
  assumes bl: "blocks bsize bl" and t: "length t < bsize" and iv: "length iv = bsize"
  shows "\<exists>cl u. ctr_stream iv bl t = concat cl @ u \<and> blocks bsize cl \<and> length cl = length bl \<and> length u = length t \<and>
    ctr_stream iv cl u = concat bl @ t"
proof -
  let ?cl = "chain (ctr_step enc) iv bl" and ?iv = "chain_iv (ctr_step enc) iv bl"
  let ?u = "xor_bytes t (take (length t) (enc ?iv))"
  have inv: "chain (ctr_step enc) iv ?cl = bl" "chain_iv (ctr_step enc) iv ?cl = ?iv"
    using inverse_modes.chain_inverse[OF ctr_inverse iv bl] by simp_all
  have "length ?iv = bsize" using mode.length_chain_iv[OF mode_steps(7) iv bl] .
  then have le: "length (enc ?iv) = bsize" by (rule length_enc)
  then have "ctr_stream iv ?cl ?u = concat bl @ t" using t inv by (simp add: ctr_stream_def xor_bytes_cancel)
  moreover have "blocks bsize ?cl" "length ?cl = length bl"
    using mode.chain_blocks[OF mode_steps(7) iv bl] mode.length_chain[OF mode_steps(7)] by simp_all
  moreover have "length ?u = length t" using le t by simp
  moreover have "ctr_stream iv bl t = concat ?cl @ ?u" by (simp add: ctr_stream_def)
  ultimately show ?thesis by blast
qed

end

section \<open>The modes over the ciphers of the tree\<close>

interpretation tea_ecb: inverse_modes 8 0 "ecb_step (tea_encrypt ctx)" "ecb_crypt 8 (tea_encrypt ctx)"
    "ecb_step (tea_decrypt ctx)" "ecb_crypt 8 (tea_decrypt ctx)" for ctx
  by (rule tea.ecb_inverse)

interpretation bf_pcbc_step: mode 8 8 "pcbc_enc_step (bf_encrypt ctx)" for ctx
  by (rule blowfish.mode_steps)

interpretation xtea_ctr: chunk_mode 8 8 "ctr_step (xtea_encrypt ctx)"
    "\<lambda>inplace nbytes src dst iv. if inplace then ctr_crypt_inplace 8 (xtea_encrypt ctx) nbytes src iv
       else ctr_crypt_segment 8 (xtea_encrypt ctx) nbytes src dst iv" for ctx
  using xtea.ctr_inverse by (rule inverse_modes.axioms)

section \<open>Properties\<close>

text \<open>
  C19. TEA, XTEA, XETA and Blowfish: decrypting an encrypted block gives the block back, under every key
  context.
\<close>

theorem ciphers_invertible:
  assumes "length b = 8"
  shows "tea_decrypt tctx (tea_encrypt tctx b) = b \<and> xtea_decrypt xctx (xtea_encrypt xctx b) = b \<and>
    xeta_decrypt xctx (xeta_encrypt xctx b) = b \<and> bf_decrypt bctx (bf_encrypt bctx b) = b"
  using tea.dec_enc xtea.dec_enc xeta.dec_enc blowfish.dec_enc assms by blast

theorem ciphers_invertible_witness:
  "tea_decrypt (tea_setkey (replicate 16 1)) (tea_encrypt (tea_setkey (replicate 16 1)) [1, 2, 3, 4, 5, 6, 7, 8]) =
     [1, 2, 3, 4, 5, 6, 7, 8]"
  using ciphers_invertible[of "[1, 2, 3, 4, 5, 6, 7, 8]" "tea_setkey (replicate 16 1)"] by simp

text \<open>
  C20. CBC over any block cipher with a power-of-two block size: however the request is cut into chunks, and
  whichever chunks run in place, encryption succeeds, and decryption under any other cutting restores the
  plaintext and ends with the same IV.
\<close>

theorem cbc_roundtrip:
  assumes "block_cipher bsize enc dec" and "bsize = 2 ^ j" and "blocks bsize bl" and "length iv = bsize"
    and "length buf1 = length bl * bsize" and "length buf2 = length bl * bsize"
    and "chunks_ok bsize (length bl * bsize) chunks1" and "chunks_ok bsize (length bl * bsize) chunks2"
  shows "\<exists>c iv'. cbc_encrypt bsize enc chunks1 (concat bl) buf1 iv = Some (c, iv') \<and>
    cbc_decrypt bsize dec chunks2 c buf2 iv = Some (concat bl, iv')"
  unfolding cbc_encrypt_def cbc_decrypt_def
  by (rule inverse_modes.roundtrip[OF block_cipher.cbc_inverse[OF assms(1,2)] assms(3-8)])

theorem cbc_roundtrip_witness:
  "\<exists>c iv'. cbc_encrypt 8 (tea_encrypt (tea_setkey (replicate 16 1))) [(16, True)]
      (concat [replicate 8 5, replicate 8 6]) (replicate 16 0) (replicate 8 9) = Some (c, iv') \<and>
    cbc_decrypt 8 (tea_decrypt (tea_setkey (replicate 16 1))) [(12, False), (8, True)] c (replicate 16 0) (replicate 8 9) =
      Some (concat [replicate 8 5, replicate 8 6], iv')"
  by (rule cbc_roundtrip[where j = 3]) (simp_all add: tea.block_cipher_axioms)

text \<open>C21. The same for PCBC, over any block size.\<close>

theorem pcbc_roundtrip:
  assumes "block_cipher bsize enc dec" and "blocks bsize bl" and "length iv = bsize"
    and "length buf1 = length bl * bsize" and "length buf2 = length bl * bsize"
    and "chunks_ok bsize (length bl * bsize) chunks1" and "chunks_ok bsize (length bl * bsize) chunks2"
  shows "\<exists>c iv'. pcbc_encrypt bsize enc chunks1 (concat bl) buf1 iv = Some (c, iv') \<and>
    pcbc_decrypt bsize dec chunks2 c buf2 iv = Some (concat bl, iv')"
  unfolding pcbc_encrypt_def pcbc_decrypt_def
  by (rule inverse_modes.roundtrip[OF block_cipher.pcbc_inverse[OF assms(1)] assms(2-7)])

theorem pcbc_roundtrip_witness:
  "\<exists>c iv'. pcbc_encrypt 8 (bf_encrypt (bf_setkey [1, 2, 3, 4])) [(16, True)]
      (concat [replicate 8 5, replicate 8 6]) (replicate 16 0) (replicate 8 9) = Some (c, iv') \<and>
    pcbc_decrypt 8 (bf_decrypt (bf_setkey [1, 2, 3, 4])) [(12, False), (8, True)] c (replicate 16 0) (replicate 8 9) =
      Some (concat [replicate 8 5, replicate 8 6], iv')"
  by (rule pcbc_roundtrip) (simp_all add: blowfish.block_cipher_axioms)

text \<open>
  C22. CTR is its own inverse on data of any length, the last partial block included, for any cutting of the
  request that keeps whole blocks together.
\<close>

theorem ctr_roundtrip:
  assumes c: "block_cipher bsize enc dec" and b: "blocks bsize bl" "length t < bsize" "length iv = bsize"
    and l: "length buf1 = length bl * bsize + length t" "length buf2 = length bl * bsize + length t"
    and k: "chunks_ok bsize (length bl * bsize + length t) chunks1" "chunks_ok bsize (length bl * bsize + length t) chunks2"
  shows "\<exists>c. map_option fst (ctr_crypt bsize enc (chunks1 @ [(length t, inplace1)]) (concat bl @ t) buf1 iv) = Some c \<and>
    map_option fst (ctr_crypt bsize enc (chunks2 @ [(length t, inplace2)]) c buf2 iv) = Some (concat bl @ t)"
proof -
  note request = block_cipher.ctr_request[OF c]
  obtain cl u where cl: "block_cipher.ctr_stream enc iv bl t = concat cl @ u" "blocks bsize cl" "length cl = length bl"
      "length u = length t" "block_cipher.ctr_stream enc iv cl u = concat bl @ t"
    using block_cipher.ctr_stream_inverse[OF c b] by blast
  have "map_option fst (ctr_crypt bsize enc (chunks1 @ [(length t, inplace1)]) (concat bl @ t) buf1 iv) = Some (concat cl @ u)"
    using request[OF b(1,2) l(1) b(3) k(1), of inplace1] cl(1) by simp
  moreover have "map_option fst (ctr_crypt bsize enc (chunks2 @ [(length t, inplace2)]) (concat cl @ u) buf2 iv) = Some (concat bl @ t)"
    using request[OF cl(2), of u buf2 iv chunks2 inplace2] cl(3-5) b l k by simp
  ultimately show ?thesis by blast
qed

theorem ctr_roundtrip_witness:
  "\<exists>c. map_option fst (ctr_crypt 8 (xtea_encrypt (xtea_setkey (replicate 16 1))) ([(11, True)] @ [(length [1, 2, 3 :: u8], True)])
      (concat [replicate 8 5] @ [1, 2, 3]) (replicate 11 0) (replicate 8 255)) = Some c \<and>
    map_option fst (ctr_crypt 8 (xtea_encrypt (xtea_setkey (replicate 16 1))) ([(8, False)] @ [(length [1, 2, 3 :: u8], False)])
      c (replicate 11 0) (replicate 8 255)) = Some (concat [replicate 8 5] @ [1, 2, 3])"
  by (rule ctr_roundtrip[where dec = "xtea_decrypt (xtea_setkey (replicate 16 1))"]) (simp_all add: xtea.block_cipher_axioms)

text \<open>C23. The counter: \<^verbatim>\<open>crypto_inc\<close> adds one to the big-endian number the block holds and wraps at its length.\<close>

theorem crypto_inc_value: "be_value (crypto_inc a) = (be_value a + 1) mod 256 ^ length a \<and> length (crypto_inc a) = length a"
  using be_value_crypto_inc by simp

end
