(* ===== verification/Task_Groups.thy ===== *)
theory Task_Groups
  imports Kernel_Prelude "HOL-Library.Multiset" "HOL-Library.Monad_Syntax"
begin

text \<open>
  Supplementary group ids, \<^verbatim>\<open>kernel/sys.c\<close> and \<^verbatim>\<open>struct group_info\<close> of \<^verbatim>\<open>include/linux/sched.h\<close>: the
  array of pages that holds the ids, its transfer from and to user space, the Shell sort, the binary search,
  and the system calls on top. The group ids of the model are those of \<^verbatim>\<open>GROUP_AT\<close>, read through the
  block table, and an access outside a block has no result. What the code gets from elsewhere is an
  argument: the memory the allocator hands out, the user's memory (a map from array positions, \<open>None\<close> where
  it faults), the verdicts of \<^verbatim>\<open>capable\<close> and of the security module.
\<close>

section \<open>Model\<close>

type_synonym gid = u32

definition NGROUPS_SMALL :: nat where "NGROUPS_SMALL = 32"
definition NGROUPS_PER_BLOCK :: nat where "NGROUPS_PER_BLOCK = 1024"
definition NGROUPS_MAX :: int where "NGROUPS_MAX = 65536"

record group_info =
  ngroups :: nat
  usage :: int
  nblocks :: nat
  blocks :: "gid list list"

definition GROUP_AT :: "group_info \<Rightarrow> int \<Rightarrow> gid option" where
  "GROUP_AT gi i =
     (let b = nat i div NGROUPS_PER_BLOCK; j = nat i mod NGROUPS_PER_BLOCK in
      if 0 \<le> i \<and> b < length (blocks gi) \<and> j < length (blocks gi ! b) then Some (blocks gi ! b ! j) else None)"

definition GROUP_PUT :: "group_info \<Rightarrow> int \<Rightarrow> gid \<Rightarrow> group_info option" where
  "GROUP_PUT gi i v =
     (let b = nat i div NGROUPS_PER_BLOCK; j = nat i mod NGROUPS_PER_BLOCK in
      if 0 \<le> i \<and> b < length (blocks gi) \<and> j < length (blocks gi ! b)
      then Some (gi\<lparr>blocks := (blocks gi)[b := (blocks gi ! b)[j := v]]\<rparr>) else None)"

text \<open>
  \<^verbatim>\<open>groups_alloc\<close>: \<open>small\<close> is the uninitialised \<^verbatim>\<open>small_block\<close> of the object \<^verbatim>\<open>kmalloc\<close> returned, if any, and
  \<open>page i\<close> the uninitialised page the \<open>i\<close>-th request gets, if any.
\<close>

definition groups_alloc :: "nat \<Rightarrow> gid list option \<Rightarrow> (nat \<Rightarrow> gid list option) \<Rightarrow> group_info option" where
  "groups_alloc gidsetsize small page =
     (let nb = (gidsetsize + NGROUPS_PER_BLOCK - 1) div NGROUPS_PER_BLOCK; nb = (if nb \<noteq> 0 then nb else 1) in do {
        small \<leftarrow> small;
        bs \<leftarrow> if gidsetsize \<le> NGROUPS_SMALL then Some [small] else those (map page [0..<nb]);
        Some \<lparr>ngroups = gidsetsize, usage = 1, nblocks = nb, blocks = bs\<rparr>
      })"

text \<open>User memory, \<^verbatim>\<open>copy_from_user\<close> and \<^verbatim>\<open>copy_to_user\<close>.\<close>

type_synonym umem = "nat \<Rightarrow> gid option"

definition copy_from_user :: "umem \<Rightarrow> nat \<Rightarrow> nat \<Rightarrow> gid list option" where
  "copy_from_user u off n = those (map u [off..<off + n])"

definition copy_to_user :: "umem \<Rightarrow> nat \<Rightarrow> gid list \<Rightarrow> umem option" where
  "copy_to_user u off xs =
     (if \<forall>j \<in> set [off..<off + length xs]. u j \<noteq> None
      then Some (\<lambda>j. if off \<le> j \<and> j < off + length xs then Some (xs ! (j - off)) else u j) else None)"

text \<open>
  The two transfer loops over the blocks, with the position reached in the user's array and the count that
  is left.
\<close>

fun groups_to_user_loop :: "gid list list \<Rightarrow> nat \<Rightarrow> nat \<Rightarrow> umem \<Rightarrow> umem kresult" where
  "groups_to_user_loop [] off cnt u = Ok u"
| "groups_to_user_loop (b # bs) off cnt u =
     (let cp_count = min NGROUPS_PER_BLOCK cnt in
      if length b < cp_count then Bug
      else case copy_to_user u off (take cp_count b) of
          None \<Rightarrow> Err EFAULT
        | Some u \<Rightarrow> groups_to_user_loop bs (off + NGROUPS_PER_BLOCK) (cnt - cp_count) u)"

definition groups_to_user :: "umem \<Rightarrow> group_info \<Rightarrow> umem kresult" where
  "groups_to_user u gi = groups_to_user_loop (take (nblocks gi) (blocks gi)) 0 (ngroups gi) u"

fun groups_from_user_loop :: "gid list list \<Rightarrow> nat \<Rightarrow> nat \<Rightarrow> umem \<Rightarrow> gid list list kresult" where
  "groups_from_user_loop [] off cnt u = Ok []"
| "groups_from_user_loop (b # bs) off cnt u =
     (let cp_count = min NGROUPS_PER_BLOCK cnt in
      if length b < cp_count then Bug
      else case copy_from_user u off cp_count of
          None \<Rightarrow> Err EFAULT
        | Some xs \<Rightarrow>
            (case groups_from_user_loop bs (off + NGROUPS_PER_BLOCK) (cnt - cp_count) u of
               Ok bs \<Rightarrow> Ok ((xs @ drop cp_count b) # bs)
             | r \<Rightarrow> r))"

definition groups_from_user :: "group_info \<Rightarrow> umem \<Rightarrow> group_info kresult" where
  "groups_from_user gi u =
     (case groups_from_user_loop (take (nblocks gi) (blocks gi)) 0 (ngroups gi) u of
        Ok bs \<Rightarrow> Ok (gi\<lparr>blocks := bs @ drop (nblocks gi) (blocks gi)\<rparr>)
      | Err e \<Rightarrow> Err e
      | Bug \<Rightarrow> Bug)"

text \<open>
  \<^verbatim>\<open>groups_sort\<close>: the inner loop moves larger elements up by one stride and drops \<open>tmp\<close> into the gap; a stride
  of zero does not occur there (the outer loop ends on it).
\<close>

function groups_sift :: "nat \<Rightarrow> gid \<Rightarrow> int \<Rightarrow> int \<Rightarrow> group_info \<Rightarrow> group_info option" where
  "groups_sift stride tmp left right gi =
     (if 0 \<le> left \<and> stride \<noteq> 0 then do {
        v \<leftarrow> GROUP_AT gi left;
        if v > tmp then do {
          gi \<leftarrow> GROUP_PUT gi right v;
          groups_sift stride tmp (left - int stride) left gi
        } else GROUP_PUT gi right tmp
      } else GROUP_PUT gi right tmp)"
  by auto
termination by (relation "measure (\<lambda>(stride, tmp, left, right, gi). nat (left + 1))") auto

fun groups_pass :: "nat \<Rightarrow> nat list \<Rightarrow> group_info \<Rightarrow> group_info option" where
  "groups_pass stride [] gi = Some gi"
| "groups_pass stride (base # bases) gi = do {
     tmp \<leftarrow> GROUP_AT gi (int (base + stride));
     gi \<leftarrow> groups_sift stride tmp (int base) (int (base + stride)) gi;
     groups_pass stride bases gi
   }"

function groups_stride :: "nat \<Rightarrow> nat \<Rightarrow> nat" where
  "groups_stride gidsetsize stride = (if stride < gidsetsize then groups_stride gidsetsize (3 * stride + 1) else stride)"
  by auto
termination by (relation "measure (\<lambda>(n, s). n - s)") auto

fun groups_strides :: "nat \<Rightarrow> group_info \<Rightarrow> group_info option" where
  "groups_strides stride gi =
     (if stride = 0 then Some gi
      else do { gi \<leftarrow> groups_pass stride [0..<ngroups gi - stride] gi; groups_strides (stride div 3) gi })"

definition groups_sort :: "group_info \<Rightarrow> group_info option" where
  "groups_sort gi = groups_strides (groups_stride (ngroups gi) 1 div 3) gi"

text \<open>\<^verbatim>\<open>groups_search\<close>: the comparison is the sign of the wrapped difference.\<close>

function groups_bsearch :: "group_info \<Rightarrow> gid \<Rightarrow> nat \<Rightarrow> nat \<Rightarrow> bool option" where
  "groups_bsearch gi grp left right =
     (if left < right then do {
        let mid = (left + right) div 2;
        v \<leftarrow> GROUP_AT gi (int mid);
        let cmp = sint (grp - v);
        if cmp > 0 then groups_bsearch gi grp (mid + 1) right
        else if cmp < 0 then groups_bsearch gi grp left mid
        else Some True
      } else Some False)"
  by auto
termination by (relation "measure (\<lambda>(gi, grp, left, right). right - left)") auto

definition groups_search :: "group_info option \<Rightarrow> gid \<Rightarrow> bool option" where
  "groups_search gi grp =
     (case gi of
        None \<Rightarrow> Some False
      | Some gi \<Rightarrow> groups_bsearch gi grp 0 (ngroups gi))"

text \<open>The group lists in use and the ids of the current task.\<close>

record cred_state =
  gheap :: "nat \<rightharpoonup> group_info"
  cur_groups :: nat
  fsgid :: gid
  egid :: gid

definition get_group_info :: "nat \<Rightarrow> cred_state \<Rightarrow> cred_state option" where
  "get_group_info a s =
     map_option (\<lambda>gi. s\<lparr>gheap := (gheap s)(a \<mapsto> gi\<lparr>usage := usage gi + 1\<rparr>)\<rparr>) (gheap s a)"

definition put_group_info :: "nat \<Rightarrow> cred_state \<Rightarrow> cred_state option" where
  "put_group_info a s =
     map_option (\<lambda>gi. s\<lparr>gheap := (gheap s)(a := (if usage gi - 1 = 0 then None else Some (gi\<lparr>usage := usage gi - 1\<rparr>)))\<rparr>)
       (gheap s a)"

definition set_current_groups :: "errno option \<Rightarrow> nat \<Rightarrow> cred_state \<Rightarrow> (unit kresult \<times> cred_state) option" where
  "set_current_groups security a s =
     (case security of
        Some e \<Rightarrow> Some (Err e, s)
      | None \<Rightarrow> do {
          gi \<leftarrow> gheap s a;
          gi \<leftarrow> groups_sort gi;
          let s = s\<lparr>gheap := (gheap s)(a \<mapsto> gi)\<rparr>;
          s \<leftarrow> get_group_info a s;
          let old_info = cur_groups s;
          s \<leftarrow> put_group_info old_info (s\<lparr>cur_groups := a\<rparr>);
          Some (Ok (), s)
        })"

text \<open>
  The system calls. The new object of \<^verbatim>\<open>sys_setgroups\<close> gets the unused address \<open>a\<close>; no result (or
  \<open>Bug\<close>) stands for an access outside an object. What a failed transfer leaves in the user's array is not
  described.
\<close>

definition sys_setgroups :: "bool \<Rightarrow> errno option \<Rightarrow> nat \<Rightarrow> gid list option \<Rightarrow> (nat \<Rightarrow> gid list option) \<Rightarrow>
    int \<Rightarrow> umem \<Rightarrow> cred_state \<Rightarrow> (unit kresult \<times> cred_state) option" where
  "sys_setgroups cap_setgid security a small page gidsetsize grouplist s =
     (if \<not> cap_setgid then Some (Err EPERM, s)
      else if gidsetsize < 0 \<or> gidsetsize > NGROUPS_MAX then Some (Err EINVAL, s)
      else case groups_alloc (nat gidsetsize) small page of
          None \<Rightarrow> Some (Err ENOMEM, s)
        | Some gi \<Rightarrow>
            let s = s\<lparr>gheap := (gheap s)(a \<mapsto> gi)\<rparr> in
            (case groups_from_user gi grouplist of
               Bug \<Rightarrow> None
             | Err e \<Rightarrow> map_option (\<lambda>s. (Err e, s)) (put_group_info a s)
             | Ok gi \<Rightarrow> do {
                 (retval, s) \<leftarrow> set_current_groups security a (s\<lparr>gheap := (gheap s)(a \<mapsto> gi)\<rparr>);
                 s \<leftarrow> put_group_info a s;
                 Some (retval, s)
               }))"

definition sys_getgroups :: "int \<Rightarrow> umem \<Rightarrow> cred_state \<Rightarrow> (int \<times> umem) kresult" where
  "sys_getgroups gidsetsize grouplist s =
     (if gidsetsize < 0 then Err EINVAL
      else case gheap s (cur_groups s) of
          None \<Rightarrow> Bug
        | Some gi \<Rightarrow>
            if gidsetsize = 0 then Ok (int (ngroups gi), grouplist)
            else if int (ngroups gi) > gidsetsize then Err EINVAL
            else (case groups_to_user grouplist gi of
                    Bug \<Rightarrow> Bug
                  | Err _ \<Rightarrow> Err EFAULT
                  | Ok u \<Rightarrow> Ok (int (ngroups gi), u)))"

definition in_group_p :: "gid \<Rightarrow> cred_state \<Rightarrow> bool option" where
  "in_group_p grp s = (if grp \<noteq> fsgid s then groups_search (gheap s (cur_groups s)) grp else Some True)"

definition in_egroup_p :: "gid \<Rightarrow> cred_state \<Rightarrow> bool option" where
  "in_egroup_p grp s = (if grp \<noteq> egid s then groups_search (gheap s (cur_groups s)) grp else Some True)"

declare groups_sift.simps [simp del] groups_stride.simps [simp del] groups_strides.simps [simp del] groups_bsearch.simps [simp del]

section \<open>Abstraction\<close>

text \<open>
  The ids a \<^verbatim>\<open>group_info\<close> holds, as a list, and what a well-formed one is: every block but the last is full,
  none is longer, and together they have room for all ids.
\<close>

definition group_ids :: "group_info \<Rightarrow> gid list" where
  "group_ids gi = take (ngroups gi) (concat (blocks gi))"

definition shape_ok :: "gid list list \<Rightarrow> bool" where
  "shape_ok bs \<longleftrightarrow> (\<forall>b \<in> set (butlast bs). length b = NGROUPS_PER_BLOCK) \<and> (\<forall>b \<in> set bs. length b \<le> NGROUPS_PER_BLOCK)"

definition gi_ok :: "group_info \<Rightarrow> bool" where
  "gi_ok gi \<longleftrightarrow> nblocks gi = length (blocks gi) \<and> ngroups gi \<le> length (concat (blocks gi)) \<and> shape_ok (blocks gi)"

text \<open>\<open>holds h gi xs\<close>: the object with header \<open>h\<close> is well-formed and holds the ids \<open>xs\<close>.\<close>

definition holds :: "group_info \<Rightarrow> group_info \<Rightarrow> gid list \<Rightarrow> bool" where
  "holds h gi xs \<longleftrightarrow> gi_ok gi \<and> group_ids gi = xs \<and> gi\<lparr>blocks := []\<rparr> = h"

lemma block_size_pos [simp]: "0 < NGROUPS_PER_BLOCK" by (simp add: NGROUPS_PER_BLOCK_def)

lemma shape_ok_simps [simp]:
  "shape_ok []" "shape_ok (b # bs) \<longleftrightarrow> length b \<le> NGROUPS_PER_BLOCK \<and> (bs \<noteq> [] \<longrightarrow> length b = NGROUPS_PER_BLOCK) \<and> shape_ok bs"
  by (auto simp: shape_ok_def)

lemma block_table:
  assumes "shape_ok bs" and "i < length (concat bs)"
  defines "b \<equiv> i div NGROUPS_PER_BLOCK" and "j \<equiv> i mod NGROUPS_PER_BLOCK"
  shows "b < length bs \<and> j < length (bs ! b) \<and> bs ! b ! j = concat bs ! i \<and>
    concat (bs[b := (bs ! b)[j := v]]) = (concat bs)[i := v] \<and> shape_ok (bs[b := (bs ! b)[j := v]])"
  using assms(1,2) unfolding b_def j_def
proof (induction bs arbitrary: i)
  case (Cons c bs)
  show ?case
  proof (cases "i < length c")
    case True
    then have "i < NGROUPS_PER_BLOCK" using Cons.prems(1) by simp
    then show ?thesis using True Cons.prems(1) by (simp add: nth_append list_update_append)
  next
    case False
    then have "length c = NGROUPS_PER_BLOCK" using Cons.prems by (cases bs) auto
    moreover define k where "k = i - NGROUPS_PER_BLOCK"
    ultimately have i: "i = k + NGROUPS_PER_BLOCK" "length c = NGROUPS_PER_BLOCK" using False by simp_all
    then have "k < length (concat bs)" "shape_ok bs" using Cons.prems by simp_all
    moreover have "i div NGROUPS_PER_BLOCK = Suc (k div NGROUPS_PER_BLOCK)" "i mod NGROUPS_PER_BLOCK = k mod NGROUPS_PER_BLOCK"
      using i(1) by (simp_all add: div_add_self2)
    ultimately show ?thesis using Cons.IH[of k] Cons.prems i by (auto simp: nth_append list_update_append)
  qed
qed simp

lemma GROUP_AT_holds:
  assumes "holds h gi xs" and "i < length xs"
  shows "GROUP_AT gi (int i) = Some (xs ! i)"
  using assms block_table[of "blocks gi" i] by (auto simp: holds_def gi_ok_def group_ids_def GROUP_AT_def Let_def)

lemma GROUP_PUT_holds:
  assumes "holds h gi xs" and "i < length xs"
  shows "\<exists>gi'. GROUP_PUT gi (int i) v = Some gi' \<and> holds h gi' (xs[i := v])"
proof -
  have "i < length (concat (blocks gi))" "shape_ok (blocks gi)" using assms by (auto simp: holds_def gi_ok_def group_ids_def)
  from block_table[OF this(2,1), of v] assms show ?thesis
    by (auto simp: holds_def gi_ok_def group_ids_def GROUP_PUT_def Let_def take_update_swap)
qed

lemma holds_length: "holds h gi xs \<Longrightarrow> ngroups gi = length xs"
  by (auto simp: holds_def gi_ok_def group_ids_def)

section \<open>Sorting\<close>

lemma groups_sift_mset:
  assumes "holds h gi xs" and "0 < stride" and "left = right - int stride" and "0 \<le> right" and "right < int (length xs)"
  shows "\<exists>gi' ys. groups_sift stride tmp left right gi = Some gi' \<and> holds h gi' ys \<and> mset ys = mset (xs[nat right := tmp])"
  using assms
proof (induction stride tmp left right gi arbitrary: xs rule: groups_sift.induct)
  case (1 stride tmp left right gi)
  let ?r = "nat right" and ?l = "nat left"
  have r: "?r < length xs" "int ?r = right" using 1(5,6) by auto
  obtain gi1 where fin: "GROUP_PUT gi right tmp = Some gi1" "holds h gi1 (xs[?r := tmp])"
    using GROUP_PUT_holds[OF 1(2), of ?r tmp] r by auto
  show ?case
  proof (cases "0 \<le> left \<and> xs ! ?l > tmp")
    case True
    have l: "?l < length xs" "left = int ?l" "?l < ?r" using True 1(3-6) by auto
    obtain gi2 where put: "GROUP_PUT gi right (xs ! ?l) = Some gi2" "holds h gi2 (xs[?r := xs ! ?l])"
      using GROUP_PUT_holds[OF 1(2), of ?r "xs ! ?l"] r by auto
    have at: "GROUP_AT gi left = Some (xs ! ?l)" using GROUP_AT_holds[OF 1(2) l(1)] l(2) by simp
    have "0 \<le> left" "left < int (length (xs[?r := xs ! ?l]))" using True l(1,2) unfolding length_list_update by linarith+
    from 1(1)[OF _ at _ put(1) put(2) 1(3) refl this] True 1(3)
    obtain gi' ys where ih: "groups_sift stride tmp (left - int stride) left gi2 = Some gi'" "holds h gi' ys"
      "mset ys = mset (xs[?r := xs ! ?l, ?l := tmp])" by auto
    have "mset (xs[?r := tmp, ?r := xs[?r := tmp] ! ?l, ?l := xs[?r := tmp] ! ?r]) = mset (xs[?r := tmp])"
      using l(1) r(1) by (intro mset_swap) simp_all
    then have "mset ys = mset (xs[?r := tmp])" using ih(3) l(3) r(1) by simp
    then show ?thesis using True at put(1) ih 1(3) by (subst groups_sift.simps) auto
  next
    case False
    have "groups_sift stride tmp left right gi = Some gi1"
    proof (cases "0 \<le> left")
      case True
      then have "GROUP_AT gi left = Some (xs ! ?l)" using GROUP_AT_holds[OF 1(2), of ?l] 1(3,4,6) by auto
      then show ?thesis using True False fin(1) by (subst groups_sift.simps) auto
    qed (use fin in \<open>subst groups_sift.simps, auto\<close>)
    then show ?thesis using fin(2) by auto
  qed
qed

lemma groups_pass_mset:
  assumes "holds h gi xs" and "0 < stride" and "\<forall>b \<in> set bases. b + stride < length xs"
  shows "\<exists>gi' ys. groups_pass stride bases gi = Some gi' \<and> holds h gi' ys \<and> mset ys = mset xs"
  using assms
proof (induction bases arbitrary: gi xs)
  case (Cons base bases)
  let ?r = "base + stride"
  have r: "?r < length xs" using Cons.prems by simp
  have at: "GROUP_AT gi (int ?r) = Some (xs ! ?r)" using GROUP_AT_holds[OF Cons.prems(1) r] .
  obtain gi1 ys where s: "groups_sift stride (xs ! ?r) (int base) (int ?r) gi = Some gi1" "holds h gi1 ys" "mset ys = mset xs"
    using groups_sift_mset[OF Cons.prems(1,2), of "int base" "int ?r" "xs ! ?r"] r
    by (auto simp: nat_int_add)
  have "length ys = length xs" using s(3) by (metis size_mset)
  with Cons.IH[OF s(2) Cons.prems(2)] Cons.prems(3) s(3)
  show ?case using at s(1) by auto
qed auto

text \<open>With stride one the inner loop is an insertion into the sorted part in front.\<close>

lemma groups_sift_one:
  assumes "holds h gi (p @ v # q)" and "sorted p" and "left = int (length p) - 1" and "right = int (length p)"
  shows "\<exists>gi'. groups_sift 1 tmp left right gi = Some gi' \<and> holds h gi' (sort (tmp # p) @ q)"
  using assms
proof (induction p arbitrary: gi v q left right rule: rev_induct)
  case Nil
  then show ?case using GROUP_PUT_holds[of h gi "v # q" 0 tmp] by (subst groups_sift.simps) simp
next
  case (snoc y p)
  have l: "left = int (length p)" "0 \<le> left" using snoc.prems(3) by simp_all
  have at: "GROUP_AT gi left = Some y"
    using GROUP_AT_holds[OF snoc.prems(1), of "length p"] l by (simp add: nth_append)
  have sp: "sorted p" "\<forall>x \<in> set p. x \<le> y" using snoc.prems(2) by (auto simp: sorted_append)
  show ?case
  proof (cases "y > tmp")
    case True
    have "sort (tmp # p @ [y]) = sort (tmp # p) @ [y]"
    proof (rule properties_for_sort)
      have "x \<le> y" if "x \<in> set (sort (tmp # p))" for x using that sp True unfolding set_sort by auto
      moreover have "sorted (sort (tmp # p))" by (rule sorted_sort)
      ultimately show "sorted (sort (tmp # p) @ [y])" unfolding sorted_append by auto
    qed simp
    moreover obtain gi1 where put: "GROUP_PUT gi right y = Some gi1" "holds h gi1 (p @ y # y # q)"
      using GROUP_PUT_holds[OF snoc.prems(1), of "Suc (length p)" y] snoc.prems(4) by (auto simp: list_update_append)
    moreover have "groups_sift 1 tmp left right gi = groups_sift 1 tmp (left - 1) left gi1"
      using l(2) at put(1) True by (subst groups_sift.simps) simp
    ultimately show ?thesis using snoc.IH[OF put(2) sp(1), of "left - 1" left] l by auto
  next
    case False
    have "sort (tmp # p @ [y]) = p @ [y, tmp]"
      using sp False snoc.prems(2) by (intro properties_for_sort) (auto simp: sorted_append)
    moreover obtain gi1 where "GROUP_PUT gi right tmp = Some gi1" "holds h gi1 (p @ y # tmp # q)"
      using GROUP_PUT_holds[OF snoc.prems(1), of "Suc (length p)" tmp] snoc.prems(4) by (auto simp: list_update_append)
    moreover have "groups_sift 1 tmp left right gi = GROUP_PUT gi right tmp"
      using at False by (subst groups_sift.simps) simp
    ultimately show ?thesis by auto
  qed
qed

lemma groups_pass_one:
  assumes "holds h gi (p @ q)" and "sorted p" and "p \<noteq> []" and "bases = [length p - 1..<length p + length q - 1]"
  shows "\<exists>gi'. groups_pass 1 bases gi = Some gi' \<and> holds h gi' (sort (p @ q))"
  using assms
proof (induction q arbitrary: p gi bases)
  case Nil
  then show ?case by (simp add: sorted_sort_id)
next
  case (Cons v q)
  obtain k where k: "length p = Suc k" using Cons.prems(3) by (cases p) auto
  then have b: "bases = k # [Suc k..<Suc k + length q]" using Cons.prems(4) by (simp add: upt_conv_Cons del: upt_Suc)
  have at: "GROUP_AT gi (int (k + 1)) = Some v"
    using GROUP_AT_holds[OF Cons.prems(1), of "k + 1"] k by (simp add: nth_append)
  obtain gi1 where s: "groups_sift 1 v (int k) (int (k + 1)) gi = Some gi1" "holds h gi1 (sort (v # p) @ q)"
    using groups_sift_one[OF Cons.prems(1,2), of "int k" "int (k + 1)" v] k by auto
  have len: "length (sort (v # p)) = Suc (Suc k)" using k by simp
  have "sorted (sort (v # p))" by (rule sorted_sort)
  moreover have "sort (v # p) \<noteq> []" using len by auto
  ultimately have "\<exists>gi'. groups_pass 1 [length (sort (v # p)) - 1..<length (sort (v # p)) + length q - 1] gi1 = Some gi' \<and>
      holds h gi' (sort (sort (v # p) @ q))"
    by (rule Cons.IH[OF s(2) _ _ refl])
  with len
  obtain gi2 where p: "groups_pass 1 [Suc k..<Suc k + length q] gi1 = Some gi2" "holds h gi2 (sort (sort (v # p) @ q))"
    by auto
  have "sort (sort (v # p) @ q) = sort (p @ v # q)" by (rule properties_for_sort) simp_all
  then show ?case using at s(1) p by (simp add: b)
qed

text \<open>The strides that occur are the numbers 0, 1, 4, 13, ...\<close>

fun stride_no :: "nat \<Rightarrow> nat" where
  "stride_no 0 = 0"
| "stride_no (Suc k) = 3 * stride_no k + 1"

lemma groups_stride_no:
  "k \<noteq> 0 \<Longrightarrow> stride_no (k - 1) < n \<or> k = 1 \<Longrightarrow>
   \<exists>m. m \<noteq> 0 \<and> groups_stride n (stride_no k) = stride_no m \<and> (n \<le> 1 \<longrightarrow> k = 1 \<longrightarrow> m = 1) \<and> (stride_no (m - 1) < n \<or> m = 1) \<and> n \<le> stride_no m"
proof (induction "n - stride_no k" arbitrary: k rule: less_induct)
  case less
  show ?case
  proof (cases "stride_no k < n")
    case True
    have "groups_stride n (stride_no k) = groups_stride n (stride_no (Suc k))" using True by (subst groups_stride.simps) simp
    moreover have "n - stride_no (Suc k) < n - stride_no k" using True by simp
    ultimately show ?thesis using less.hyps[of "Suc k"] True less.prems by (cases k) auto
  next
    case False
    then have "groups_stride n (stride_no k) = stride_no k" by (subst groups_stride.simps) simp
    then show ?thesis using False less.prems by (intro exI[of _ k]) auto
  qed
qed

lemma groups_strides_sort:
  assumes "holds h gi xs" and "k \<noteq> 0" and "stride_no k < length xs"
  shows "\<exists>gi'. groups_strides (stride_no k) gi = Some gi' \<and> holds h gi' (sort xs)"
  using assms
proof (induction k arbitrary: gi xs)
  case (Suc k)
  have st: "stride_no (Suc k) div 3 = stride_no k" "stride_no (Suc k) \<noteq> 0" by simp_all
  have ng: "ngroups gi = length xs" using holds_length[OF Suc.prems(1)] .
  show ?case
  proof (cases "k = 0")
    case True
    obtain x ys where xs: "xs = [x] @ ys" using Suc.prems(3) by (cases xs) auto
    obtain gi' where "groups_pass 1 [0..<length xs - 1] gi = Some gi'" "holds h gi' (sort xs)"
      using groups_pass_one[of h gi "[x]" ys "[0..<length xs - 1]"] Suc.prems(1) xs by auto
    then show ?thesis using True ng by (simp add: groups_strides.simps)
  next
    case False
    obtain gi1 ys where p: "groups_pass (stride_no (Suc k)) [0..<length xs - stride_no (Suc k)] gi = Some gi1"
        "holds h gi1 ys" "mset ys = mset xs"
      using groups_pass_mset[OF Suc.prems(1), of "stride_no (Suc k)" "[0..<length xs - stride_no (Suc k)]"] st(2)
      by (auto simp: less_diff_conv)
    have "length ys = length xs" using p(3) by (metis size_mset)
    then have "stride_no k < length ys" using Suc.prems(3) by simp
    from Suc.IH[OF p(2) False this] obtain gi' where "groups_strides (stride_no k) gi1 = Some gi'" "holds h gi' (sort ys)" by auto
    moreover have "sort ys = sort xs" using p(3) by (metis properties_for_sort mset_sort sorted_sort)
    ultimately show ?thesis using p(1) ng st by (subst groups_strides.simps) simp
  qed
qed simp

lemma groups_sort_holds:
  assumes "holds h gi xs"
  shows "\<exists>gi'. groups_sort gi = Some gi' \<and> holds h gi' (sort xs)"
proof -
  have ng: "ngroups gi = length xs" using holds_length[OF assms] .
  obtain m where m: "m \<noteq> 0" "groups_stride (length xs) 1 = stride_no m" "stride_no (m - 1) < length xs \<or> m = 1" "length xs \<le> stride_no m"
    using groups_stride_no[of 1 "length xs"] by auto
  have d: "stride_no m div 3 = stride_no (m - 1)" using m(1) by (cases m) auto
  show ?thesis
  proof (cases "m = 1")
    case True
    then have "sort xs = xs" using m(4) by (cases xs) auto
    then show ?thesis using True assms ng m(2) by (simp add: groups_sort_def groups_strides.simps)
  next
    case False
    then show ?thesis using groups_strides_sort[OF assms, of "m - 1"] m ng d by (simp add: groups_sort_def)
  qed
qed

section \<open>Searching\<close>

definition small_gid :: "gid \<Rightarrow> bool" where
  "small_gid g \<longleftrightarrow> unat g < 2 ^ 31"

lemma small_gid_sint:
  assumes "small_gid a"
  shows "sint a = int (unat a)"
proof -
  have "int (unat a) < 2 ^ 31" using assms unfolding small_gid_def by (simp only: of_nat_less_numeral_power_cancel_iff)
  moreover have "- (2 ^ 31) \<le> int (unat a)" by (rule order_trans[of _ 0]) simp_all
  ultimately show ?thesis unfolding sint_uint uint_nat
    by (simp del: of_nat_unat add: signed_take_bit_int_eq_self)
qed

lemma small_gid_diff:
  assumes "small_gid a" and "small_gid b"
  shows "sint (a - b) = int (unat a) - int (unat b)"
proof -
  have u: "sint a = int (unat a)" "sint b = int (unat b)"
    using assms small_gid_sint by blast+
  have "sint (a - b) = signed_take_bit 31 (sint a - sint b)" by (simp add: sint_word_ariths)
  also have "\<dots> = sint a - sint b"
  proof (rule signed_take_bit_int_eq_self)
    have "int (unat a) < 2 ^ 31" "int (unat b) < 2 ^ 31"
      using assms unfolding small_gid_def by (simp_all only: of_nat_less_numeral_power_cancel_iff)
    then show "- (2 ^ 31) \<le> sint a - sint b" "sint a - sint b < 2 ^ 31" unfolding u by linarith+
  qed
  finally show ?thesis using u by simp
qed

text \<open>One round of the search, given the element in the middle.\<close>

lemma groups_bsearch_step:
  assumes "left < right" and "GROUP_AT gi (int ((left + right) div 2)) = Some v"
  shows "groups_bsearch gi grp left right =
    (if sint (grp - v) > 0 then groups_bsearch gi grp ((left + right) div 2 + 1) right
     else if sint (grp - v) < 0 then groups_bsearch gi grp left ((left + right) div 2) else Some True)"
  using assms by (subst groups_bsearch.simps) (simp only: if_True Option.bind.simps Let_def)

lemma groups_bsearch_stop: "\<not> left < right \<Longrightarrow> groups_bsearch gi grp left right = Some False"
  by (subst groups_bsearch.simps) simp

lemma groups_bsearch_sound:
  assumes "holds h gi xs" and "right \<le> length xs"
  shows "\<exists>b. groups_bsearch gi grp left right = Some b \<and> (b \<longrightarrow> grp \<in> set xs)"
  using assms(2)
proof (induction "right - left" arbitrary: left right rule: less_induct)
  case less
  show ?case
  proof (cases "left < right")
    case True
    define m where "m = (left + right) div 2"
    have m: "m < length xs" "m < right" "left \<le> m" using True less.prems by (simp_all add: m_def)
    note step = groups_bsearch_step[OF True GROUP_AT_holds[OF assms(1) m(1), unfolded m_def], of grp, folded m_def]
    have up: "\<exists>b. groups_bsearch gi grp (m + 1) right = Some b \<and> (b \<longrightarrow> grp \<in> set xs)"
      using less.hyps[of right "m + 1"] less.prems m by simp
    have down: "\<exists>b. groups_bsearch gi grp left m = Some b \<and> (b \<longrightarrow> grp \<in> set xs)"
      using less.hyps[of m left] m by simp
    consider "sint (grp - xs ! m) > 0" | "sint (grp - xs ! m) < 0" | "sint (grp - xs ! m) = 0" by linarith
    then show ?thesis
    proof cases
      case 3
      then have "grp = xs ! m" by (metis eq_iff_diff_eq_0 signed_eq_0_iff)
      then show ?thesis using step 3 m(1) by auto
    qed (use step up down in simp_all)
  qed (use groups_bsearch_stop in auto)
qed

lemma groups_bsearch_complete:
  assumes "holds h gi xs" and "sorted xs" and "\<forall>x \<in> set xs. small_gid x" and "small_gid grp" and "right \<le> length xs"
    and "\<And>i. i < left \<Longrightarrow> i < length xs \<Longrightarrow> xs ! i < grp" and "\<And>i. right \<le> i \<Longrightarrow> i < length xs \<Longrightarrow> grp < xs ! i"
  shows "groups_bsearch gi grp left right = Some (grp \<in> set xs)"
  using assms(5-7)
proof (induction "right - left" arbitrary: left right rule: less_induct)
  case less
  show ?case
  proof (cases "left < right")
    case True
    define m where "m = (left + right) div 2"
    have m: "m < length xs" "m < right" "left \<le> m" using True less.prems(1) by (simp_all add: m_def)
    note step = groups_bsearch_step[OF True GROUP_AT_holds[OF assms(1) m(1), unfolded m_def], of grp, folded m_def]
    have d: "sint (grp - xs ! m) = int (unat grp) - int (unat (xs ! m))"
      using assms(3,4) m(1) by (intro small_gid_diff) auto
    have le: "xs ! i \<le> xs ! j" if "i \<le> j" "j < length xs" for i j using assms(2) that by (rule sorted_nth_mono)
    consider "grp > xs ! m" | "grp < xs ! m" | "grp = xs ! m" by (rule linorder_cases)
    then show ?thesis
    proof cases
      case 1
      then have c: "sint (grp - xs ! m) > 0" unfolding d word_less_nat_alt by linarith
      have "xs ! i < grp" if "i < m + 1" for i using le[of i m] that m(1) 1 by simp
      then have "groups_bsearch gi grp (m + 1) right = Some (grp \<in> set xs)" using less.hyps[of right "m + 1"] less.prems m by simp
      then show ?thesis using step c by simp
    next
      case 2
      then have c: "sint (grp - xs ! m) < 0" unfolding d word_less_nat_alt by linarith
      have "grp < xs ! i" if "m \<le> i" "i < length xs" for i using le[OF that] 2 by simp
      then have "groups_bsearch gi grp left m = Some (grp \<in> set xs)" using less.hyps[of m left] less.prems m by simp
      then show ?thesis using step c by simp
    next
      case 3
      then show ?thesis using step m(1) by simp
    qed
  next
    case False
    have "grp \<noteq> xs ! i" if "i < length xs" for i
      using less.prems(2,3)[of i] False that by (cases "i < left") auto
    then have "grp \<notin> set xs" by (auto simp: in_set_conv_nth)
    then show ?thesis using groups_bsearch_stop[OF False] by simp
  qed
qed

section \<open>Transfer\<close>

lemma those_append: "those (xs @ ys) = (case those xs of None \<Rightarrow> None | Some a \<Rightarrow> map_option ((@) a) (those ys))"
  by (induction xs; cases "those ys") (auto split: option.splits)

lemma those_Some: "those xs = Some ys \<longleftrightarrow> xs = map Some ys"
  by (induction xs arbitrary: ys) (auto split: option.splits simp: Cons_eq_map_conv)

lemma copy_from_user_split:
  "copy_from_user u off (m + n) =
   (case copy_from_user u off m of None \<Rightarrow> None | Some a \<Rightarrow> map_option ((@) a) (copy_from_user u (off + m) n))"
  unfolding copy_from_user_def by (simp only: add.assoc[symmetric] upt_add_eq_append[OF le_add1] map_append those_append)

lemma copy_from_user_length: "copy_from_user u off n = Some xs \<Longrightarrow> length xs = n"
  unfolding copy_from_user_def those_Some by (metis add_diff_cancel_left' length_map length_upt)

lemma groups_from_user_loop_ok:
  assumes "shape_ok bs" and "cnt \<le> length (concat bs)"
  shows "case copy_from_user u off cnt of
      None \<Rightarrow> groups_from_user_loop bs off cnt u = Err EFAULT
    | Some xs \<Rightarrow> \<exists>bs'. groups_from_user_loop bs off cnt u = Ok bs' \<and> concat bs' = xs @ drop cnt (concat bs) \<and>
        length bs' = length bs \<and> map length bs' = map length bs"
  using assms
proof (induction bs arbitrary: off cnt)
  case Nil
  then show ?case by (simp add: copy_from_user_def)
next
  case (Cons b bs)
  let ?c = "min NGROUPS_PER_BLOCK cnt"
  have c: "?c \<le> length b" "cnt - ?c \<le> length (concat bs)" using Cons.prems by (cases bs; auto)+
  have nb: "\<not> length b < ?c" using c(1) by (rule leD)
  have sp: "copy_from_user u off cnt = (case copy_from_user u off ?c of None \<Rightarrow> None
      | Some a \<Rightarrow> map_option ((@) a) (copy_from_user u (off + NGROUPS_PER_BLOCK) (cnt - ?c)))"
  proof (cases "cnt \<le> NGROUPS_PER_BLOCK")
    case True
    then have "?c = cnt" "cnt - ?c = 0" by simp_all
    moreover have "copy_from_user u (off + NGROUPS_PER_BLOCK) 0 = Some []" by (simp add: copy_from_user_def)
    ultimately show ?thesis by (simp split: option.splits)
  next
    case False
    then have m: "?c = NGROUPS_PER_BLOCK" and e: "NGROUPS_PER_BLOCK + (cnt - NGROUPS_PER_BLOCK) = cnt" by simp_all
    show ?thesis using copy_from_user_split[of u off NGROUPS_PER_BLOCK "cnt - NGROUPS_PER_BLOCK"] unfolding m e .
  qed
  have ih: "case copy_from_user u (off + NGROUPS_PER_BLOCK) (cnt - ?c) of
      None \<Rightarrow> groups_from_user_loop bs (off + NGROUPS_PER_BLOCK) (cnt - ?c) u = Err EFAULT
    | Some xs \<Rightarrow> \<exists>bs'. groups_from_user_loop bs (off + NGROUPS_PER_BLOCK) (cnt - ?c) u = Ok bs' \<and>
        concat bs' = xs @ drop (cnt - ?c) (concat bs) \<and> length bs' = length bs \<and> map length bs' = map length bs"
    using Cons.IH[OF _ c(2)] Cons.prems(1) by simp
  show ?case
  proof (cases "copy_from_user u off ?c")
    case None
    then show ?thesis using sp nb by (simp add: Let_def del: min_less_iff_conj)
  next
    case (Some a)
    have la: "length a = ?c" using copy_from_user_length[OF Some] .
    have dr: "drop cnt (b @ concat bs) = drop ?c b @ drop (cnt - ?c) (concat bs)"
    proof (cases "cnt \<le> NGROUPS_PER_BLOCK")
      case True
      then have "?c = cnt" "cnt \<le> length b" using c(1) by simp_all
      then show ?thesis by simp
    next
      case False
      then have "?c = NGROUPS_PER_BLOCK" "length b = NGROUPS_PER_BLOCK" using c(1) Cons.prems(1) by simp_all
      then show ?thesis using False by simp
    qed
    have lb: "length a + (length b - ?c) = length b" using la c(1) by simp
    show ?thesis
    proof (cases "copy_from_user u (off + NGROUPS_PER_BLOCK) (cnt - ?c)")
      case None
      then show ?thesis using ih Some sp nb by (simp add: Let_def del: min_less_iff_conj)
    next
      case (Some xs)
      with ih obtain bs' where "groups_from_user_loop bs (off + NGROUPS_PER_BLOCK) (cnt - ?c) u = Ok bs'"
        "concat bs' = xs @ drop (cnt - ?c) (concat bs)" "length bs' = length bs" "map length bs' = map length bs" by auto
      moreover have "drop ?c b @ xs = xs @ drop ?c b"
        using copy_from_user_length[OF Some] c(1) Cons.prems(1) by (cases "cnt \<le> NGROUPS_PER_BLOCK") simp_all
      ultimately show ?thesis using Some \<open>copy_from_user u off ?c = Some a\<close> sp nb lb dr
        by (simp add: Let_def del: min_less_iff_conj)
    qed
  qed
qed

lemma shape_ok_lengths: "map length bs = map length bs' \<Longrightarrow> shape_ok bs = shape_ok bs'"
proof (induction bs arbitrary: bs')
  case (Cons b bs)
  then obtain b' cs where b': "bs' = b' # cs" "length b = length b'" "map length bs = map length cs"
    by (auto simp: Cons_eq_map_conv)
  then have "(bs = []) = (cs = [])" by (metis map_is_Nil_conv)
  then show ?case using Cons.IH[OF b'(3)] b' by simp
qed simp

lemma groups_from_user_ok:
  assumes "gi_ok gi"
  shows "case copy_from_user u 0 (ngroups gi) of
      None \<Rightarrow> groups_from_user gi u = Err EFAULT
    | Some xs \<Rightarrow> \<exists>gi'. groups_from_user gi u = Ok gi' \<and> holds (gi\<lparr>blocks := []\<rparr>) gi' xs"
proof (cases "copy_from_user u 0 (ngroups gi)")
  case None
  then show ?thesis
    using groups_from_user_loop_ok[of "blocks gi" "ngroups gi" 0 u] assms by (simp add: groups_from_user_def gi_ok_def)
next
  case (Some xs)
  then obtain bs where bs: "groups_from_user_loop (blocks gi) 0 (ngroups gi) u = Ok bs"
      "concat bs = xs @ drop (ngroups gi) (concat (blocks gi))" "length bs = length (blocks gi)" "map length bs = map length (blocks gi)"
    using groups_from_user_loop_ok[of "blocks gi" "ngroups gi" 0 u] assms by (auto simp: gi_ok_def)
  have "length (concat bs) = length (concat (blocks gi))" using bs(4) by (simp add: length_concat)
  then show ?thesis
    using Some bs assms shape_ok_lengths[OF bs(4)] copy_from_user_length[OF Some]
    by (auto simp: groups_from_user_def gi_ok_def holds_def group_ids_def)
qed

lemma groups_to_user_loop_ok:
  assumes "shape_ok bs" and "cnt \<le> length (concat bs)" and "\<forall>j. off \<le> j \<and> j < off + cnt \<longrightarrow> u j \<noteq> None"
  shows "groups_to_user_loop bs off cnt u =
    Ok (\<lambda>j. if off \<le> j \<and> j < off + cnt then Some (concat bs ! (j - off)) else u j)"
  using assms
proof (induction bs arbitrary: off cnt u)
  case Nil
  then show ?case by (auto simp: fun_eq_iff)
next
  case (Cons b bs)
  let ?c = "min NGROUPS_PER_BLOCK cnt"
  have c: "?c \<le> length b" "cnt - ?c \<le> length (concat bs)" using Cons.prems by (cases bs; auto)+
  have nb: "\<not> length b < ?c" using c(1) by (rule leD)
  define u1 where "u1 = (\<lambda>j. if off \<le> j \<and> j < off + ?c then Some (take ?c b ! (j - off)) else u j)"
  have cp: "copy_to_user u off (take ?c b) = Some u1"
    using c(1) Cons.prems(3) by (auto simp: copy_to_user_def u1_def fun_eq_iff min_absorb2)
  have ih: "groups_to_user_loop bs (off + NGROUPS_PER_BLOCK) (cnt - ?c) u1 =
      Ok (\<lambda>j. if off + NGROUPS_PER_BLOCK \<le> j \<and> j < off + NGROUPS_PER_BLOCK + (cnt - ?c)
        then Some (concat bs ! (j - (off + NGROUPS_PER_BLOCK))) else u1 j)"
    using Cons.IH[OF _ c(2), of "off + NGROUPS_PER_BLOCK" u1] Cons.prems(1,3) by (auto simp: u1_def min_def)
  have "(if off + NGROUPS_PER_BLOCK \<le> j \<and> j < off + NGROUPS_PER_BLOCK + (cnt - ?c)
        then Some (concat bs ! (j - (off + NGROUPS_PER_BLOCK))) else u1 j) =
      (if off \<le> j \<and> j < off + cnt then Some (concat (b # bs) ! (j - off)) else u j)" for j
  proof (cases "cnt \<le> NGROUPS_PER_BLOCK")
    case True
    then show ?thesis using c(1) by (auto simp: u1_def nth_append)
  next
    case False
    then have lb: "length b = NGROUPS_PER_BLOCK" "?c = NGROUPS_PER_BLOCK" using c(1) Cons.prems(1) by simp_all
    have "j - off - NGROUPS_PER_BLOCK = j - (off + NGROUPS_PER_BLOCK)" by simp
    then show ?thesis using False lb by (auto simp: u1_def nth_append)
  qed
  then show ?case using ih cp nb by (simp add: Let_def del: min_less_iff_conj)
qed

text \<open>What the allocator hands out has the size asked for.\<close>

definition memory_ok :: "gid list option \<Rightarrow> (nat \<Rightarrow> gid list option) \<Rightarrow> bool" where
  "memory_ok small page \<longleftrightarrow> (\<forall>b. small = Some b \<longrightarrow> length b = NGROUPS_SMALL) \<and>
     (\<forall>i p. page i = Some p \<longrightarrow> length p = NGROUPS_PER_BLOCK)"

lemma groups_alloc_ok:
  assumes "groups_alloc n small page = Some gi" and "memory_ok small page"
  shows "gi_ok gi \<and> ngroups gi = n \<and> usage gi = 1"
proof (cases "n \<le> NGROUPS_SMALL")
  case True
  then have nb: "(n + NGROUPS_PER_BLOCK - 1) div NGROUPS_PER_BLOCK \<le> 1"
    by (simp add: NGROUPS_SMALL_def NGROUPS_PER_BLOCK_def)
  obtain b where b: "small = Some b" using assms(1) by (cases small) (auto simp: groups_alloc_def Let_def)
  have "length b = NGROUPS_SMALL" using assms(2) b by (simp add: memory_ok_def)
  moreover have "NGROUPS_SMALL \<le> NGROUPS_PER_BLOCK" by (simp add: NGROUPS_SMALL_def NGROUPS_PER_BLOCK_def)
  moreover have "nblocks gi = 1" "blocks gi = [b]" "ngroups gi = n" "usage gi = 1"
    using assms(1) b True nb by (auto simp: groups_alloc_def Let_def split: if_splits)
  ultimately show ?thesis using True by (simp add: gi_ok_def)
next
  case False
  define nb where "nb = (n + NGROUPS_PER_BLOCK - 1) div NGROUPS_PER_BLOCK"
  have n: "n \<le> nb * NGROUPS_PER_BLOCK" "nb \<noteq> 0" using False by (simp_all add: nb_def NGROUPS_PER_BLOCK_def NGROUPS_SMALL_def)
  obtain bs where bs: "those (map page [0..<nb]) = Some bs" "nblocks gi = nb" "blocks gi = bs" "ngroups gi = n" "usage gi = 1"
    using assms(1) False n(2) by (auto simp: groups_alloc_def Let_def nb_def bind_eq_Some_conv split: if_splits)
  have m: "map page [0..<nb] = map Some bs" using bs(1) by (simp add: those_Some)
  then have l: "length bs = nb" by (metis diff_zero length_map length_upt)
  have "length b = NGROUPS_PER_BLOCK" if "b \<in> set bs" for b
  proof -
    have "Some b \<in> set (map page [0..<nb])" unfolding m using that by auto
    then show ?thesis using assms(2) by (auto simp: memory_ok_def)
  qed
  then have sh: "shape_ok bs" "length (concat bs) = length bs * NGROUPS_PER_BLOCK"
    by (auto simp: shape_ok_def length_concat in_set_butlastD sum_list_triv cong: map_cong)
  then show ?thesis using bs l n(1) by (simp add: gi_ok_def)
qed

section \<open>System calls\<close>

definition cred_ok :: "cred_state \<Rightarrow> bool" where
  "cred_ok s \<longleftrightarrow> (\<exists>gi. gheap s (cur_groups s) = Some gi \<and> gi_ok gi \<and> 0 < usage gi)"

definition task_groups :: "cred_state \<Rightarrow> gid list option" where
  "task_groups s = map_option group_ids (gheap s (cur_groups s))"

text \<open>An object of which one reference is given back.\<close>

definition unreferenced :: "group_info option \<Rightarrow> group_info option" where
  "unreferenced g = Option.bind g (\<lambda>gi. if usage gi = 1 then None else Some (gi\<lparr>usage := usage gi - 1\<rparr>))"

lemma set_current_groups_ok:
  assumes "gheap s a = Some gi" and "holds h gi xs" and "usage gi = 1" and "cred_ok s" and "cur_groups s \<noteq> a"
  shows "\<exists>gi' s'. set_current_groups None a s = Some (Ok (), s') \<and> cur_groups s' = a \<and> fsgid s' = fsgid s \<and> egid s' = egid s \<and>
    holds h gi' (sort xs) \<and> gheap s' = (gheap s)(a \<mapsto> gi'\<lparr>usage := 2\<rparr>, cur_groups s := unreferenced (gheap s (cur_groups s)))"
proof -
  obtain gi' where gi': "groups_sort gi = Some gi'" "holds h gi' (sort xs)" using groups_sort_holds[OF assms(2)] by auto
  have "gi'\<lparr>blocks := []\<rparr> = gi\<lparr>blocks := []\<rparr>" using gi'(2) assms(2) by (simp add: holds_def)
  then have "usage gi' = 1" using assms(3) by (cases gi; cases gi') simp
  moreover obtain g0 where "gheap s (cur_groups s) = Some g0" using assms(4) by (auto simp: cred_ok_def)
  ultimately show ?thesis using gi' assms(1,5)
    by (auto simp: set_current_groups_def get_group_info_def put_group_info_def unreferenced_def Let_def)
qed

lemma holds_usage: "holds h gi xs \<Longrightarrow> gi_ok (gi\<lparr>usage := n\<rparr>) \<and> group_ids (gi\<lparr>usage := n\<rparr>) = xs"
  by (simp add: holds_def gi_ok_def group_ids_def)

lemma setgroups_cases:
  assumes s: "cred_ok s" and a: "gheap s a = None" and mem: "memory_ok small page"
  shows "\<exists>r s'. sys_setgroups cap security a small page n u s = Some (r, s') \<and>
    ((\<exists>e. r = Err e \<and> s' = s) \<or>
     (r = Ok () \<and> cap \<and> security = None \<and> cred_ok s' \<and> fsgid s' = fsgid s \<and> egid s' = egid s \<and>
      0 \<le> n \<and> n \<le> NGROUPS_MAX \<and> (\<exists>xs. copy_from_user u 0 (nat n) = Some xs \<and> task_groups s' = Some (sort xs)) \<and>
      (\<exists>gi. usage gi = 1 \<and> gheap s' = (gheap s)(a \<mapsto> gi, cur_groups s := unreferenced (gheap s (cur_groups s))))))"
proof (cases "\<not> cap \<or> n < 0 \<or> n > NGROUPS_MAX \<or> groups_alloc (nat n) small page = None")
  case True
  then show ?thesis by (auto simp: sys_setgroups_def)
next
  case False
  then obtain gi where gi: "groups_alloc (nat n) small page = Some gi" by auto
  from groups_alloc_ok[OF gi mem] have ok: "gi_ok gi" "ngroups gi = nat n" "usage gi = 1" by simp_all
  have undo: "(gheap s)(a := None) = gheap s" using a by auto
  have ca: "cur_groups s \<noteq> a" using s a by (auto simp: cred_ok_def)
  show ?thesis
  proof (cases "copy_from_user u 0 (nat n)")
    case None
    then have "groups_from_user gi u = Err EFAULT" using groups_from_user_ok[OF ok(1), of u] ok(2) by simp
    then show ?thesis using False gi ok(3) undo by (simp add: sys_setgroups_def put_group_info_def Let_def)
  next
    case (Some xs)
    then obtain g1 where g1: "groups_from_user gi u = Ok g1" "holds (gi\<lparr>blocks := []\<rparr>) g1 xs"
      using groups_from_user_ok[OF ok(1), of u] ok(2) by auto
    have us: "usage g1 = 1" using g1(2) ok(3) by (cases g1; cases gi) (simp add: holds_def)
    define s1 where "s1 = s\<lparr>gheap := (gheap s)(a \<mapsto> g1)\<rparr>"
    show ?thesis
    proof (cases security)
      case (Some e)
      then have "set_current_groups security a s1 = Some (Err e, s1)" by (simp add: set_current_groups_def)
      moreover have "put_group_info a s1 = Some s" using us undo by (simp add: s1_def put_group_info_def)
      ultimately show ?thesis using False gi g1(1) by (simp add: sys_setgroups_def Let_def s1_def)
    next
      case None
      have "cred_ok s1" using s ca by (auto simp: cred_ok_def s1_def)
      moreover have "gheap s1 a = Some g1" "cur_groups s1 \<noteq> a" using ca by (simp_all add: s1_def)
      ultimately obtain g2 s2 where s2: "set_current_groups None a s1 = Some (Ok (), s2)" "cur_groups s2 = a" "fsgid s2 = fsgid s1"
          "egid s2 = egid s1" "holds (gi\<lparr>blocks := []\<rparr>) g2 (sort xs)"
          "gheap s2 = (gheap s1)(a \<mapsto> g2\<lparr>usage := 2\<rparr>, cur_groups s1 := unreferenced (gheap s1 (cur_groups s1)))"
        using set_current_groups_ok[OF _ g1(2) us, of s1 a] by blast
      define s3 where "s3 = s2\<lparr>gheap := (gheap s2)(a \<mapsto> g2\<lparr>usage := 1\<rparr>)\<rparr>"
      have "put_group_info a s2 = Some s3" using s2(6) ca by (simp add: put_group_info_def s3_def s1_def)
      then have "sys_setgroups cap security a small page n u s = Some (Ok (), s3)"
        using False gi g1(1) s2(1) None by (simp add: sys_setgroups_def Let_def s1_def)
      moreover have "cred_ok s3" "task_groups s3 = Some (sort xs)"
        using holds_usage[OF s2(5), of 1] s2(2) by (simp_all add: s3_def cred_ok_def task_groups_def)
      moreover have "gheap s3 = (gheap s)(a \<mapsto> g2\<lparr>usage := 1\<rparr>, cur_groups s := unreferenced (gheap s (cur_groups s)))"
        using s2(6) ca by (auto simp: s3_def s1_def)
      moreover have "fsgid s3 = fsgid s" "egid s3 = egid s" "usage (g2\<lparr>usage := 1\<rparr>) = 1" using s2(3,4) by (simp_all add: s3_def s1_def)
      ultimately show ?thesis using False None \<open>copy_from_user u 0 (nat n) = Some xs\<close> by (metis not_le)
    qed
  qed
qed

lemma in_group_p_spec:
  assumes "cred_ok s" and "task_groups s = Some xs" and "sorted xs" and "\<forall>x \<in> set xs. small_gid x" and "small_gid grp"
  shows "in_group_p grp s = Some (grp = fsgid s \<or> grp \<in> set xs)"
proof -
  obtain gi where gi: "gheap s (cur_groups s) = Some gi" "gi_ok gi" "group_ids gi = xs"
    using assms(1,2) by (auto simp: cred_ok_def task_groups_def)
  then have h: "holds (gi\<lparr>blocks := []\<rparr>) gi xs" by (simp add: holds_def)
  have "groups_bsearch gi grp 0 (ngroups gi) = Some (grp \<in> set xs)"
    using groups_bsearch_complete[OF h assms(3-5), of "ngroups gi" 0] holds_length[OF h] by simp
  then show ?thesis using gi(1) by (simp add: in_group_p_def groups_search_def)
qed

text \<open>The state at boot, and the memory the examples use.\<close>

definition cred_example :: cred_state where
  "cred_example = \<lparr>gheap = (\<lambda>_. None)(0 \<mapsto> \<lparr>ngroups = 0, usage = 2, nblocks = 0, blocks = []\<rparr>), cur_groups = 0, fsgid = 0, egid = 0\<rparr>"

definition user_array :: "gid list \<Rightarrow> umem" where
  "user_array xs i = (if i < length xs then Some (xs ! i) else None)"

lemma cred_example_ok: "cred_ok cred_example" "gheap cred_example 1 = None"
  by (auto simp: cred_ok_def cred_example_def gi_ok_def)

lemma memory_example: "memory_ok (Some (replicate 32 0)) (\<lambda>_. None)"
  by (simp add: memory_ok_def NGROUPS_SMALL_def)

lemma set_current_groups_None: "set_current_groups None a s = Some (r, s') \<Longrightarrow> r = Ok ()"
  by (auto simp: set_current_groups_def Let_def bind_eq_Some_conv)

lemma setgroups_example:
  "\<exists>s'. sys_setgroups True None 1 (Some (replicate 32 0)) (\<lambda>_. None) 3 (user_array [5, 3, 9]) cred_example = Some (Ok (), s') \<and>
    fsgid s' = 0"
  using setgroups_cases[OF cred_example_ok memory_example, of True None 3 "user_array [5, 3, 9]"]
  by (auto simp: NGROUPS_SMALL_def sys_setgroups_def groups_alloc_def groups_from_user_def copy_from_user_def user_array_def
      NGROUPS_PER_BLOCK_def NGROUPS_MAX_def Let_def upt_rec numeral_2_eq_2 numeral_3_eq_3 cred_example_def
      bind_eq_Some_conv dest: set_current_groups_None)

section \<open>Properties\<close>

text \<open>
  C24. \<^verbatim>\<open>sys_setgroups\<close> is atomic. It returns, with no access outside the group blocks; when it fails nothing is
  changed and the new object is gone; when it succeeds the caller had the capability, the whole array could
  be read, and the task now has exactly these ids, sorted, in an object only it refers to, while the old object has
  lost one reference and is freed if that was the last one.
\<close>

theorem setgroups_atomic:
  assumes "cred_ok s" and "gheap s a = None" and "memory_ok small page"
  shows "\<exists>r s'. sys_setgroups cap security a small page n u s = Some (r, s') \<and>
    ((\<exists>e. r = Err e) \<and> s' = s \<or>
     r = Ok () \<and> cap \<and> security = None \<and> 0 \<le> n \<and> n \<le> NGROUPS_MAX \<and> cred_ok s' \<and>
     (\<exists>xs. copy_from_user u 0 (nat n) = Some xs \<and> task_groups s' = Some (sort xs)) \<and>
     (\<exists>gi. usage gi = 1 \<and> gheap s' = (gheap s)(a \<mapsto> gi, cur_groups s := unreferenced (gheap s (cur_groups s)))))"
  using setgroups_cases[OF assms, of cap security n u] by blast

theorem setgroups_atomic_witness:
  "\<exists>r s'. sys_setgroups True None 1 (Some (replicate 32 0)) (\<lambda>_. None) 3 (user_array [5, 3, 9]) cred_example = Some (r, s') \<and>
    ((\<exists>e. r = Err e) \<and> s' = cred_example \<or>
     r = Ok () \<and> True \<and> (None :: errno option) = None \<and> 0 \<le> (3 :: int) \<and> 3 \<le> NGROUPS_MAX \<and> cred_ok s' \<and>
     (\<exists>xs. copy_from_user (user_array [5, 3, 9]) 0 (nat 3) = Some xs \<and> task_groups s' = Some (sort xs)) \<and>
     (\<exists>gi. usage gi = 1 \<and> gheap s' = (gheap cred_example)(1 \<mapsto> gi,
        cur_groups cred_example := unreferenced (gheap cred_example (cur_groups cred_example)))))"
  by (rule setgroups_atomic[OF cred_example_ok memory_example])

text \<open>
  C25. \<^verbatim>\<open>sys_getgroups\<close> after a successful \<^verbatim>\<open>sys_setgroups\<close>: into an array that can be written it stores the ids that
  were set, in ascending order, and leaves the rest of the array alone.
\<close>

theorem setgroups_getgroups:
  assumes "cred_ok s" and "gheap s a = None" and "memory_ok small page"
    and "sys_setgroups cap security a small page n u s = Some (Ok (), s')"
    and "0 < m" and "n \<le> m" and "\<And>j. j < nat n \<Longrightarrow> v j \<noteq> None"
  shows "\<exists>xs v'. copy_from_user u 0 (nat n) = Some xs \<and> sys_getgroups m v s' = Ok (n, v') \<and>
    (\<forall>j. v' j = (if j < nat n then Some (sort xs ! j) else v j))"
proof -
  obtain xs where xs: "copy_from_user u 0 (nat n) = Some xs" "task_groups s' = Some (sort xs)" "cred_ok s'" "0 \<le> n"
    using setgroups_cases[OF assms(1-3), of cap security n u] assms(4) by auto
  obtain gi where gi: "gheap s' (cur_groups s') = Some gi" "gi_ok gi" "group_ids gi = sort xs"
    using xs(2,3) by (auto simp: task_groups_def cred_ok_def)
  have len: "length xs = nat n" using copy_from_user_length[OF xs(1)] .
  have "length (group_ids gi) = ngroups gi" using gi(2) by (simp add: gi_ok_def group_ids_def)
  then have ng: "ngroups gi = nat n" using gi(3) len by simp
  have "groups_to_user v gi = Ok (\<lambda>j. if j < nat n then Some (concat (blocks gi) ! j) else v j)"
    using groups_to_user_loop_ok[of "blocks gi" "ngroups gi" 0 v] gi(2) assms(7) ng by (simp add: groups_to_user_def gi_ok_def cong: if_cong)
  moreover have "concat (blocks gi) ! j = sort xs ! j" if "j < nat n" for j
    using that gi(3) ng by (metis group_ids_def nth_take)
  ultimately show ?thesis using gi(1) xs(1,4) assms(5,6) ng by (auto simp: sys_getgroups_def)
qed

theorem setgroups_getgroups_witness:
  "\<exists>s' xs v'. sys_setgroups True None 1 (Some (replicate 32 0)) (\<lambda>_. None) 3 (user_array [5, 3, 9]) cred_example = Some (Ok (), s') \<and>
    copy_from_user (user_array [5, 3, 9]) 0 (nat 3) = Some xs \<and> sys_getgroups 4 (user_array [0, 0, 0, 7]) s' = Ok (3, v') \<and>
    v' 0 = Some (sort xs ! 0) \<and> v' 3 = Some 7"
proof -
  obtain s' where s': "sys_setgroups True None 1 (Some (replicate 32 0)) (\<lambda>_. None) 3 (user_array [5, 3, 9]) cred_example = Some (Ok (), s')"
    using setgroups_example by blast
  from setgroups_getgroups[OF cred_example_ok memory_example s', of 4 "user_array [0, 0, 0, 7]"] s' show ?thesis
    by (fastforce simp: user_array_def)
qed

text \<open>
  C26. \<^verbatim>\<open>in_group_p\<close> after a successful \<^verbatim>\<open>sys_setgroups\<close>, for ids below \<open>2 ^ 31\<close>: it holds exactly of the
  \<^verbatim>\<open>fsgid\<close> and the ids that were set.
\<close>

theorem in_group_p_correct:
  assumes "cred_ok s" and "gheap s a = None" and "memory_ok small page"
    and "sys_setgroups cap security a small page n u s = Some (Ok (), s')"
    and "copy_from_user u 0 (nat n) = Some xs" and "\<forall>x \<in> set xs. small_gid x" and "small_gid grp"
  shows "in_group_p grp s' = Some (grp = fsgid s \<or> grp \<in> set xs)"
proof -
  have "cred_ok s'" "task_groups s' = Some (sort xs)" "fsgid s' = fsgid s"
    using setgroups_cases[OF assms(1-3), of cap security n u] assms(4,5) by auto
  then show ?thesis using in_group_p_spec[of s' "sort xs" grp] assms(6,7) by simp
qed

theorem in_group_p_correct_witness:
  "\<exists>s'. sys_setgroups True None 1 (Some (replicate 32 0)) (\<lambda>_. None) 3 (user_array [5, 3, 9]) cred_example = Some (Ok (), s') \<and>
    in_group_p 5 s' = Some True \<and> in_group_p 6 s' = Some False"
proof -
  obtain s' where s': "sys_setgroups True None 1 (Some (replicate 32 0)) (\<lambda>_. None) 3 (user_array [5, 3, 9]) cred_example = Some (Ok (), s')"
    using setgroups_example by blast
  have xs: "copy_from_user (user_array [5, 3, 9]) 0 (nat 3) = Some [5, 3, 9]"
    by (simp add: copy_from_user_def user_array_def upt_rec)
  have "in_group_p g s' = Some (g = fsgid cred_example \<or> g \<in> set [5, 3, 9])" if "small_gid g" for g
    by (rule in_group_p_correct[OF cred_example_ok memory_example s' xs _ that]) (auto simp: small_gid_def)
  from this[of 5] this[of 6] show ?thesis using s' by (auto simp: small_gid_def cred_example_def)
qed


end
