(* ===== verification/Posix_Acl.thy ===== *)
theory Posix_Acl
  imports Task_Groups Byte_Order
begin

unbundle bit_operations_syntax

text \<open>
  POSIX access control lists, \<^verbatim>\<open>fs/posix_acl.c\<close>, and their extended-attribute form, \<^verbatim>\<open>fs/xattr_acl.c\<close>. The
  entries of an ACL are a list (\<^verbatim>\<open>a_count\<close> is its length) and \<^verbatim>\<open>mode_t\<close> is the unsigned short of the ARM
  configuration. A pointer into the entries is an index. The lemmas relate the loops to the entry order the
  standard prescribes: owner, named users, owning group, named groups, mask, others.
\<close>

section \<open>Model\<close>

record posix_acl_entry =
  e_tag :: u16
  e_perm :: u16
  e_id :: u32

record posix_acl =
  a_refcount :: int
  a_entries :: "posix_acl_entry list"

type_synonym mode_t = u16

definition ACL_USER_OBJ :: u16 where "ACL_USER_OBJ = 0x01"
definition ACL_USER :: u16 where "ACL_USER = 0x02"
definition ACL_GROUP_OBJ :: u16 where "ACL_GROUP_OBJ = 0x04"
definition ACL_GROUP :: u16 where "ACL_GROUP = 0x08"
definition ACL_MASK :: u16 where "ACL_MASK = 0x10"
definition ACL_OTHER :: u16 where "ACL_OTHER = 0x20"
definition ACL_UNDEFINED_ID :: u32 where "ACL_UNDEFINED_ID = -1"

definition S_IRWXU :: mode_t where "S_IRWXU = 0x1c0"
definition S_IRWXG :: mode_t where "S_IRWXG = 0x038"
definition S_IRWXO :: mode_t where "S_IRWXO = 0x007"
definition S_IRWXUGO :: mode_t where "S_IRWXUGO = S_IRWXU OR S_IRWXG OR S_IRWXO"

lemmas acl_tags = ACL_USER_OBJ_def ACL_USER_def ACL_GROUP_OBJ_def ACL_GROUP_def ACL_MASK_def ACL_OTHER_def
lemmas mode_bits = S_IRWXU_def S_IRWXG_def S_IRWXO_def S_IRWXUGO_def

text \<open>Allocation succeeds or not; the entries of a fresh ACL are whatever the memory held.\<close>

definition posix_acl_alloc :: "posix_acl_entry list option \<Rightarrow> posix_acl option" where
  "posix_acl_alloc mem = map_option (\<lambda>es. \<lparr>a_refcount = 1, a_entries = es\<rparr>) mem"

definition posix_acl_clone :: "bool \<Rightarrow> posix_acl option \<Rightarrow> posix_acl option" where
  "posix_acl_clone alloc_ok acl =
     (case acl of
        None \<Rightarrow> None
      | Some acl \<Rightarrow> if alloc_ok then Some (acl\<lparr>a_refcount := 1\<rparr>) else None)"

definition posix_acl_dup :: "posix_acl option \<Rightarrow> posix_acl option" where
  "posix_acl_dup acl = map_option (\<lambda>acl. acl\<lparr>a_refcount := a_refcount acl + 1\<rparr>) acl"

text \<open>Dropping a reference leaves nothing when it was the last.\<close>

definition posix_acl_release :: "posix_acl option \<Rightarrow> posix_acl option" where
  "posix_acl_release acl =
     (case acl of
        None \<Rightarrow> None
      | Some acl \<Rightarrow> if a_refcount acl - 1 = 0 then None else Some (acl\<lparr>a_refcount := a_refcount acl - 1\<rparr>))"

text \<open>\<^verbatim>\<open>posix_acl_valid\<close>: \<open>state\<close> is the tag the loop expects next, \<open>lo\<close> the least id allowed.\<close>

fun acl_valid_loop :: "u16 \<Rightarrow> u32 \<Rightarrow> bool \<Rightarrow> posix_acl_entry list \<Rightarrow> unit kresult" where
  "acl_valid_loop state lo needs_mask [] = (if state = 0 then Ok () else Err EINVAL)"
| "acl_valid_loop state lo needs_mask (pa # es) =
     (if e_perm pa AND NOT 7 \<noteq> 0 then Err EINVAL
      else if e_tag pa = ACL_USER_OBJ then
        if state = ACL_USER_OBJ then acl_valid_loop ACL_USER 0 needs_mask es else Err EINVAL
      else if e_tag pa = ACL_USER then
        if state \<noteq> ACL_USER then Err EINVAL
        else if e_id pa = ACL_UNDEFINED_ID \<or> e_id pa < lo then Err EINVAL
        else acl_valid_loop state (e_id pa + 1) True es
      else if e_tag pa = ACL_GROUP_OBJ then
        if state = ACL_USER then acl_valid_loop ACL_GROUP 0 needs_mask es else Err EINVAL
      else if e_tag pa = ACL_GROUP then
        if state \<noteq> ACL_GROUP then Err EINVAL
        else if e_id pa = ACL_UNDEFINED_ID \<or> e_id pa < lo then Err EINVAL
        else acl_valid_loop state (e_id pa + 1) True es
      else if e_tag pa = ACL_MASK then
        if state \<noteq> ACL_GROUP then Err EINVAL else acl_valid_loop ACL_OTHER lo needs_mask es
      else if e_tag pa = ACL_OTHER then
        if state = ACL_OTHER \<or> (state = ACL_GROUP \<and> \<not> needs_mask) then acl_valid_loop 0 lo needs_mask es else Err EINVAL
      else Err EINVAL)"

definition posix_acl_valid :: "posix_acl \<Rightarrow> unit kresult" where
  "posix_acl_valid acl = acl_valid_loop ACL_USER_OBJ 0 False (a_entries acl)"

text \<open>\<^verbatim>\<open>posix_acl_equiv_mode\<close>: the mode bits collected and whether the ACL says more than they do.\<close>

fun equiv_mode_loop :: "mode_t \<Rightarrow> bool \<Rightarrow> posix_acl_entry list \<Rightarrow> (bool \<times> mode_t) kresult" where
  "equiv_mode_loop mode not_equiv [] = Ok (not_equiv, mode)"
| "equiv_mode_loop mode not_equiv (pa # es) =
     (if e_tag pa = ACL_USER_OBJ then equiv_mode_loop (mode OR push_bit 6 (e_perm pa AND S_IRWXO)) not_equiv es
      else if e_tag pa = ACL_GROUP_OBJ then equiv_mode_loop (mode OR push_bit 3 (e_perm pa AND S_IRWXO)) not_equiv es
      else if e_tag pa = ACL_OTHER then equiv_mode_loop (mode OR (e_perm pa AND S_IRWXO)) not_equiv es
      else if e_tag pa = ACL_MASK then
        equiv_mode_loop ((mode AND NOT S_IRWXG) OR push_bit 3 (e_perm pa AND S_IRWXO)) True es
      else if e_tag pa = ACL_USER \<or> e_tag pa = ACL_GROUP then equiv_mode_loop mode True es
      else Err EINVAL)"

definition posix_acl_equiv_mode :: "posix_acl \<Rightarrow> mode_t option \<Rightarrow> (bool \<times> mode_t option) kresult" where
  "posix_acl_equiv_mode acl mode_p =
     (case equiv_mode_loop 0 False (a_entries acl) of
        Ok (not_equiv, mode) \<Rightarrow> Ok (not_equiv, map_option (\<lambda>m. (m AND NOT S_IRWXUGO) OR mode) mode_p)
      | Err e \<Rightarrow> Err e
      | Bug \<Rightarrow> Bug)"

definition posix_acl_from_mode :: "mode_t \<Rightarrow> posix_acl_entry list option \<Rightarrow> posix_acl kresult" where
  "posix_acl_from_mode mode mem =
     (case posix_acl_alloc mem of
        None \<Rightarrow> Err ENOMEM
      | Some acl \<Rightarrow>
          if length (a_entries acl) < 3 then Bug
          else Ok (acl\<lparr>a_entries := (a_entries acl)
            [0 := \<lparr>e_tag = ACL_USER_OBJ, e_perm = drop_bit 6 (mode AND S_IRWXU), e_id = ACL_UNDEFINED_ID\<rparr>,
             1 := \<lparr>e_tag = ACL_GROUP_OBJ, e_perm = drop_bit 3 (mode AND S_IRWXG), e_id = ACL_UNDEFINED_ID\<rparr>,
             2 := \<lparr>e_tag = ACL_OTHER, e_perm = mode AND S_IRWXO, e_id = ACL_UNDEFINED_ID\<rparr>]\<rparr>))"

text \<open>
  \<^verbatim>\<open>posix_acl_permission\<close> with its two exits: \<open>check_perm\<close>, and \<open>mask\<close>, which looks for a mask entry behind \<open>pa\<close>.
\<close>

record inode_owner =
  i_uid :: u32
  i_gid :: u32

definition has_perm :: "u16 \<Rightarrow> u32 \<Rightarrow> bool" where
  "has_perm perm want \<longleftrightarrow> ucast perm AND want = want"

definition check_perm :: "posix_acl_entry \<Rightarrow> u32 \<Rightarrow> unit kresult" where
  "check_perm pa want = (if has_perm (e_perm pa) want then Ok () else Err EACCES)"

fun acl_mask :: "posix_acl_entry \<Rightarrow> posix_acl_entry list \<Rightarrow> u32 \<Rightarrow> unit kresult" where
  "acl_mask pa [] want = check_perm pa want"
| "acl_mask pa (mask_obj # es) want =
     (if e_tag mask_obj = ACL_MASK
      then if has_perm (e_perm pa AND e_perm mask_obj) want then Ok () else Err EACCES
      else acl_mask pa es want)"

fun acl_permission_loop :: "inode_owner \<Rightarrow> u32 \<Rightarrow> cred_state \<Rightarrow> u32 \<Rightarrow> bool \<Rightarrow> posix_acl_entry list \<Rightarrow> unit kresult" where
  "acl_permission_loop inode fsuid cred want found [] = Err EIO"
| "acl_permission_loop inode fsuid cred want found (pa # es) =
     (if e_tag pa = ACL_USER_OBJ then
        if i_uid inode = fsuid then check_perm pa want else acl_permission_loop inode fsuid cred want found es
      else if e_tag pa = ACL_USER then
        if e_id pa = fsuid then acl_mask pa es want else acl_permission_loop inode fsuid cred want found es
      else if e_tag pa = ACL_GROUP_OBJ then
        (case in_group_p (i_gid inode) cred of
           None \<Rightarrow> Bug
         | Some True \<Rightarrow> if has_perm (e_perm pa) want then acl_mask pa es want else acl_permission_loop inode fsuid cred want True es
         | Some False \<Rightarrow> acl_permission_loop inode fsuid cred want found es)
      else if e_tag pa = ACL_GROUP then
        (case in_group_p (e_id pa) cred of
           None \<Rightarrow> Bug
         | Some True \<Rightarrow> if has_perm (e_perm pa) want then acl_mask pa es want else acl_permission_loop inode fsuid cred want True es
         | Some False \<Rightarrow> acl_permission_loop inode fsuid cred want found es)
      else if e_tag pa = ACL_MASK then acl_permission_loop inode fsuid cred want found es
      else if e_tag pa = ACL_OTHER then if found then Err EACCES else check_perm pa want
      else Err EIO)"

definition posix_acl_permission :: "inode_owner \<Rightarrow> u32 \<Rightarrow> cred_state \<Rightarrow> posix_acl \<Rightarrow> u32 \<Rightarrow> unit kresult" where
  "posix_acl_permission inode fsuid cred acl want = acl_permission_loop inode fsuid cred want False (a_entries acl)"

text \<open>
  \<^verbatim>\<open>posix_acl_create_masq\<close> and \<^verbatim>\<open>posix_acl_chmod_masq\<close>: the loops return the entries as they leave them, with the
  loop variables or the error.
\<close>

record masq_state =
  masq_mode :: mode_t
  group_obj :: "nat option"
  mask_obj :: "nat option"
  masq_not_equiv :: bool

fun create_masq_loop :: "nat \<Rightarrow> masq_state \<Rightarrow> posix_acl_entry list \<Rightarrow> posix_acl_entry list \<times> masq_state kresult" where
  "create_masq_loop i st [] = ([], Ok st)"
| "create_masq_loop i st (pa # es) =
     (let mode = masq_mode st; next = (\<lambda>pa st. let (es, r) = create_masq_loop (Suc i) st es in (pa # es, r)) in
      if e_tag pa = ACL_USER_OBJ then
        let pa = pa\<lparr>e_perm := e_perm pa AND (drop_bit 6 mode OR NOT S_IRWXO)\<rparr>
        in next pa (st\<lparr>masq_mode := mode AND (push_bit 6 (e_perm pa) OR NOT S_IRWXU)\<rparr>)
      else if e_tag pa = ACL_USER \<or> e_tag pa = ACL_GROUP then next pa (st\<lparr>masq_not_equiv := True\<rparr>)
      else if e_tag pa = ACL_GROUP_OBJ then next pa (st\<lparr>group_obj := Some i\<rparr>)
      else if e_tag pa = ACL_OTHER then
        let pa = pa\<lparr>e_perm := e_perm pa AND (mode OR NOT S_IRWXO)\<rparr>
        in next pa (st\<lparr>masq_mode := mode AND (e_perm pa OR NOT S_IRWXO)\<rparr>)
      else if e_tag pa = ACL_MASK then next pa (st\<lparr>mask_obj := Some i, masq_not_equiv := True\<rparr>)
      else (pa # es, Err EIO))"

definition create_masq_group :: "nat \<Rightarrow> mode_t \<Rightarrow> posix_acl_entry list \<Rightarrow> posix_acl_entry list \<times> mode_t" where
  "create_masq_group i mode es =
     (let perm = e_perm (es ! i) AND (drop_bit 3 mode OR NOT S_IRWXO)
      in (es[i := (es ! i)\<lparr>e_perm := perm\<rparr>], mode AND (push_bit 3 perm OR NOT S_IRWXG)))"

definition posix_acl_create_masq :: "posix_acl \<Rightarrow> mode_t \<Rightarrow> posix_acl \<times> (bool \<times> mode_t) kresult" where
  "posix_acl_create_masq acl mode_p =
     (case create_masq_loop 0 \<lparr>masq_mode = mode_p, group_obj = None, mask_obj = None, masq_not_equiv = False\<rparr> (a_entries acl) of
        (es, Ok st) \<Rightarrow>
          (case (mask_obj st, group_obj st) of
             (None, None) \<Rightarrow> (acl\<lparr>a_entries := es\<rparr>, Err EIO)
           | (m, g) \<Rightarrow>
               let (es, mode) = create_masq_group (case m of Some i \<Rightarrow> i | None \<Rightarrow> the g) (masq_mode st) es
               in (acl\<lparr>a_entries := es\<rparr>, Ok (masq_not_equiv st, (mode_p AND NOT S_IRWXUGO) OR mode)))
      | (es, Err e) \<Rightarrow> (acl\<lparr>a_entries := es\<rparr>, Err e)
      | (es, Bug) \<Rightarrow> (acl\<lparr>a_entries := es\<rparr>, Bug))"

fun chmod_masq_loop :: "mode_t \<Rightarrow> nat \<Rightarrow> nat option \<Rightarrow> nat option \<Rightarrow> posix_acl_entry list \<Rightarrow>
    posix_acl_entry list \<times> (nat option \<times> nat option) kresult" where
  "chmod_masq_loop mode i g m [] = ([], Ok (g, m))"
| "chmod_masq_loop mode i g m (pa # es) =
     (let next = (\<lambda>pa g m. let (es, r) = chmod_masq_loop mode (Suc i) g m es in (pa # es, r)) in
      if e_tag pa = ACL_USER_OBJ then next (pa\<lparr>e_perm := drop_bit 6 (mode AND S_IRWXU)\<rparr>) g m
      else if e_tag pa = ACL_USER \<or> e_tag pa = ACL_GROUP then next pa g m
      else if e_tag pa = ACL_GROUP_OBJ then next pa (Some i) m
      else if e_tag pa = ACL_MASK then next pa g (Some i)
      else if e_tag pa = ACL_OTHER then next (pa\<lparr>e_perm := mode AND S_IRWXO\<rparr>) g m
      else (pa # es, Err EIO))"

definition posix_acl_chmod_masq :: "posix_acl \<Rightarrow> mode_t \<Rightarrow> posix_acl \<times> unit kresult" where
  "posix_acl_chmod_masq acl mode =
     (case chmod_masq_loop mode 0 None None (a_entries acl) of
        (es, Ok (g, m)) \<Rightarrow>
          (case (m, g) of
             (None, None) \<Rightarrow> (acl\<lparr>a_entries := es\<rparr>, Err EIO)
           | _ \<Rightarrow>
               let i = (case m of Some i \<Rightarrow> i | None \<Rightarrow> the g)
               in (acl\<lparr>a_entries := es[i := (es ! i)\<lparr>e_perm := drop_bit 3 (mode AND S_IRWXG)\<rparr>]\<rparr>, Ok ()))
      | (es, Err e) \<Rightarrow> (acl\<lparr>a_entries := es\<rparr>, Err e)
      | (es, Bug) \<Rightarrow> (acl\<lparr>a_entries := es\<rparr>, Bug))"

text \<open>The extended-attribute form: a version word, then eight bytes per entry, little-endian.\<close>

fun le16_to_cpu :: "u8 list \<Rightarrow> u16" where
  "le16_to_cpu [b0, b1] = ucast b0 OR push_bit 8 (ucast b1)"
| "le16_to_cpu _ = 0"

definition cpu_to_le16 :: "u16 \<Rightarrow> u8 list" where
  "cpu_to_le16 w = [ucast w, ucast (drop_bit 8 w)]"

definition POSIX_ACL_XATTR_VERSION :: u32 where "POSIX_ACL_XATTR_VERSION = 2"

definition posix_acl_xattr_size :: "nat \<Rightarrow> nat" where
  "posix_acl_xattr_size cnt = 4 + cnt * 8"

definition posix_acl_xattr_count :: "nat \<Rightarrow> int" where
  "posix_acl_xattr_count sz = (if sz < 4 then -1 else if (sz - 4) mod 8 \<noteq> 0 then -1 else int ((sz - 4) div 8))"

fun from_xattr_loop :: "nat \<Rightarrow> u8 list \<Rightarrow> posix_acl_entry list option" where
  "from_xattr_loop 0 bs = Some []"
| "from_xattr_loop (Suc n) bs =
     (let tag = le16_to_cpu (take 2 bs); perm = le16_to_cpu (take 2 (drop 2 bs)); i = le32_to_cpu (take 4 (drop 4 bs)) in
      if tag = ACL_USER_OBJ \<or> tag = ACL_GROUP_OBJ \<or> tag = ACL_MASK \<or> tag = ACL_OTHER then
        map_option (\<lambda>es. \<lparr>e_tag = tag, e_perm = perm, e_id = ACL_UNDEFINED_ID\<rparr> # es) (from_xattr_loop n (drop 8 bs))
      else if tag = ACL_USER \<or> tag = ACL_GROUP then
        map_option (\<lambda>es. \<lparr>e_tag = tag, e_perm = perm, e_id = i\<rparr> # es) (from_xattr_loop n (drop 8 bs))
      else None)"

definition posix_acl_from_xattr :: "bool \<Rightarrow> u8 list option \<Rightarrow> posix_acl option kresult" where
  "posix_acl_from_xattr alloc_ok value =
     (case value of
        None \<Rightarrow> Ok None
      | Some bs \<Rightarrow>
          if length bs < 4 then Err EINVAL
          else if le32_to_cpu (take 4 bs) \<noteq> POSIX_ACL_XATTR_VERSION then Err EOPNOTSUPP
          else let cnt = posix_acl_xattr_count (length bs) in
            if cnt < 0 then Err EINVAL
            else if cnt = 0 then Ok None
            else if \<not> alloc_ok then Err ENOMEM
            else (case from_xattr_loop (nat cnt) (drop 4 bs) of
                    None \<Rightarrow> Err EINVAL
                  | Some es \<Rightarrow> Ok (Some \<lparr>a_refcount = 1, a_entries = es\<rparr>)))"

definition entry_bytes :: "posix_acl_entry \<Rightarrow> u8 list" where
  "entry_bytes e = cpu_to_le16 (e_tag e) @ cpu_to_le16 (e_perm e) @ cpu_to_le32 (e_id e)"

definition posix_acl_to_xattr :: "posix_acl \<Rightarrow> u8 list option \<Rightarrow> (nat \<times> u8 list option) kresult" where
  "posix_acl_to_xattr acl buffer =
     (let real_size = posix_acl_xattr_size (length (a_entries acl)) in
      case buffer of
        None \<Rightarrow> Ok (real_size, None)
      | Some buf \<Rightarrow>
          if real_size > length buf then Err ERANGE
          else Ok (real_size, Some (cpu_to_le32 POSIX_ACL_XATTR_VERSION @ concat (map entry_bytes (a_entries acl)) @ drop real_size buf)))"

section \<open>The entry order of the standard\<close>

text \<open>
  An ACL as the standard describes it, the entries it stands for, and when it is well-formed: permissions
  within \<open>rwx\<close>, named ids ascending and defined, and a mask if there is any named entry.
\<close>

record acl_view =
  v_user_obj :: posix_acl_entry
  v_users :: "posix_acl_entry list"
  v_group_obj :: posix_acl_entry
  v_groups :: "posix_acl_entry list"
  v_mask :: "posix_acl_entry option"
  v_other :: posix_acl_entry

definition opt_list :: "'a option \<Rightarrow> 'a list" where
  "opt_list x = (case x of None \<Rightarrow> [] | Some y \<Rightarrow> [y])"

lemma opt_list_simps [simp]: "opt_list None = []" "opt_list (Some y) = [y]"
  by (simp_all add: opt_list_def)

definition view_entries :: "acl_view \<Rightarrow> posix_acl_entry list" where
  "view_entries v = v_user_obj v # v_users v @ v_group_obj v # v_groups v @ opt_list (v_mask v) @ [v_other v]"

definition perm_ok :: "posix_acl_entry \<Rightarrow> bool" where
  "perm_ok e \<longleftrightarrow> e_perm e AND NOT 7 = 0"

definition entry_ok :: "u16 \<Rightarrow> posix_acl_entry \<Rightarrow> bool" where
  "entry_ok tag e \<longleftrightarrow> e_tag e = tag \<and> perm_ok e"

definition ids_ok :: "posix_acl_entry list \<Rightarrow> bool" where
  "ids_ok es \<longleftrightarrow> sorted_wrt (\<lambda>a b. e_id a < e_id b) es \<and> (\<forall>e \<in> set es. e_id e \<noteq> ACL_UNDEFINED_ID)"

definition view_ok :: "acl_view \<Rightarrow> bool" where
  "view_ok v \<longleftrightarrow> entry_ok ACL_USER_OBJ (v_user_obj v) \<and> (\<forall>e \<in> set (v_users v). entry_ok ACL_USER e) \<and> ids_ok (v_users v) \<and>
     entry_ok ACL_GROUP_OBJ (v_group_obj v) \<and> (\<forall>e \<in> set (v_groups v). entry_ok ACL_GROUP e) \<and> ids_ok (v_groups v) \<and>
     (\<forall>m. v_mask v = Some m \<longrightarrow> entry_ok ACL_MASK m) \<and> entry_ok ACL_OTHER (v_other v) \<and>
     (v_users v \<noteq> [] \<or> v_groups v \<noteq> [] \<longrightarrow> v_mask v \<noteq> None)"

text \<open>The id test of the loop.\<close>

fun ids_from :: "u32 \<Rightarrow> posix_acl_entry list \<Rightarrow> bool" where
  "ids_from lo [] \<longleftrightarrow> True"
| "ids_from lo (e # es) \<longleftrightarrow> e_id e \<noteq> ACL_UNDEFINED_ID \<and> lo \<le> e_id e \<and> ids_from (e_id e + 1) es"

lemma next_id:
  assumes "x \<noteq> ACL_UNDEFINED_ID"
  shows "x + 1 \<le> y \<longleftrightarrow> x < y"
proof -
  have "1 + x \<noteq> 0" using assms unfolding ACL_UNDEFINED_ID_def by (metis add.commute eq_neg_iff_add_eq_0)
  then have "unat (1 + x) = Suc (unat x)" by (rule unatSuc)
  then show ?thesis by (simp add: word_le_nat_alt word_less_nat_alt add.commute Suc_le_eq)
qed

lemma ids_from_ok: "ids_from lo es \<longleftrightarrow> ids_ok es \<and> (\<forall>e \<in> set es. lo \<le> e_id e)"
proof (induction es arbitrary: lo)
  case (Cons e es)
  then show ?case by (auto simp: ids_ok_def next_id)
qed (simp add: ids_ok_def)

lemma ids_from_0: "ids_from 0 es = ids_ok es"
  by (simp add: ids_from_ok)

lemma tags_neq [simp]:
  "ACL_USER_OBJ \<noteq> ACL_USER" "ACL_USER_OBJ \<noteq> ACL_GROUP_OBJ" "ACL_USER_OBJ \<noteq> ACL_GROUP" "ACL_USER_OBJ \<noteq> ACL_MASK"
  "ACL_USER_OBJ \<noteq> ACL_OTHER" "ACL_USER \<noteq> ACL_USER_OBJ" "ACL_USER \<noteq> ACL_GROUP_OBJ" "ACL_USER \<noteq> ACL_GROUP"
  "ACL_USER \<noteq> ACL_MASK" "ACL_USER \<noteq> ACL_OTHER" "ACL_GROUP_OBJ \<noteq> ACL_USER_OBJ" "ACL_GROUP_OBJ \<noteq> ACL_USER"
  "ACL_GROUP_OBJ \<noteq> ACL_GROUP" "ACL_GROUP_OBJ \<noteq> ACL_MASK" "ACL_GROUP_OBJ \<noteq> ACL_OTHER" "ACL_GROUP \<noteq> ACL_USER_OBJ"
  "ACL_GROUP \<noteq> ACL_USER" "ACL_GROUP \<noteq> ACL_GROUP_OBJ" "ACL_GROUP \<noteq> ACL_MASK" "ACL_GROUP \<noteq> ACL_OTHER"
  "ACL_MASK \<noteq> ACL_USER_OBJ" "ACL_MASK \<noteq> ACL_USER" "ACL_MASK \<noteq> ACL_GROUP_OBJ" "ACL_MASK \<noteq> ACL_GROUP"
  "ACL_MASK \<noteq> ACL_OTHER" "ACL_OTHER \<noteq> ACL_USER_OBJ" "ACL_OTHER \<noteq> ACL_USER" "ACL_OTHER \<noteq> ACL_GROUP_OBJ"
  "ACL_OTHER \<noteq> ACL_GROUP" "ACL_OTHER \<noteq> ACL_MASK" "ACL_USER_OBJ \<noteq> 0" "ACL_USER \<noteq> 0"
  "ACL_GROUP_OBJ \<noteq> 0" "ACL_GROUP \<noteq> 0" "ACL_MASK \<noteq> 0" "ACL_OTHER \<noteq> 0"
  "0 \<noteq> ACL_USER_OBJ" "0 \<noteq> ACL_USER" "0 \<noteq> ACL_GROUP_OBJ" "0 \<noteq> ACL_GROUP"
  "0 \<noteq> ACL_MASK" "0 \<noteq> ACL_OTHER"
  by (simp_all add: acl_tags)

declare acl_valid_loop.simps(2) [simp del]

lemma acl_valid_ConsD:
  assumes "acl_valid_loop state lo nm (pa # es) = Ok ()"
  shows "perm_ok pa \<and>
    (e_tag pa = ACL_USER_OBJ \<and> state = ACL_USER_OBJ \<and> acl_valid_loop ACL_USER 0 nm es = Ok () \<or>
     e_tag pa = ACL_USER \<and> state = ACL_USER \<and> e_id pa \<noteq> ACL_UNDEFINED_ID \<and> lo \<le> e_id pa \<and>
       acl_valid_loop ACL_USER (e_id pa + 1) True es = Ok () \<or>
     e_tag pa = ACL_GROUP_OBJ \<and> state = ACL_USER \<and> acl_valid_loop ACL_GROUP 0 nm es = Ok () \<or>
     e_tag pa = ACL_GROUP \<and> state = ACL_GROUP \<and> e_id pa \<noteq> ACL_UNDEFINED_ID \<and> lo \<le> e_id pa \<and>
       acl_valid_loop ACL_GROUP (e_id pa + 1) True es = Ok () \<or>
     e_tag pa = ACL_MASK \<and> state = ACL_GROUP \<and> acl_valid_loop ACL_OTHER lo nm es = Ok () \<or>
     e_tag pa = ACL_OTHER \<and> (state = ACL_OTHER \<or> state = ACL_GROUP \<and> \<not> nm) \<and> acl_valid_loop 0 lo nm es = Ok ())"
  using assms unfolding acl_valid_loop.simps(2) perm_ok_def
  by (simp only: kresult.distinct kresult.inject not_less de_Morgan_disj not_not split: if_split_asm) simp_all

lemma acl_valid_loop_end: "acl_valid_loop 0 lo nm es = Ok () \<longleftrightarrow> es = []"
  by (cases es) (auto dest: acl_valid_ConsD)

lemma acl_valid_loop_other: "acl_valid_loop ACL_OTHER lo nm es = Ok () \<longleftrightarrow> (\<exists>ot. es = [ot] \<and> entry_ok ACL_OTHER ot)"
proof
  assume "acl_valid_loop ACL_OTHER lo nm es = Ok ()"
  then show "\<exists>ot. es = [ot] \<and> entry_ok ACL_OTHER ot"
    by (cases es) (auto dest!: acl_valid_ConsD simp: acl_valid_loop_end entry_ok_def)
next
  assume "\<exists>ot. es = [ot] \<and> entry_ok ACL_OTHER ot"
  then show "acl_valid_loop ACL_OTHER lo nm es = Ok ()" by (auto simp: entry_ok_def perm_ok_def acl_valid_loop.simps(2))
qed

lemma acl_valid_loop_groupD:
  "acl_valid_loop ACL_GROUP lo nm es = Ok () \<Longrightarrow>
   \<exists>gs mo ot. es = gs @ opt_list mo @ [ot] \<and> ids_from lo gs \<and> (\<forall>e \<in> set gs. entry_ok ACL_GROUP e) \<and>
     (\<forall>m. mo = Some m \<longrightarrow> entry_ok ACL_MASK m) \<and> entry_ok ACL_OTHER ot \<and> (nm \<or> gs \<noteq> [] \<longrightarrow> mo \<noteq> None)"
proof (induction es arbitrary: lo nm)
  case Nil
  then show ?case by simp
next
  case (Cons pa es)
  note D = acl_valid_ConsD[OF Cons.prems]
  have p: "perm_ok pa" using D by blast
  consider "e_tag pa = ACL_GROUP" | "e_tag pa = ACL_MASK" | "e_tag pa = ACL_OTHER" "\<not> nm"
    using D by auto
  then show ?case
  proof cases
    case 1
    then have "acl_valid_loop ACL_GROUP (e_id pa + 1) True es = Ok ()" "e_id pa \<noteq> ACL_UNDEFINED_ID" "lo \<le> e_id pa"
      using D by auto
    with Cons.IH[of "e_id pa + 1" True] obtain gs mo ot where
      "es = gs @ opt_list mo @ [ot]" "ids_from (e_id pa + 1) gs" "\<forall>e \<in> set gs. entry_ok ACL_GROUP e"
      "\<forall>m. mo = Some m \<longrightarrow> entry_ok ACL_MASK m" "entry_ok ACL_OTHER ot" "mo \<noteq> None" by blast
    then show ?thesis using 1 p \<open>e_id pa \<noteq> ACL_UNDEFINED_ID\<close> \<open>lo \<le> e_id pa\<close>
      by (intro exI[of _ "pa # gs"] exI[of _ mo] exI[of _ ot]) (auto simp: entry_ok_def)
  next
    case 2
    then have "acl_valid_loop ACL_OTHER lo nm es = Ok ()" using D by auto
    then obtain ot where "es = [ot]" "entry_ok ACL_OTHER ot" by (auto simp: acl_valid_loop_other)
    then show ?thesis using 2 p by (intro exI[of _ "[]"] exI[of _ "Some pa"] exI[of _ ot]) (auto simp: entry_ok_def)
  next
    case 3
    then have "acl_valid_loop 0 lo nm es = Ok ()" using D by auto
    then show ?thesis using 3 p
      by (intro exI[of _ "[]"] exI[of _ None] exI[of _ pa]) (auto simp: entry_ok_def acl_valid_loop_end)
  qed
qed

lemma acl_valid_loop_groupI:
  assumes "ids_from lo gs" and "\<forall>e \<in> set gs. entry_ok ACL_GROUP e" and "\<forall>m. mo = Some m \<longrightarrow> entry_ok ACL_MASK m"
    and "entry_ok ACL_OTHER ot" and "nm \<or> gs \<noteq> [] \<longrightarrow> mo \<noteq> None"
  shows "acl_valid_loop ACL_GROUP lo nm (gs @ opt_list mo @ [ot]) = Ok ()"
  using assms
proof (induction gs arbitrary: lo nm)
  case Nil
  then show ?case by (cases mo) (auto simp: entry_ok_def perm_ok_def acl_valid_loop.simps(2))
next
  case (Cons g gs)
  then show ?case by (auto simp: entry_ok_def perm_ok_def acl_valid_loop.simps(2))
qed

lemma acl_valid_loop_userD:
  "acl_valid_loop ACL_USER lo nm es = Ok () \<Longrightarrow>
   \<exists>us go rest nm'. es = us @ go # rest \<and> ids_from lo us \<and> (\<forall>e \<in> set us. entry_ok ACL_USER e) \<and> entry_ok ACL_GROUP_OBJ go \<and>
     acl_valid_loop ACL_GROUP 0 nm' rest = Ok () \<and> (nm \<or> us \<noteq> [] \<longrightarrow> nm')"
proof (induction es arbitrary: lo nm)
  case Nil
  then show ?case by simp
next
  case (Cons pa es)
  note D = acl_valid_ConsD[OF Cons.prems]
  have p: "perm_ok pa" using D by blast
  consider "e_tag pa = ACL_USER" | "e_tag pa = ACL_GROUP_OBJ" using D by auto
  then show ?case
  proof cases
    case 1
    then have "acl_valid_loop ACL_USER (e_id pa + 1) True es = Ok ()" "e_id pa \<noteq> ACL_UNDEFINED_ID" "lo \<le> e_id pa"
      using D by auto
    with Cons.IH[of "e_id pa + 1" True] obtain us go rest nm' where ih: "es = us @ go # rest" "ids_from (e_id pa + 1) us"
      "\<forall>e \<in> set us. entry_ok ACL_USER e" "entry_ok ACL_GROUP_OBJ go" "acl_valid_loop ACL_GROUP 0 nm' rest = Ok ()" "nm'" by metis
    have "entry_ok ACL_USER pa" using 1 p by (simp add: entry_ok_def)
    then show ?thesis using ih \<open>e_id pa \<noteq> ACL_UNDEFINED_ID\<close> \<open>lo \<le> e_id pa\<close>
      by (intro exI[of _ "pa # us"] exI[of _ go] exI[of _ rest] exI[of _ nm']) simp
  next
    case 2
    then have "acl_valid_loop ACL_GROUP 0 nm es = Ok ()" using D by auto
    then show ?thesis using 2 p
      by (intro exI[of _ "[]"] exI[of _ pa] exI[of _ es] exI[of _ nm]) (auto simp: entry_ok_def)
  qed
qed

lemma acl_valid_loop_userI:
  assumes "ids_from lo us" and "\<forall>e \<in> set us. entry_ok ACL_USER e" and "entry_ok ACL_GROUP_OBJ go"
    and "acl_valid_loop ACL_GROUP 0 (nm \<or> us \<noteq> []) rest = Ok ()"
  shows "acl_valid_loop ACL_USER lo nm (us @ go # rest) = Ok ()"
  using assms
proof (induction us arbitrary: lo nm)
  case Nil
  then show ?case by (auto simp: entry_ok_def perm_ok_def acl_valid_loop.simps(2))
next
  case (Cons u us)
  then show ?case by (auto simp: entry_ok_def perm_ok_def acl_valid_loop.simps(2))
qed

lemma posix_acl_valid_iff: "posix_acl_valid acl = Ok () \<longleftrightarrow> (\<exists>v. view_ok v \<and> a_entries acl = view_entries v)"
proof
  assume v: "posix_acl_valid acl = Ok ()"
  obtain uo es where es: "a_entries acl = uo # es" using v by (cases "a_entries acl") (auto simp: posix_acl_valid_def)
  have uo: "entry_ok ACL_USER_OBJ uo" and "acl_valid_loop ACL_USER 0 False es = Ok ()"
    using v es by (auto simp: posix_acl_valid_def entry_ok_def dest!: acl_valid_ConsD)
  then obtain us go rest nm where us: "es = us @ go # rest" "ids_from 0 us" "\<forall>e \<in> set us. entry_ok ACL_USER e" "entry_ok ACL_GROUP_OBJ go"
    "acl_valid_loop ACL_GROUP 0 nm rest = Ok ()" "us \<noteq> [] \<longrightarrow> nm" using acl_valid_loop_userD by blast
  obtain gs mo ot where gs: "rest = gs @ opt_list mo @ [ot]" "ids_from 0 gs" "\<forall>e \<in> set gs. entry_ok ACL_GROUP e"
     "\<forall>m. mo = Some m \<longrightarrow> entry_ok ACL_MASK m" "entry_ok ACL_OTHER ot" "nm \<or> gs \<noteq> [] \<longrightarrow> mo \<noteq> None"
    using acl_valid_loop_groupD[OF us(5)] by blast
  let ?v = "\<lparr>v_user_obj = uo, v_users = us, v_group_obj = go, v_groups = gs, v_mask = mo, v_other = ot\<rparr>"
  have "view_ok ?v" using uo us(2-4,6) gs(2-) by (auto simp: view_ok_def ids_from_0)
  moreover have "a_entries acl = view_entries ?v" using es us(1) gs(1) by (simp add: view_entries_def)
  ultimately show "\<exists>v. view_ok v \<and> a_entries acl = view_entries v" by blast
next
  assume "\<exists>v. view_ok v \<and> a_entries acl = view_entries v"
  then obtain v where v: "view_ok v" "a_entries acl = view_entries v" by blast
  have "acl_valid_loop ACL_GROUP 0 (False \<or> v_users v \<noteq> []) (v_groups v @ opt_list (v_mask v) @ [v_other v]) = Ok ()"
    using v(1) by (intro acl_valid_loop_groupI) (auto simp: view_ok_def ids_from_0)
  then have "acl_valid_loop ACL_USER 0 False (v_users v @ v_group_obj v # v_groups v @ opt_list (v_mask v) @ [v_other v]) = Ok ()"
    using v(1) by (intro acl_valid_loop_userI) (auto simp: view_ok_def ids_from_0)
  moreover have "e_perm (v_user_obj v) AND NOT 7 = 0" "e_tag (v_user_obj v) = ACL_USER_OBJ"
    using v(1) by (simp_all add: view_ok_def entry_ok_def perm_ok_def)
  ultimately show "posix_acl_valid acl = Ok ()" using v(2) by (simp add: posix_acl_valid_def view_entries_def acl_valid_loop.simps(2))
qed

section \<open>The access decision\<close>

text \<open>
  The algorithm of the standard. The owner has the rights of the first entry; a named user the rights of that
  entry limited by the mask; a member of the owning or a named group access if one of these entries, limited
  by the mask, grants it; everybody else the rights of the last entry.
\<close>

definition is_member :: "cred_state \<Rightarrow> u32 \<Rightarrow> bool" where
  "is_member cred g \<longleftrightarrow> in_group_p g cred = Some True"

definition masked :: "acl_view \<Rightarrow> u16 \<Rightarrow> u16" where
  "masked v p = (case v_mask v of None \<Rightarrow> p | Some m \<Rightarrow> p AND e_perm m)"

definition group_perms :: "inode_owner \<Rightarrow> cred_state \<Rightarrow> acl_view \<Rightarrow> u16 set" where
  "group_perms inode cred v =
     (if is_member cred (i_gid inode) then {e_perm (v_group_obj v)} else {}) \<union>
     e_perm ` {e \<in> set (v_groups v). is_member cred (e_id e)}"

definition acl_grants :: "inode_owner \<Rightarrow> u32 \<Rightarrow> cred_state \<Rightarrow> acl_view \<Rightarrow> u32 \<Rightarrow> bool" where
  "acl_grants inode fsuid cred v want \<longleftrightarrow>
     (if i_uid inode = fsuid then has_perm (e_perm (v_user_obj v)) want
      else if \<exists>u \<in> set (v_users v). e_id u = fsuid then
        \<exists>u \<in> set (v_users v). e_id u = fsuid \<and> has_perm (masked v (e_perm u)) want
      else if group_perms inode cred v \<noteq> {} then
        \<exists>p \<in> group_perms inode cred v. has_perm (masked v p) want
      else has_perm (e_perm (v_other v)) want)"

lemma has_perm_bits: "has_perm p want \<longleftrightarrow> (\<forall>n. bit want n \<longrightarrow> bit p n)"
  proof -
  have "n < LENGTH(32)" if "bit want n" for n using that by (rule bit_imp_le_length)
  then show ?thesis unfolding has_perm_def bit_eq_iff by (auto simp: bit_simps)
qed

lemma has_perm_and [simp]: "has_perm (a AND b) want \<longleftrightarrow> has_perm a want \<and> has_perm b want"
  by (auto simp: has_perm_bits bit_simps)

lemma is_member_cases: "cred_ok cred \<Longrightarrow> in_group_p g cred = Some (is_member cred g)"
proof -
  assume "cred_ok cred"
  then obtain gi where gi: "gheap cred (cur_groups cred) = Some gi" "gi_ok gi" by (auto simp: cred_ok_def)
  then have h: "holds (gi\<lparr>blocks := []\<rparr>) gi (group_ids gi)" by (simp add: holds_def)
  obtain b where "groups_bsearch gi g 0 (ngroups gi) = Some b"
    using groups_bsearch_sound[OF h, of "ngroups gi" g 0] holds_length[OF h] by auto
  then obtain b where "in_group_p g cred = Some b" using gi(1) by (cases "g = fsgid cred") (auto simp: in_group_p_def groups_search_def)
  then show ?thesis by (simp add: is_member_def)
qed

definition decide :: "bool \<Rightarrow> unit kresult" where
  "decide b = (if b then Ok () else Err EACCES)"

lemma check_perm_decide: "check_perm pa want = decide (has_perm (e_perm pa) want)"
  by (simp add: check_perm_def decide_def)

lemma acl_mask_tail:
  assumes "\<forall>e \<in> set es. e_tag e \<noteq> ACL_MASK" and "\<forall>m. mo = Some m \<longrightarrow> e_tag m = ACL_MASK" and "e_tag ot \<noteq> ACL_MASK"
  shows "acl_mask pa (es @ opt_list mo @ [ot]) want =
    decide (has_perm (e_perm pa) want \<and> (\<forall>m. mo = Some m \<longrightarrow> has_perm (e_perm m) want))"
  using assms by (induction es) (cases mo; simp add: check_perm_decide decide_def)+

lemma permission_groups:
  assumes "cred_ok cred" and "\<forall>e \<in> set gs. e_tag e = ACL_GROUP" and "\<forall>m. mo = Some m \<longrightarrow> e_tag m = ACL_MASK" and "e_tag ot = ACL_OTHER"
  shows "acl_permission_loop inode fsuid cred want found (gs @ opt_list mo @ [ot]) =
    decide (if found \<or> (\<exists>g \<in> set gs. is_member cred (e_id g))
      then (\<exists>g \<in> set gs. is_member cred (e_id g) \<and> has_perm (e_perm g) want) \<and> (\<forall>m. mo = Some m \<longrightarrow> has_perm (e_perm m) want)
      else has_perm (e_perm ot) want)"
  using assms(2-)
proof (induction gs arbitrary: found)
  case Nil
  then show ?case by (cases mo) (simp_all add: check_perm_decide decide_def)
next
  case (Cons g gs)
  have mask: "acl_mask g (gs @ opt_list mo @ [ot]) want =
      decide (has_perm (e_perm g) want \<and> (\<forall>m. mo = Some m \<longrightarrow> has_perm (e_perm m) want))"
    using Cons.prems by (intro acl_mask_tail) auto
  have ih: "acl_permission_loop inode fsuid cred want f (gs @ opt_list mo @ [ot]) =
    decide (if f \<or> (\<exists>g \<in> set gs. is_member cred (e_id g))
      then (\<exists>g \<in> set gs. is_member cred (e_id g) \<and> has_perm (e_perm g) want) \<and> (\<forall>m. mo = Some m \<longrightarrow> has_perm (e_perm m) want)
      else has_perm (e_perm ot) want)" for f
    using Cons.IH Cons.prems by simp
  have tag: "e_tag g = ACL_GROUP" using Cons.prems(1) by simp
  show ?case
  proof (cases "is_member cred (e_id g)")
    case True
    then show ?thesis
      by (cases "has_perm (e_perm g) want") (simp_all add: tag is_member_cases[OF assms(1)] mask ih)
  next
    case False
    then show ?thesis by (simp add: tag is_member_cases[OF assms(1)] ih)
  qed
qed

lemma permission_users:
  assumes "\<forall>e \<in> set us. e_tag e = ACL_USER" and "\<And>u us'. u \<in> set us \<Longrightarrow> set us' \<subseteq> set us \<Longrightarrow>
      acl_mask u (us' @ rest) want = decide (P u)"
    and "sorted_wrt (\<lambda>a b. e_id a < e_id b) us"
  shows "acl_permission_loop inode fsuid cred want found (us @ rest) =
    (if \<exists>u \<in> set us. e_id u = fsuid then decide (\<exists>u \<in> set us. e_id u = fsuid \<and> P u)
     else acl_permission_loop inode fsuid cred want found rest)"
  using assms
proof (induction us)
  case (Cons u us)
  have tag: "e_tag u = ACL_USER" using Cons.prems(1) by simp
  show ?case
  proof (cases "e_id u = fsuid")
    case True
    then have "\<not> (\<exists>w \<in> set us. e_id w = fsuid)" using Cons.prems(3) by auto
    moreover have "acl_mask u (us @ rest) want = decide (P u)" using Cons.prems(2)[of u us] by auto
    ultimately show ?thesis using True tag by auto
  next
    case False
    have "acl_permission_loop inode fsuid cred want found (us @ rest) =
      (if \<exists>u \<in> set us. e_id u = fsuid then decide (\<exists>u \<in> set us. e_id u = fsuid \<and> P u)
       else acl_permission_loop inode fsuid cred want found rest)"
    proof (rule Cons.IH)
      fix w us' assume "w \<in> set us" "set us' \<subseteq> set us"
      then show "acl_mask w (us' @ rest) want = decide (P w)" by (intro Cons.prems(2)) auto
    qed (use Cons.prems in auto)
    then show ?thesis using False tag by simp
  qed
qed simp

lemma masked_iff: "has_perm (masked v p) want \<longleftrightarrow> has_perm p want \<and> (\<forall>m. v_mask v = Some m \<longrightarrow> has_perm (e_perm m) want)"
  by (auto simp: masked_def split: option.splits)

lemma view_tags:
  assumes "view_ok v"
  shows "e_tag (v_user_obj v) = ACL_USER_OBJ" "\<forall>e \<in> set (v_users v). e_tag e = ACL_USER" "e_tag (v_group_obj v) = ACL_GROUP_OBJ"
    "\<forall>e \<in> set (v_groups v). e_tag e = ACL_GROUP" "\<forall>m. v_mask v = Some m \<longrightarrow> e_tag m = ACL_MASK" "e_tag (v_other v) = ACL_OTHER"
  using assms by (auto simp: view_ok_def entry_ok_def)

lemma permission_view:
  assumes v: "view_ok v" and c: "cred_ok cred"
  shows "acl_permission_loop inode fsuid cred want False (view_entries v) = decide (acl_grants inode fsuid cred v want)"
proof -
  note tags = view_tags[OF v]
  let ?gs = "v_groups v @ opt_list (v_mask v) @ [v_other v]" and ?go = "v_group_obj v"
  have mask: "acl_mask u (es @ opt_list (v_mask v) @ [v_other v]) want = decide (has_perm (masked v (e_perm u)) want)"
    if "\<forall>e \<in> set es. e_tag e \<noteq> ACL_MASK" for u es
    using that tags unfolding masked_iff by (intro acl_mask_tail) auto
  have users: "acl_permission_loop inode fsuid cred want False (v_users v @ ?go # ?gs) =
    (if \<exists>u \<in> set (v_users v). e_id u = fsuid then decide (\<exists>u \<in> set (v_users v). e_id u = fsuid \<and> has_perm (masked v (e_perm u)) want)
     else acl_permission_loop inode fsuid cred want False (?go # ?gs))"
  proof (rule permission_users)
    fix u us' assume "set us' \<subseteq> set (v_users v)"
    then have "\<forall>e \<in> set us'. e_tag e = ACL_USER" using tags(2) by blast
    then have "\<forall>e \<in> set (us' @ ?go # v_groups v). e_tag e \<noteq> ACL_MASK" using tags(3,4) by auto
    from mask[OF this, of u] show "acl_mask u (us' @ ?go # ?gs) want = decide (has_perm (masked v (e_perm u)) want)" by simp
  qed (use v tags in \<open>auto simp: view_ok_def ids_ok_def\<close>)
  note groups = permission_groups[OF c tags(4,5,6), of inode fsuid want]
  have "acl_permission_loop inode fsuid cred want False (?go # ?gs) =
    decide (if group_perms inode cred v \<noteq> {} then \<exists>p \<in> group_perms inode cred v. has_perm (masked v p) want
      else has_perm (e_perm (v_other v)) want)"
  proof (cases "is_member cred (i_gid inode)")
    case True
    have m: "acl_mask ?go ?gs want = decide (has_perm (masked v (e_perm ?go)) want)"
      using tags by (intro mask) auto
    show ?thesis
    proof (cases "has_perm (e_perm ?go) want")
      case True
      then show ?thesis using \<open>is_member cred (i_gid inode)\<close> tags m is_member_cases[OF c]
        by (auto simp: group_perms_def masked_iff)
    next
      case False
      then show ?thesis using \<open>is_member cred (i_gid inode)\<close> tags is_member_cases[OF c]
        by (auto simp: groups group_perms_def masked_iff intro!: arg_cong[of _ _ decide])
    qed
  next
    case False
    then show ?thesis using tags is_member_cases[OF c] by (auto simp: groups group_perms_def masked_iff intro!: arg_cong[of _ _ decide])
  qed
  then show ?thesis using users tags(1) by (simp add: view_entries_def acl_grants_def check_perm_decide)
qed

section \<open>Mode bits\<close>

lemma mode_bits_mask: "S_IRWXU = push_bit 6 (mask 3)" "S_IRWXG = push_bit 3 (mask 3)" "S_IRWXO = mask 3"
  by (simp_all add: mode_bits mask_eq_exp_minus_1)

lemma bit_mode_bits:
  "bit S_IRWXU n \<longleftrightarrow> 6 \<le> n \<and> n < 9" "bit S_IRWXG n \<longleftrightarrow> 3 \<le> n \<and> n < 6" "bit S_IRWXO n \<longleftrightarrow> n < 3"
  "bit S_IRWXUGO n \<longleftrightarrow> n < 9"
  unfolding S_IRWXUGO_def mode_bits_mask by (auto simp: bit_simps)

lemma perm_ok_bit: "perm_ok e \<longleftrightarrow> (\<forall>n. bit (e_perm e) n \<longrightarrow> n < 3)"
proof -
  have "(7 :: u16) = mask 3" by (simp add: mask_eq_exp_minus_1)
  moreover have "n < LENGTH(16)" if "bit (e_perm e) n" for n using that by (rule bit_imp_le_length)
  ultimately show ?thesis unfolding perm_ok_def bit_eq_iff by (auto simp: bit_simps)
qed

text \<open>The entry the group bits of the mode stand for, and the mode of an ACL.\<close>

definition v_class :: "acl_view \<Rightarrow> posix_acl_entry" where
  "v_class v = (case v_mask v of None \<Rightarrow> v_group_obj v | Some m \<Rightarrow> m)"

definition view_mode :: "acl_view \<Rightarrow> mode_t" where
  "view_mode v = push_bit 6 (e_perm (v_user_obj v)) OR push_bit 3 (e_perm (v_class v)) OR e_perm (v_other v)"

definition set_perms :: "u16 \<Rightarrow> u16 \<Rightarrow> u16 \<Rightarrow> acl_view \<Rightarrow> acl_view" where
  "set_perms u g ot v =
     v\<lparr>v_user_obj := (v_user_obj v)\<lparr>e_perm := u\<rparr>, v_other := (v_other v)\<lparr>e_perm := ot\<rparr>,
       v_group_obj := (if v_mask v = None then (v_group_obj v)\<lparr>e_perm := g\<rparr> else v_group_obj v),
       v_mask := map_option (\<lambda>m. m\<lparr>e_perm := g\<rparr>) (v_mask v)\<rparr>"

lemma set_perms_class [simp]:
  "e_perm (v_class (set_perms u g ot v)) = g" "e_perm (v_user_obj (set_perms u g ot v)) = u"
  "e_perm (v_other (set_perms u g ot v)) = ot"
  by (simp_all add: v_class_def set_perms_def split: option.splits)

lemma view_ok_perms:
  assumes "view_ok v"
  shows "perm_ok (v_user_obj v)" "perm_ok (v_class v)" "perm_ok (v_other v)"
  using assms by (auto simp: view_ok_def entry_ok_def v_class_def split: option.splits)

lemma set_perms_ok:
  assumes "view_ok v" and "\<forall>n. bit u n \<or> bit g n \<or> bit ot n \<longrightarrow> n < 3"
  shows "view_ok (set_perms u g ot v)"
  using assms by (auto simp: view_ok_def set_perms_def entry_ok_def perm_ok_bit)

lemma equiv_mode_named:
  "\<forall>e \<in> set es. e_tag e = ACL_USER \<or> e_tag e = ACL_GROUP \<Longrightarrow>
   equiv_mode_loop mode ne (es @ rest) = equiv_mode_loop mode (ne \<or> es \<noteq> []) rest"
  by (induction es arbitrary: ne) auto

lemma equiv_mode_view:
  assumes "view_ok v"
  shows "equiv_mode_loop 0 False (view_entries v) = Ok (v_mask v \<noteq> None, view_mode v)"
proof -
  note tags = view_tags[OF assms] and p = view_ok_perms[OF assms]
  have low: "e_perm e AND S_IRWXO = e_perm e" if "perm_ok e" for e
    using that by (auto simp: bit_eq_iff bit_simps bit_mode_bits perm_ok_bit)
  have u: "equiv_mode_loop m ne (v_users v @ rest) = equiv_mode_loop m (ne \<or> v_users v \<noteq> []) rest"
    "equiv_mode_loop m ne (v_groups v @ rest) = equiv_mode_loop m (ne \<or> v_groups v \<noteq> []) rest" for m ne rest
    using tags(2,4) by (intro equiv_mode_named; auto)+
  show ?thesis
  proof (cases "v_mask v")
    case None
    then have "v_users v = []" "v_groups v = []" using assms by (auto simp: view_ok_def)
    then show ?thesis using None tags p low by (simp add: view_entries_def view_mode_def v_class_def or.assoc)
  next
    case (Some m)
    then have "e_tag m = ACL_MASK" "perm_ok m" "perm_ok (v_group_obj v)" using assms tags by (auto simp: view_ok_def entry_ok_def)
    moreover have "((push_bit 6 (e_perm (v_user_obj v)) OR push_bit 3 (e_perm (v_group_obj v))) AND NOT S_IRWXG) =
        push_bit 6 (e_perm (v_user_obj v))"
      using p(1) \<open>perm_ok (v_group_obj v)\<close> by (auto simp: bit_eq_iff bit_simps bit_mode_bits perm_ok_bit)
    ultimately show ?thesis using Some tags p low u by (simp add: view_entries_def view_mode_def v_class_def or.assoc)
  qed
qed

text \<open>The two loops that rewrite an ACL, on a view.\<close>

lemma create_masq_named:
  "\<forall>e \<in> set es. e_tag e = ACL_USER \<or> e_tag e = ACL_GROUP \<Longrightarrow>
   create_masq_loop i st (es @ rest) =
     (let (rest', r) = create_masq_loop (i + length es) (st\<lparr>masq_not_equiv := masq_not_equiv st \<or> es \<noteq> []\<rparr>) rest in (es @ rest', r))"
  by (induction es arbitrary: i st) (auto simp: Let_def split: prod.splits)

lemma chmod_masq_named:
  "\<forall>e \<in> set es. e_tag e = ACL_USER \<or> e_tag e = ACL_GROUP \<Longrightarrow>
   chmod_masq_loop mode i g m (es @ rest) =
     (let (rest', r) = chmod_masq_loop mode (i + length es) g m rest in (es @ rest', r))"
  by (induction es arbitrary: i) (auto simp: Let_def split: prod.splits)

lemma nth_view: "(us @ go # gs @ ms) ! length us = go" "(us @ go # gs @ m # ms) ! Suc (length us + length gs) = m"
  by (simp_all add: nth_append)

lemma update_view:
  "(us @ go # gs @ ms)[length us := x] = us @ x # gs @ ms"
  "(us @ go # gs @ m # ms)[Suc (length us + length gs) := x] = us @ go # gs @ x # ms"
  by (simp_all add: list_update_append)

lemma chmod_masq_view:
  assumes "view_ok v" and "a_entries acl = view_entries v"
  shows "posix_acl_chmod_masq acl mode =
    (acl\<lparr>a_entries := view_entries (set_perms (drop_bit 6 (mode AND S_IRWXU)) (drop_bit 3 (mode AND S_IRWXG)) (mode AND S_IRWXO) v)\<rparr>, Ok ())"
proof -
  note tags = view_tags[OF assms(1)]
  have u: "chmod_masq_loop mode i g m (v_users v @ rest) =
      (let (rest', r) = chmod_masq_loop mode (i + length (v_users v)) g m rest in (v_users v @ rest', r))"
    "chmod_masq_loop mode i g m (v_groups v @ rest) =
      (let (rest', r) = chmod_masq_loop mode (i + length (v_groups v)) g m rest in (v_groups v @ rest', r))" for i g m rest
    using tags(2,4) by (intro chmod_masq_named; auto)+
  show ?thesis
  proof (cases "v_mask v")
    case None
    then show ?thesis using tags assms(2) u
      by (simp add: posix_acl_chmod_masq_def view_entries_def set_perms_def Let_def nth_view update_view)
  next
    case (Some m)
    then have "e_tag m = ACL_MASK" using tags(5) by simp
    then show ?thesis using Some tags assms(2) u
      by (simp add: posix_acl_chmod_masq_def view_entries_def set_perms_def Let_def nth_view update_view)
  qed
qed

text \<open>What \<^verbatim>\<open>posix_acl_create_masq\<close> leaves: every class keeps what both the ACL and the mode grant.\<close>

lemma create_masq_view:
  fixes mode :: mode_t
  assumes "view_ok v" and "a_entries acl = view_entries v"
  defines "u \<equiv> e_perm (v_user_obj v) AND drop_bit 6 mode" and "g \<equiv> e_perm (v_class v) AND drop_bit 3 mode"
    and "ot \<equiv> e_perm (v_other v) AND mode"
  shows "posix_acl_create_masq acl mode =
    (acl\<lparr>a_entries := view_entries (set_perms u g ot v)\<rparr>,
     Ok (v_mask v \<noteq> None, (mode AND NOT S_IRWXUGO) OR view_mode (set_perms u g ot v)))"
proof -
  note tags = view_tags[OF assms(1)] and p = view_ok_perms[OF assms(1)]
  define m1 where "m1 = mode AND (push_bit 6 u OR NOT S_IRWXU)"
  define m2 where "m2 = m1 AND (ot OR NOT S_IRWXO)"
  define m3 where "m3 = m2 AND (push_bit 3 g OR NOT S_IRWXG)"
  note bits = bit_eq_iff bit_simps bit_mode_bits
  have lt: "n < 16" if "bit mode n" for n using bit_imp_le_length[OF that] by simp
  have pu: "e_perm (v_user_obj v) AND (drop_bit 6 mode OR NOT S_IRWXO) = u"
    using p(1) unfolding u_def perm_ok_bit by (auto simp: bits)
  have po: "e_perm (v_other v) AND (m1 OR NOT S_IRWXO) = ot"
    using p(3) unfolding ot_def m1_def perm_ok_bit by (auto simp: bits)
  have pg: "e_perm (v_class v) AND (drop_bit 3 m2 OR NOT S_IRWXO) = g"
    using p(2) unfolding g_def m2_def m1_def perm_ok_bit by (auto simp: bits)
  have pm: "(mode AND NOT S_IRWXUGO) OR m3 = (mode AND NOT S_IRWXUGO) OR view_mode (set_perms u g ot v)"
    using p lt unfolding view_mode_def set_perms_class u_def g_def ot_def m3_def m2_def m1_def perm_ok_bit
    by (auto simp: bits)
  have n: "create_masq_loop i st (v_users v @ rest) =
     (let (rest', r) = create_masq_loop (i + length (v_users v)) (st\<lparr>masq_not_equiv := masq_not_equiv st \<or> v_users v \<noteq> []\<rparr>) rest
      in (v_users v @ rest', r))"
    "create_masq_loop i st (v_groups v @ rest) =
     (let (rest', r) = create_masq_loop (i + length (v_groups v)) (st\<lparr>masq_not_equiv := masq_not_equiv st \<or> v_groups v \<noteq> []\<rparr>) rest
      in (v_groups v @ rest', r))" for i st rest
    using tags(2,4) by (intro create_masq_named; auto)+
  show ?thesis
  proof (cases "v_mask v")
    case None
    then have "v_users v = []" "v_groups v = []" using assms by (auto simp: view_ok_def)
    then show ?thesis using None tags assms(2) pu po pg pm
      by (simp add: posix_acl_create_masq_def create_masq_group_def view_entries_def set_perms_def Let_def v_class_def
          m1_def[symmetric] m2_def[symmetric] m3_def[symmetric] del: push_bit_and push_bit_or drop_bit_and drop_bit_or)
  next
    case (Some m)
    then have "e_tag m = ACL_MASK" using tags(5) by simp
    then show ?thesis using Some tags assms(2) pu po pg pm
      by (simp add: posix_acl_create_masq_def create_masq_group_def view_entries_def set_perms_def Let_def v_class_def
          m1_def[symmetric] m2_def[symmetric] m3_def[symmetric] n nth_view update_view
          del: push_bit_and push_bit_or drop_bit_and drop_bit_or)
  qed
qed

lemma view_mode_parts:
  assumes "e_perm (v_user_obj v) = drop_bit 6 (mode AND S_IRWXU)" and "e_perm (v_class v) = drop_bit 3 (mode AND S_IRWXG)"
    and "e_perm (v_other v) = mode AND S_IRWXO"
  shows "view_mode v = mode AND S_IRWXUGO"
proof (rule bit_word_eqI)
  fix n assume "n < LENGTH(16)"
  consider "n < 3" | "3 \<le> n" "n < 6" | "6 \<le> n" by linarith
  then show "bit (view_mode v) n = bit (mode AND S_IRWXUGO) n"
    unfolding view_mode_def assms by cases (auto simp: bit_simps bit_mode_bits)
qed

definition mode_view :: "mode_t \<Rightarrow> acl_view" where
  "mode_view mode =
     \<lparr>v_user_obj = \<lparr>e_tag = ACL_USER_OBJ, e_perm = drop_bit 6 (mode AND S_IRWXU), e_id = ACL_UNDEFINED_ID\<rparr>, v_users = [],
      v_group_obj = \<lparr>e_tag = ACL_GROUP_OBJ, e_perm = drop_bit 3 (mode AND S_IRWXG), e_id = ACL_UNDEFINED_ID\<rparr>, v_groups = [],
      v_mask = None, v_other = \<lparr>e_tag = ACL_OTHER, e_perm = mode AND S_IRWXO, e_id = ACL_UNDEFINED_ID\<rparr>\<rparr>"

lemma mode_view_ok: "view_ok (mode_view mode)"
  by (auto simp: view_ok_def mode_view_def entry_ok_def ids_ok_def perm_ok_bit bit_simps bit_mode_bits)

section \<open>Extended attributes\<close>

lemma le16_cpu_le16 [simp]: "le16_to_cpu (cpu_to_le16 w) = w"
proof (rule bit_word_eqI)
  fix n assume "n < LENGTH(16)"
  then show "bit (le16_to_cpu (cpu_to_le16 w)) n = bit w n"
    by (auto simp: cpu_to_le16_def bit_simps)
qed

lemma length_cpu_to_le16 [simp]: "length (cpu_to_le16 w) = 2"
  by (simp add: cpu_to_le16_def)

lemma length_entry_bytes [simp]: "length (entry_bytes e) = 8"
  by (simp add: entry_bytes_def)

lemma length_entries: "length (concat (map entry_bytes es)) = length es * 8"
  by (induction es) auto

lemma entry_bytes_fields [simp]:
  "take 2 (entry_bytes e @ bs) = cpu_to_le16 (e_tag e)" "take 2 (drop 2 (entry_bytes e @ bs)) = cpu_to_le16 (e_perm e)"
  "take 4 (drop 4 (entry_bytes e @ bs)) = cpu_to_le32 (e_id e)" "drop 8 (entry_bytes e @ bs) = bs"
  by (simp_all add: entry_bytes_def)

text \<open>Reading an attribute gives the unnamed entries the undefined id.\<close>

definition canonical :: "posix_acl_entry \<Rightarrow> posix_acl_entry" where
  "canonical e = (if e_tag e = ACL_USER \<or> e_tag e = ACL_GROUP then e else e\<lparr>e_id := ACL_UNDEFINED_ID\<rparr>)"

lemma from_xattr_step:
  assumes "e_tag e \<in> {ACL_USER_OBJ, ACL_USER, ACL_GROUP_OBJ, ACL_GROUP, ACL_MASK, ACL_OTHER}"
  shows "from_xattr_loop (Suc n) (entry_bytes e @ bs) = map_option ((#) (canonical e)) (from_xattr_loop n bs)"
proof -
  have e: "\<lparr>e_tag = e_tag e, e_perm = e_perm e, e_id = i\<rparr> = e\<lparr>e_id := i\<rparr>" for i by (cases e) simp
  have f: "e\<lparr>e_id := e_id e\<rparr> = e" by (cases e) simp
  consider "e_tag e \<in> {ACL_USER_OBJ, ACL_GROUP_OBJ, ACL_MASK, ACL_OTHER}" | "e_tag e \<in> {ACL_USER, ACL_GROUP}"
    using assms by blast
  then show ?thesis
  proof cases
    case 1
    then have "canonical e = e\<lparr>e_id := ACL_UNDEFINED_ID\<rparr>" by (auto simp: canonical_def)
    then show ?thesis using 1 unfolding from_xattr_loop.simps entry_bytes_fields le16_cpu_le16 le32_cpu_le32 Let_def e by simp
  next
    case 2
    then have "canonical e = e" by (auto simp: canonical_def)
    then show ?thesis using 2 unfolding from_xattr_loop.simps entry_bytes_fields le16_cpu_le16 le32_cpu_le32 Let_def e f by auto
  qed
qed

lemma from_xattr_entries:
  "\<forall>e \<in> set es. e_tag e \<in> {ACL_USER_OBJ, ACL_USER, ACL_GROUP_OBJ, ACL_GROUP, ACL_MASK, ACL_OTHER} \<Longrightarrow>
   from_xattr_loop (length es) (concat (map entry_bytes es) @ bs) = Some (map canonical es)"
proof (induction es)
  case (Cons e es)
  then show ?case using from_xattr_step[of e "length es" "concat (map entry_bytes es) @ bs"]
    by (simp del: from_xattr_loop.simps)
qed simp

lemma view_entry_tags:
  "view_ok v \<Longrightarrow> \<forall>e \<in> set (view_entries v). e_tag e \<in> {ACL_USER_OBJ, ACL_USER, ACL_GROUP_OBJ, ACL_GROUP, ACL_MASK, ACL_OTHER}"
  using view_tags[of v] by (auto simp: view_entries_def opt_list_def split: option.splits)

lemma canonical_view:
  assumes "view_ok v"
  shows "\<exists>v'. view_ok v' \<and> map canonical (view_entries v) = view_entries v'"
proof -
  let ?v = "v\<lparr>v_user_obj := canonical (v_user_obj v), v_group_obj := canonical (v_group_obj v),
    v_mask := map_option canonical (v_mask v), v_other := canonical (v_other v)\<rparr>"
  have "map canonical (v_users v) = v_users v" "map canonical (v_groups v) = v_groups v"
    using view_tags(2,4)[OF assms] by (auto simp: canonical_def intro: map_idI)
  then have "map canonical (view_entries v) = view_entries ?v"
    by (cases "v_mask v") (simp_all add: view_entries_def)
  moreover have "view_ok ?v" using assms by (auto simp: view_ok_def canonical_def entry_ok_def perm_ok_def)
  ultimately show ?thesis by blast
qed

section \<open>Properties\<close>

text \<open>
  C28. \<^verbatim>\<open>posix_acl_valid\<close> accepts exactly the entry lists of the standard: owner, named users with ascending ids,
  owning group, named groups with ascending ids, a mask if there are named entries, others; permissions
  within \<open>rwx\<close>.
\<close>

theorem posix_acl_valid_correct:
  "posix_acl_valid acl = Ok () \<longleftrightarrow> (\<exists>v. view_ok v \<and> a_entries acl = view_entries v)"
  by (rule posix_acl_valid_iff)


definition acl_example :: acl_view where
  "acl_example =
     \<lparr>v_user_obj = \<lparr>e_tag = ACL_USER_OBJ, e_perm = 6, e_id = ACL_UNDEFINED_ID\<rparr>,
      v_users = [\<lparr>e_tag = ACL_USER, e_perm = 7, e_id = 100\<rparr>],
      v_group_obj = \<lparr>e_tag = ACL_GROUP_OBJ, e_perm = 4, e_id = ACL_UNDEFINED_ID\<rparr>, v_groups = [],
      v_mask = Some \<lparr>e_tag = ACL_MASK, e_perm = 5, e_id = ACL_UNDEFINED_ID\<rparr>,
      v_other = \<lparr>e_tag = ACL_OTHER, e_perm = 0, e_id = ACL_UNDEFINED_ID\<rparr>\<rparr>"

lemma acl_example_ok: "view_ok acl_example"
  by (simp add: acl_example_def view_ok_def entry_ok_def perm_ok_def ids_ok_def ACL_UNDEFINED_ID_def)


text \<open>
  C30. \<^verbatim>\<open>posix_acl_create_masq\<close>, which applies the mode of \<^verbatim>\<open>open\<close> or \<^verbatim>\<open>mkdir\<close> to an inherited ACL: it succeeds on a
  valid ACL, the ACL stays valid, no permission is added to the mode, the resulting mode is the one the new
  ACL stands for, and nobody is granted anything the old ACL refused.
\<close>

theorem posix_acl_create_masq_correct:
  assumes "posix_acl_valid acl = Ok ()" and "cred_ok cred"
  shows "\<exists>acl' ne mode'. posix_acl_create_masq acl mode = (acl', Ok (ne, mode')) \<and> posix_acl_valid acl' = Ok () \<and>
    mode' AND NOT mode = 0 \<and> posix_acl_equiv_mode acl' (Some mode) = Ok (ne, Some mode') \<and>
    (posix_acl_permission inode fsuid cred acl want = Err EACCES \<longrightarrow>
     posix_acl_permission inode fsuid cred acl' want = Err EACCES)"
proof -
  obtain v where v: "view_ok v" "a_entries acl = view_entries v" using assms(1) by (auto simp: posix_acl_valid_iff)
  define u where "u = e_perm (v_user_obj v) AND drop_bit 6 mode"
  define g where "g = e_perm (v_class v) AND drop_bit 3 mode"
  define ot where "ot = e_perm (v_other v) AND mode"
  let ?v = "set_perms u g ot v" and ?m = "(mode AND NOT S_IRWXUGO) OR view_mode (set_perms u g ot v)"
  let ?acl = "acl\<lparr>a_entries := view_entries ?v\<rparr>"
  note p = view_ok_perms[OF v(1)]
  have ok: "view_ok ?v" using p by (intro set_perms_ok[OF v(1)]) (auto simp: u_def g_def ot_def bit_simps perm_ok_bit)
  have "posix_acl_create_masq acl mode = (?acl, Ok (v_mask v \<noteq> None, ?m))"
    using create_masq_view[OF v] by (simp add: u_def g_def ot_def)
  moreover have "posix_acl_valid ?acl = Ok ()" using ok by (auto simp: posix_acl_valid_iff)
  moreover have "?m AND NOT mode = 0"
    by (auto simp: bit_eq_iff bit_simps view_mode_def u_def g_def ot_def)
  moreover have "posix_acl_equiv_mode ?acl (Some mode) = Ok (v_mask v \<noteq> None, Some ?m)"
    using equiv_mode_view[OF ok] by (simp add: posix_acl_equiv_mode_def) (simp add: set_perms_def)
  moreover have "acl_grants inode fsuid cred v want" if "acl_grants inode fsuid cred ?v want"
    using that by (cases "v_mask v") (auto simp: acl_grants_def set_perms_def masked_def group_perms_def v_class_def u_def g_def ot_def
        split: if_splits)
  ultimately show ?thesis
    using permission_view[OF v(1) assms(2), of inode fsuid want] permission_view[OF ok assms(2), of inode fsuid want] v(2)
    by (auto simp: posix_acl_permission_def decide_def)
qed

theorem posix_acl_create_masq_correct_witness:
  "\<exists>acl' ne mode'. posix_acl_create_masq \<lparr>a_refcount = 1, a_entries = view_entries acl_example\<rparr> 0x1a4 = (acl', Ok (ne, mode')) \<and>
    posix_acl_valid acl' = Ok () \<and> mode' AND NOT 0x1a4 = 0"
proof -
  have "posix_acl_valid \<lparr>a_refcount = 1, a_entries = view_entries acl_example\<rparr> = Ok ()"
    using acl_example_ok by (auto simp: posix_acl_valid_iff)
  from posix_acl_create_masq_correct[OF this cred_example_ok(1), of "0x1a4"] show ?thesis by blast
qed

text \<open>
  C31. ACLs and permission bits agree. The ACL \<^verbatim>\<open>posix_acl_from_mode\<close> makes is valid and stands for exactly the
  bits it was made from; after \<^verbatim>\<open>posix_acl_chmod_masq\<close> a valid ACL is still valid and stands for exactly the bits
  asked for.
\<close>

theorem acl_mode_correct:
  assumes "posix_acl_valid acl = Ok ()" and "length mem = 3"
  shows "(\<exists>acl'. posix_acl_from_mode mode (Some mem) = Ok acl' \<and> posix_acl_valid acl' = Ok () \<and>
      posix_acl_equiv_mode acl' (Some m0) = Ok (False, Some ((m0 AND NOT S_IRWXUGO) OR (mode AND S_IRWXUGO)))) \<and>
    (\<exists>acl' ne. posix_acl_chmod_masq acl mode = (acl', Ok ()) \<and> posix_acl_valid acl' = Ok () \<and>
      posix_acl_equiv_mode acl' (Some m0) = Ok (ne, Some ((m0 AND NOT S_IRWXUGO) OR (mode AND S_IRWXUGO))))"
proof
  let ?v = "mode_view mode"
  obtain a b c where "mem = [a, b, c]" using assms(2) by (auto simp: numeral_3_eq_3 length_Suc_conv)
  then have "posix_acl_from_mode mode (Some mem) = Ok \<lparr>a_refcount = 1, a_entries = view_entries ?v\<rparr>"
    by (simp add: posix_acl_from_mode_def posix_acl_alloc_def view_entries_def mode_view_def numeral_2_eq_2)
  then show "\<exists>acl'. posix_acl_from_mode mode (Some mem) = Ok acl' \<and> posix_acl_valid acl' = Ok () \<and>
      posix_acl_equiv_mode acl' (Some m0) = Ok (False, Some ((m0 AND NOT S_IRWXUGO) OR (mode AND S_IRWXUGO)))"
    using equiv_mode_view[OF mode_view_ok] mode_view_ok view_mode_parts[of ?v mode]
    by (auto simp: posix_acl_equiv_mode_def posix_acl_valid_iff mode_view_def v_class_def)
next
  obtain v where v: "view_ok v" "a_entries acl = view_entries v" using assms by (auto simp: posix_acl_valid_iff)
  let ?v = "set_perms (drop_bit 6 (mode AND S_IRWXU)) (drop_bit 3 (mode AND S_IRWXG)) (mode AND S_IRWXO) v"
  have ok: "view_ok ?v" by (intro set_perms_ok[OF v(1)]) (auto simp: bit_simps bit_mode_bits)
  have "view_mode ?v = mode AND S_IRWXUGO" by (rule view_mode_parts) simp_all
  then show "\<exists>acl' ne. posix_acl_chmod_masq acl mode = (acl', Ok ()) \<and> posix_acl_valid acl' = Ok () \<and>
      posix_acl_equiv_mode acl' (Some m0) = Ok (ne, Some ((m0 AND NOT S_IRWXUGO) OR (mode AND S_IRWXUGO)))"
    using chmod_masq_view[OF v, of mode] equiv_mode_view[OF ok] ok
    by (auto simp: posix_acl_equiv_mode_def posix_acl_valid_iff)
qed

theorem acl_mode_correct_witness:
  "(\<exists>acl'. posix_acl_from_mode 0x1ed (Some (replicate 3 \<lparr>e_tag = 0, e_perm = 0, e_id = 0\<rparr>)) = Ok acl' \<and> posix_acl_valid acl' = Ok () \<and>
      posix_acl_equiv_mode acl' (Some 0) = Ok (False, Some ((0 AND NOT S_IRWXUGO) OR (0x1ed AND S_IRWXUGO)))) \<and>
    (\<exists>acl' ne. posix_acl_chmod_masq \<lparr>a_refcount = 1, a_entries = view_entries acl_example\<rparr> 0x1ed = (acl', Ok ()) \<and>
      posix_acl_valid acl' = Ok () \<and>
      posix_acl_equiv_mode acl' (Some 0) = Ok (ne, Some ((0 AND NOT S_IRWXUGO) OR (0x1ed AND S_IRWXUGO))))"
proof -
  have "posix_acl_valid \<lparr>a_refcount = 1, a_entries = view_entries acl_example\<rparr> = Ok ()"
    using acl_example_ok by (auto simp: posix_acl_valid_iff)
  from acl_mode_correct[OF this, of "replicate 3 \<lparr>e_tag = 0, e_perm = 0, e_id = 0\<rparr>" "0x1ed" 0] show ?thesis by simp
qed

text \<open>
  C32. Storing a valid ACL as an extended attribute and reading it back gives the same entries, up to the
  unused ids of the unnamed ones, and the result is valid again; no byte behind the attribute changes.
\<close>

theorem acl_xattr_roundtrip:
  assumes "posix_acl_valid acl = Ok ()" and "posix_acl_xattr_size (length (a_entries acl)) \<le> length buf"
  shows "\<exists>n bs acl'. posix_acl_to_xattr acl (Some buf) = Ok (n, Some bs) \<and> length bs = length buf \<and> drop n bs = drop n buf \<and>
    posix_acl_from_xattr True (Some (take n bs)) = Ok (Some acl') \<and>
    a_entries acl' = map canonical (a_entries acl) \<and> posix_acl_valid acl' = Ok ()"
proof -
  obtain v where v: "view_ok v" "a_entries acl = view_entries v" using assms(1) by (auto simp: posix_acl_valid_iff)
  let ?es = "a_entries acl" and ?n = "posix_acl_xattr_size (length (a_entries acl))"
  let ?b = "cpu_to_le32 POSIX_ACL_XATTR_VERSION @ concat (map entry_bytes ?es)"
  have len: "length ?b = ?n" "?n = 4 + length ?es * 8" by (simp_all add: posix_acl_xattr_size_def length_entries)
  have ne: "length ?es \<noteq> 0" using v(2) by (simp add: view_entries_def)
  have "posix_acl_xattr_count (length ?b) = int (length ?es)" unfolding len by (simp add: posix_acl_xattr_count_def)
  then have "posix_acl_from_xattr True (Some ?b) = Ok (Some \<lparr>a_refcount = 1, a_entries = map canonical ?es\<rparr>)"
    using ne len from_xattr_entries[of ?es "[]"] view_entry_tags[OF v(1)] v(2)
    by (simp add: posix_acl_from_xattr_def Let_def)
  moreover have "posix_acl_valid \<lparr>a_refcount = 1, a_entries = map canonical ?es\<rparr> = Ok ()"
    using canonical_view[OF v(1)] v(2) by (auto simp: posix_acl_valid_iff)
  moreover have "posix_acl_to_xattr acl (Some buf) = Ok (?n, Some (?b @ drop ?n buf))"
    using assms(2) by (simp add: posix_acl_to_xattr_def Let_def)
  moreover have "length (?b @ drop ?n buf) = length buf" "take ?n (?b @ drop ?n buf) = ?b" "drop ?n (?b @ drop ?n buf) = drop ?n buf"
    using len(1) assms(2) by simp_all
  ultimately show ?thesis by (metis posix_acl.select_convs(2))
qed

theorem acl_xattr_roundtrip_witness:
  "\<exists>n bs acl'. posix_acl_to_xattr \<lparr>a_refcount = 1, a_entries = view_entries acl_example\<rparr> (Some (replicate 100 9)) = Ok (n, Some bs) \<and>
    posix_acl_from_xattr True (Some (take n bs)) = Ok (Some acl') \<and> a_entries acl' = map canonical (view_entries acl_example)"
proof -
  have "posix_acl_valid \<lparr>a_refcount = 1, a_entries = view_entries acl_example\<rparr> = Ok ()"
    using acl_example_ok by (auto simp: posix_acl_valid_iff)
  from acl_xattr_roundtrip[OF this, of "replicate 100 9"] show ?thesis
    by (auto simp: posix_acl_xattr_size_def acl_example_def view_entries_def)
qed

end
