(* ===== verification/Message_Digest.thy ===== *)
theory Message_Digest
  imports Byte_Order
begin

unbundle bit_operations_syntax

text \<open>
  The message digests of \<^verbatim>\<open>crypto/\<close>: MD4 (\<^verbatim>\<open>md4.c\<close>), MD5 (\<^verbatim>\<open>md5.c\<close>), SHA-1 (\<^verbatim>\<open>sha1_generic.c\<close> with the transform
  of \<^verbatim>\<open>lib/sha1.c\<close>) and SHA-224/256 (\<^verbatim>\<open>sha256_generic.c\<close>): compression functions, buffering of partial blocks, and
  padding. The unrolled rounds are folds over the table of their constants; the code renames its variables
  from round to round where the model rotates a tuple. \<open>None\<close> is a copy outside a buffer. The locale
  \<open>stream_hash\<close> says what an incremental digest promises: however the message is cut into updates, the result
  is the digest of the whole.
\<close>

section \<open>Model\<close>

subsection \<open>Words\<close>

definition rol32 :: "u32 \<Rightarrow> nat \<Rightarrow> u32" where
  "rol32 w s = push_bit s w OR drop_bit (32 - s) w"

definition ror32 :: "u32 \<Rightarrow> nat \<Rightarrow> u32" where
  "ror32 w s = drop_bit s w OR push_bit (32 - s) w"

definition le_words :: "u8 list \<Rightarrow> u32 list" where
  "le_words bs = map (\<lambda>i. le32_to_cpu (take 4 (drop (4 * i) bs))) [0..<length bs div 4]"

definition be_words :: "u8 list \<Rightarrow> u32 list" where
  "be_words bs = map (\<lambda>i. be32_to_cpu (take 4 (drop (4 * i) bs))) [0..<length bs div 4]"

definition cpu_to_be64 :: "u64 \<Rightarrow> u8 list" where
  "cpu_to_be64 w = cpu_to_be32 (ucast (drop_bit 32 w)) @ cpu_to_be32 (ucast w)"

subsection \<open>MD4 and MD5\<close>

record md_ctx =
  md_hash :: "u32 list"
  md_block :: "u8 list"
  byte_count :: u64

text \<open>A round of MD4 on \<open>(a, b, c, d)\<close>, after which the code goes on with \<open>(d, a, b, c)\<close>.\<close>

definition md4_F :: "u32 \<Rightarrow> u32 \<Rightarrow> u32 \<Rightarrow> u32" where "md4_F x y z = (x AND y) OR (NOT x AND z)"
definition md4_G :: "u32 \<Rightarrow> u32 \<Rightarrow> u32 \<Rightarrow> u32" where "md4_G x y z = (x AND y) OR (x AND z) OR (y AND z)"
definition md4_H :: "u32 \<Rightarrow> u32 \<Rightarrow> u32 \<Rightarrow> u32" where "md4_H x y z = x XOR y XOR z"

type_synonym quad = "u32 \<times> u32 \<times> u32 \<times> u32"

definition md4_round :: "(u32 \<Rightarrow> u32 \<Rightarrow> u32 \<Rightarrow> u32) \<Rightarrow> u32 \<Rightarrow> u32 list \<Rightarrow> nat \<times> nat \<Rightarrow> quad \<Rightarrow> quad" where
  "md4_round f konst inp = (\<lambda>(k, s) (a, b, c, d). (d, rol32 (a + f b c d + inp ! k + konst) s, b, c))"

definition md4_table1 :: "(nat \<times> nat) list" where
  "md4_table1 =
     [(0, 3), (1, 7), (2, 11), (3, 19), (4, 3), (5, 7), (6, 11), (7, 19),
      (8, 3), (9, 7), (10, 11), (11, 19), (12, 3), (13, 7), (14, 11), (15, 19)]"

definition md4_table2 :: "(nat \<times> nat) list" where
  "md4_table2 =
     [(0, 3), (4, 5), (8, 9), (12, 13), (1, 3), (5, 5), (9, 9), (13, 13),
      (2, 3), (6, 5), (10, 9), (14, 13), (3, 3), (7, 5), (11, 9), (15, 13)]"

definition md4_table3 :: "(nat \<times> nat) list" where
  "md4_table3 =
     [(0, 3), (8, 9), (4, 11), (12, 15), (2, 3), (10, 9), (6, 11), (14, 15),
      (1, 3), (9, 9), (5, 11), (13, 15), (3, 3), (11, 9), (7, 11), (15, 15)]"

definition add_hash :: "u32 list \<Rightarrow> u32 list \<Rightarrow> u32 list" where
  "add_hash h v = map2 (+) h v"

definition md4_transform :: "u32 list \<Rightarrow> u32 list \<Rightarrow> u32 list" where
  "md4_transform h inp =
     (let q = (h ! 0, h ! 1, h ! 2, h ! 3);
          q = fold (md4_round md4_F 0 inp) md4_table1 q;
          q = fold (md4_round md4_G 0x5A827999 inp) md4_table2 q;
          (a, b, c, d) = fold (md4_round md4_H 0x6ED9EBA1 inp) md4_table3 q
      in add_hash h [a, b, c, d])"

definition md5_F1 :: "u32 \<Rightarrow> u32 \<Rightarrow> u32 \<Rightarrow> u32" where "md5_F1 x y z = z XOR (x AND (y XOR z))"
definition md5_F2 :: "u32 \<Rightarrow> u32 \<Rightarrow> u32 \<Rightarrow> u32" where "md5_F2 x y z = md5_F1 z x y"
definition md5_F3 :: "u32 \<Rightarrow> u32 \<Rightarrow> u32 \<Rightarrow> u32" where "md5_F3 x y z = x XOR y XOR z"
definition md5_F4 :: "u32 \<Rightarrow> u32 \<Rightarrow> u32 \<Rightarrow> u32" where "md5_F4 x y z = y XOR (x OR NOT z)"

definition md5_step :: "(u32 \<Rightarrow> u32 \<Rightarrow> u32 \<Rightarrow> u32) \<Rightarrow> u32 list \<Rightarrow> nat \<times> u32 \<times> nat \<Rightarrow> quad \<Rightarrow> quad" where
  "md5_step f inp = (\<lambda>(k, t, s) (w, x, y, z). (z, rol32 (w + f x y z + (inp ! k + t)) s + x, x, y))"

definition md5_table1 :: "(nat \<times> u32 \<times> nat) list" where
  "md5_table1 =
     [(0, 0xd76aa478, 7), (1, 0xe8c7b756, 12), (2, 0x242070db, 17), (3, 0xc1bdceee, 22),
      (4, 0xf57c0faf, 7), (5, 0x4787c62a, 12), (6, 0xa8304613, 17), (7, 0xfd469501, 22),
      (8, 0x698098d8, 7), (9, 0x8b44f7af, 12), (10, 0xffff5bb1, 17), (11, 0x895cd7be, 22),
      (12, 0x6b901122, 7), (13, 0xfd987193, 12), (14, 0xa679438e, 17), (15, 0x49b40821, 22)]"

definition md5_table2 :: "(nat \<times> u32 \<times> nat) list" where
  "md5_table2 =
     [(1, 0xf61e2562, 5), (6, 0xc040b340, 9), (11, 0x265e5a51, 14), (0, 0xe9b6c7aa, 20),
      (5, 0xd62f105d, 5), (10, 0x02441453, 9), (15, 0xd8a1e681, 14), (4, 0xe7d3fbc8, 20),
      (9, 0x21e1cde6, 5), (14, 0xc33707d6, 9), (3, 0xf4d50d87, 14), (8, 0x455a14ed, 20),
      (13, 0xa9e3e905, 5), (2, 0xfcefa3f8, 9), (7, 0x676f02d9, 14), (12, 0x8d2a4c8a, 20)]"

definition md5_table3 :: "(nat \<times> u32 \<times> nat) list" where
  "md5_table3 =
     [(5, 0xfffa3942, 4), (8, 0x8771f681, 11), (11, 0x6d9d6122, 16), (14, 0xfde5380c, 23),
      (1, 0xa4beea44, 4), (4, 0x4bdecfa9, 11), (7, 0xf6bb4b60, 16), (10, 0xbebfbc70, 23),
      (13, 0x289b7ec6, 4), (0, 0xeaa127fa, 11), (3, 0xd4ef3085, 16), (6, 0x04881d05, 23),
      (9, 0xd9d4d039, 4), (12, 0xe6db99e5, 11), (15, 0x1fa27cf8, 16), (2, 0xc4ac5665, 23)]"

definition md5_table4 :: "(nat \<times> u32 \<times> nat) list" where
  "md5_table4 =
     [(0, 0xf4292244, 6), (7, 0x432aff97, 10), (14, 0xab9423a7, 15), (5, 0xfc93a039, 21),
      (12, 0x655b59c3, 6), (3, 0x8f0ccc92, 10), (10, 0xffeff47d, 15), (1, 0x85845dd1, 21),
      (8, 0x6fa87e4f, 6), (15, 0xfe2ce6e0, 10), (6, 0xa3014314, 15), (13, 0x4e0811a1, 21),
      (4, 0xf7537e82, 6), (11, 0xbd3af235, 10), (2, 0x2ad7d2bb, 15), (9, 0xeb86d391, 21)]"

definition md5_transform :: "u32 list \<Rightarrow> u32 list \<Rightarrow> u32 list" where
  "md5_transform h inp =
     (let q = (h ! 0, h ! 1, h ! 2, h ! 3);
          q = fold (md5_step md5_F1 inp) md5_table1 q;
          q = fold (md5_step md5_F2 inp) md5_table2 q;
          q = fold (md5_step md5_F3 inp) md5_table3 q;
          (a, b, c, d) = fold (md5_step md5_F4 inp) md5_table4 q
      in add_hash h [a, b, c, d])"

text \<open>
  \<^verbatim>\<open>md4_update\<close> and \<^verbatim>\<open>md5_update\<close> differ in the transform only, as do the final steps; \<open>tr\<close> takes a hash and the
  words of a block.
\<close>

type_synonym transform = "u32 list \<Rightarrow> u32 list \<Rightarrow> u32 list"

definition md_init :: md_ctx where
  "md_init = \<lparr>md_hash = [0x67452301, 0xefcdab89, 0x98badcfe, 0x10325476], md_block = replicate 64 0, byte_count = 0\<rparr>"

definition md_transform_helper :: "transform \<Rightarrow> md_ctx \<Rightarrow> md_ctx" where
  "md_transform_helper tr ctx = ctx\<lparr>md_hash := tr (md_hash ctx) (le_words (md_block ctx))\<rparr>"

definition md_fill :: "nat \<Rightarrow> u8 list \<Rightarrow> nat \<Rightarrow> nat \<Rightarrow> md_ctx \<Rightarrow> md_ctx option" where
  "md_fill off data doff n ctx = map_option (\<lambda>b. ctx\<lparr>md_block := b\<rparr>) (memcpy (md_block ctx) off data doff n)"

function md_update_loop :: "transform \<Rightarrow> u8 list \<Rightarrow> nat \<Rightarrow> nat \<Rightarrow> md_ctx \<Rightarrow> md_ctx option" where
  "md_update_loop tr data doff len ctx =
     (if 64 \<le> len then
        (case md_fill 0 data doff 64 ctx of
           None \<Rightarrow> None
         | Some ctx \<Rightarrow> md_update_loop tr data (doff + 64) (len - 64) (md_transform_helper tr ctx))
      else md_fill 0 data doff len ctx)"
  by auto
termination by (relation "measure (\<lambda>(tr, data, doff, len, ctx). len)") auto

definition md_update :: "transform \<Rightarrow> u8 list \<Rightarrow> md_ctx \<Rightarrow> md_ctx option" where
  "md_update tr data ctx =
     (let len = length data; avail = 64 - unat (byte_count ctx AND 0x3f);
          ctx = ctx\<lparr>byte_count := byte_count ctx + of_nat len\<rparr>
      in if avail > len then md_fill (64 - avail) data 0 len ctx
         else case md_fill (64 - avail) data 0 avail ctx of
             None \<Rightarrow> None
           | Some ctx \<Rightarrow> md_update_loop tr data avail (len - avail) (md_transform_helper tr ctx))"

definition md_memset0 :: "nat \<Rightarrow> nat \<Rightarrow> md_ctx \<Rightarrow> md_ctx option" where
  "md_memset0 off n = md_fill off (replicate n 0) 0 n"

definition md_wiped :: md_ctx where
  "md_wiped = \<lparr>md_hash = replicate 4 0, md_block = replicate 64 0, byte_count = 0\<rparr>"

definition md_last :: "transform \<Rightarrow> md_ctx \<Rightarrow> u8 list \<times> md_ctx" where
  "md_last tr ctx =
     (let words = take 14 (le_words (md_block ctx)) @ [ucast (push_bit 3 (byte_count ctx)), ucast (drop_bit 29 (byte_count ctx))]
      in (concat (map cpu_to_le32 (tr (md_hash ctx) words)), md_wiped))"

definition md_final :: "transform \<Rightarrow> md_ctx \<Rightarrow> (u8 list \<times> md_ctx) option" where
  "md_final tr ctx =
     (let offset = unat (byte_count ctx AND 0x3f); padding = 56 - (int offset + 1) in
      case md_fill offset [0x80] 0 1 ctx of
        None \<Rightarrow> None
      | Some ctx \<Rightarrow>
          if padding < 0 then
            (case md_memset0 (offset + 1) (nat (padding + 8)) ctx of
               None \<Rightarrow> None
             | Some ctx \<Rightarrow> map_option (md_last tr) (md_memset0 0 56 (md_transform_helper tr ctx)))
          else map_option (md_last tr) (md_memset0 (offset + 1) (nat padding) ctx))"

definition md4_update :: "u8 list \<Rightarrow> md_ctx \<Rightarrow> md_ctx option" where "md4_update = md_update md4_transform"
definition md4_final :: "md_ctx \<Rightarrow> (u8 list \<times> md_ctx) option" where "md4_final = md_final md4_transform"
definition md5_update :: "u8 list \<Rightarrow> md_ctx \<Rightarrow> md_ctx option" where "md5_update = md_update md5_transform"
definition md5_final :: "md_ctx \<Rightarrow> (u8 list \<times> md_ctx) option" where "md5_final = md_final md5_transform"

subsection \<open>SHA-1\<close>

definition sha_f1 :: "u32 \<Rightarrow> u32 \<Rightarrow> u32 \<Rightarrow> u32" where "sha_f1 x y z = z XOR (x AND (y XOR z))"
definition sha_f2 :: "u32 \<Rightarrow> u32 \<Rightarrow> u32 \<Rightarrow> u32" where "sha_f2 x y z = x XOR y XOR z"
definition sha_f3 :: "u32 \<Rightarrow> u32 \<Rightarrow> u32 \<Rightarrow> u32" where "sha_f3 x y z = (x AND y) + (z AND (x XOR y))"

definition sha_expand :: "u32 list \<Rightarrow> u32 list" where
  "sha_expand W = fold (\<lambda>i W. W @ [rol32 (W ! (i + 13) XOR W ! (i + 8) XOR W ! (i + 2) XOR W ! i) 1]) [0..<64] W"

definition sha_round :: "(u32 \<Rightarrow> u32 \<Rightarrow> u32 \<Rightarrow> u32) \<Rightarrow> u32 \<Rightarrow> u32 list \<Rightarrow> nat \<Rightarrow> u32 \<times> quad \<Rightarrow> u32 \<times> quad" where
  "sha_round f k W i = (\<lambda>(a, b, c, d, e). (f b c d + k + rol32 a 5 + e + W ! i, a, rol32 b 30, c, d))"

definition sha_transform :: "u32 list \<Rightarrow> u8 list \<Rightarrow> u32 list" where
  "sha_transform digest data =
     (let W = sha_expand (be_words data);
          r = (digest ! 0, digest ! 1, digest ! 2, digest ! 3, digest ! 4);
          r = fold (sha_round sha_f1 0x5A827999 W) [0..<20] r;
          r = fold (sha_round sha_f2 0x6ED9EBA1 W) [20..<40] r;
          r = fold (sha_round sha_f3 0x8F1BBCDC W) [40..<60] r;
          (a, b, c, d, e) = fold (sha_round sha_f2 0xCA62C1D6 W) [60..<80] r
      in add_hash digest [a, b, c, d, e])"

record sha1_ctx =
  sha1_count :: u64
  sha1_state :: "u32 list"
  sha1_buffer :: "u8 list"

definition sha1_init :: sha1_ctx where
  "sha1_init = \<lparr>sha1_count = 0, sha1_state = [0x67452301, 0xefcdab89, 0x98badcfe, 0x10325476, 0xc3d2e1f0], sha1_buffer = replicate 64 0\<rparr>"

text \<open>
  The loop over whole blocks of the data, \<^verbatim>\<open>while (done + 63 < len)\<close>, from position \<open>pos\<close>; it returns the state and
  the position reached.
\<close>

function sha_loop :: "('h \<Rightarrow> u8 list \<Rightarrow> 'h) \<Rightarrow> u8 list \<Rightarrow> nat \<Rightarrow> 'h \<Rightarrow> 'h \<times> nat" where
  "sha_loop tr data pos h =
     (if pos + 63 < length data then sha_loop tr data (pos + 64) (tr h (take 64 (drop pos data))) else (h, pos))"
  by auto
termination by (relation "measure (\<lambda>(tr, data, pos, h). length data - pos)") auto

text \<open>
  \<^verbatim>\<open>sha1_update\<close>. A length so large that \<open>partial + len\<close> wraps makes the code take the short path and copy the
  whole of it behind the buffer.
\<close>

definition sha1_update :: "u8 list \<Rightarrow> sha1_ctx \<Rightarrow> sha1_ctx option" where
  "sha1_update data ctx =
     (let len = length data; partial = unat (sha1_count ctx AND 0x3f);
          ctx = ctx\<lparr>sha1_count := sha1_count ctx + of_nat len\<rparr>;
          tail = (\<lambda>off pos ctx. map_option (\<lambda>b. ctx\<lparr>sha1_buffer := b\<rparr>) (memcpy (sha1_buffer ctx) off data pos (len - pos)))
      in if 63 < partial + len \<and> int (partial + len) < 2 ^ 32 then
           if partial \<noteq> 0 then
             (case memcpy (sha1_buffer ctx) partial data 0 (64 - partial) of
                None \<Rightarrow> None
              | Some b \<Rightarrow>
                  let (h, pos) = sha_loop sha_transform data (64 - partial) (sha_transform (sha1_state ctx) b)
                  in tail 0 pos (ctx\<lparr>sha1_buffer := b, sha1_state := h\<rparr>))
           else
             let (h, pos) = sha_loop sha_transform data 64 (sha_transform (sha1_state ctx) (take 64 data))
             in tail 0 pos (ctx\<lparr>sha1_state := h\<rparr>)
         else tail partial 0 ctx)"

definition sha_padding :: "nat \<Rightarrow> u8 list" where
  "sha_padding n = take n (0x80 # replicate 63 0)"

definition sha_padlen :: "nat \<Rightarrow> nat" where
  "sha_padlen index = (if index < 56 then 56 - index else 120 - index)"

definition sha1_final :: "sha1_ctx \<Rightarrow> (u8 list \<times> sha1_ctx) option" where
  "sha1_final ctx =
     (let bits = cpu_to_be64 (push_bit 3 (sha1_count ctx)); index = unat (sha1_count ctx AND 0x3f) in
      case sha1_update (sha_padding (sha_padlen index)) ctx of
        None \<Rightarrow> None
      | Some ctx \<Rightarrow>
          map_option (\<lambda>ctx. (concat (map cpu_to_be32 (sha1_state ctx)),
              \<lparr>sha1_count = 0, sha1_state = replicate 5 0, sha1_buffer = replicate 64 0\<rparr>))
            (sha1_update bits ctx))"

subsection \<open>SHA-224 and SHA-256\<close>

record sha256_ctx =
  sha256_count :: "u32 \<times> u32"
  sha256_state :: "u32 list"
  sha256_buf :: "u8 list"

definition sha256_Ch :: "u32 \<Rightarrow> u32 \<Rightarrow> u32 \<Rightarrow> u32" where "sha256_Ch x y z = z XOR (x AND (y XOR z))"
definition sha256_Maj :: "u32 \<Rightarrow> u32 \<Rightarrow> u32 \<Rightarrow> u32" where "sha256_Maj x y z = (x AND y) OR (z AND (x OR y))"
definition sha256_e0 :: "u32 \<Rightarrow> u32" where "sha256_e0 x = ror32 x 2 XOR ror32 x 13 XOR ror32 x 22"
definition sha256_e1 :: "u32 \<Rightarrow> u32" where "sha256_e1 x = ror32 x 6 XOR ror32 x 11 XOR ror32 x 25"
definition sha256_s0 :: "u32 \<Rightarrow> u32" where "sha256_s0 x = ror32 x 7 XOR ror32 x 18 XOR drop_bit 3 x"
definition sha256_s1 :: "u32 \<Rightarrow> u32" where "sha256_s1 x = ror32 x 17 XOR ror32 x 19 XOR drop_bit 10 x"

definition sha256_blend :: "u32 list \<Rightarrow> u32 list" where
  "sha256_blend W =
     fold (\<lambda>I W. W @ [sha256_s1 (W ! (I - 2)) + W ! (I - 7) + sha256_s0 (W ! (I - 15)) + W ! (I - 16)]) [16..<64] W"

text \<open>The rounds as the code lists them: the index into \<^verbatim>\<open>W\<close> and the constant.\<close>

definition sha256_table :: "(nat \<times> u32) list" where
  "sha256_table =
     [(0, 0x428a2f98), (1, 0x71374491), (2, 0xb5c0fbcf), (3, 0xe9b5dba5), (4, 0x3956c25b), (5, 0x59f111f1),
      (6, 0x923f82a4), (7, 0xab1c5ed5), (8, 0xd807aa98), (9, 0x12835b01), (10, 0x243185be), (11, 0x550c7dc3),
      (12, 0x72be5d74), (13, 0x80deb1fe), (14, 0x9bdc06a7), (15, 0xc19bf174), (16, 0xe49b69c1), (17, 0xefbe4786),
      (18, 0x0fc19dc6), (19, 0x240ca1cc), (20, 0x2de92c6f), (21, 0x4a7484aa), (22, 0x5cb0a9dc), (23, 0x76f988da),
      (24, 0x983e5152), (25, 0xa831c66d), (26, 0xb00327c8), (27, 0xbf597fc7), (28, 0xc6e00bf3), (29, 0xd5a79147),
      (30, 0x06ca6351), (31, 0x14292967), (32, 0x27b70a85), (33, 0x2e1b2138), (34, 0x4d2c6dfc), (35, 0x53380d13),
      (36, 0x650a7354), (37, 0x766a0abb), (38, 0x81c2c92e), (39, 0x92722c85), (40, 0xa2bfe8a1), (41, 0xa81a664b),
      (42, 0xc24b8b70), (43, 0xc76c51a3), (44, 0xd192e819), (45, 0xd6990624), (46, 0xf40e3585), (47, 0x106aa070),
      (48, 0x19a4c116), (49, 0x1e376c08), (50, 0x2748774c), (51, 0x34b0bcb5), (52, 0x391c0cb3), (53, 0x4ed8aa4a),
      (54, 0x5b9cca4f), (55, 0x682e6ff3), (56, 0x748f82ee), (57, 0x78a5636f), (58, 0x84c87814), (59, 0x8cc70208),
      (60, 0x90befffa), (61, 0xa4506ceb), (62, 0xbef9a3f7), (63, 0xc67178f2)]"

text \<open>One round on \<open>(a, b, c, d, e, f, g, h)\<close>, rotated for the next.\<close>

definition sha256_round :: "u32 list \<Rightarrow> nat \<times> u32 \<Rightarrow> quad \<times> quad \<Rightarrow> quad \<times> quad" where
  "sha256_round W = (\<lambda>(i, k) ((a, b, c, d), (e, f, g, h)).
     let t1 = h + sha256_e1 e + sha256_Ch e f g + k + W ! i; t2 = sha256_e0 a + sha256_Maj a b c
     in ((t1 + t2, a, b, c), (d + t1, e, f, g)))"

definition sha256_transform :: "u32 list \<Rightarrow> u8 list \<Rightarrow> u32 list" where
  "sha256_transform state inp =
     (let W = sha256_blend (be_words inp);
          ((a, b, c, d), (e, f, g, h)) = fold (sha256_round W) sha256_table
            ((state ! 0, state ! 1, state ! 2, state ! 3), (state ! 4, state ! 5, state ! 6, state ! 7))
      in add_hash state [a, b, c, d, e, f, g, h])"

definition sha224_init :: sha256_ctx where
  "sha224_init = \<lparr>sha256_count = (0, 0),
     sha256_state = [0xc1059ed8, 0x367cd507, 0x3070dd17, 0xf70e5939, 0xffc00b31, 0x68581511, 0x64f98fa7, 0xbefa4fa4],
     sha256_buf = replicate 128 0\<rparr>"

definition sha256_init :: sha256_ctx where
  "sha256_init = \<lparr>sha256_count = (0, 0),
     sha256_state = [0x6a09e667, 0xbb67ae85, 0x3c6ef372, 0xa54ff53a, 0x510e527f, 0x9b05688c, 0x1f83d9ab, 0x5be0cd19],
     sha256_buf = replicate 128 0\<rparr>"

text \<open>The bit count: the high word is touched only when the low word wraps.\<close>

definition sha256_add_count :: "u32 \<Rightarrow> u32 \<times> u32 \<Rightarrow> u32 \<times> u32" where
  "sha256_add_count len = (\<lambda>(c0, c1).
     let c0 = c0 + push_bit 3 len
     in if c0 < push_bit 3 len then (c0, c1 + 1 + drop_bit 29 len) else (c0, c1))"

definition sha256_update :: "u8 list \<Rightarrow> sha256_ctx \<Rightarrow> sha256_ctx option" where
  "sha256_update data ctx =
     (let len = length data; index = unat (drop_bit 3 (fst (sha256_count ctx)) AND 0x3f);
          ctx = ctx\<lparr>sha256_count := sha256_add_count (of_nat len) (sha256_count ctx)\<rparr>;
          part_len = 64 - index;
          tail = (\<lambda>off i ctx. map_option (\<lambda>b. ctx\<lparr>sha256_buf := b\<rparr>) (memcpy (sha256_buf ctx) off data i (len - i)))
      in if part_len \<le> len then
           (case memcpy (sha256_buf ctx) index data 0 part_len of
              None \<Rightarrow> None
            | Some b \<Rightarrow>
                let (h, i) = sha_loop sha256_transform data part_len (sha256_transform (sha256_state ctx) (take 64 b))
                in tail 0 i (ctx\<lparr>sha256_buf := b, sha256_state := h\<rparr>))
         else tail index 0 ctx)"

definition sha256_final :: "sha256_ctx \<Rightarrow> (u8 list \<times> sha256_ctx) option" where
  "sha256_final ctx =
     (let bits = cpu_to_be32 (snd (sha256_count ctx)) @ cpu_to_be32 (fst (sha256_count ctx));
          index = unat (drop_bit 3 (fst (sha256_count ctx)) AND 0x3f)
      in case sha256_update (sha_padding (sha_padlen index)) ctx of
        None \<Rightarrow> None
      | Some ctx \<Rightarrow>
          map_option (\<lambda>ctx. (concat (map cpu_to_be32 (sha256_state ctx)),
              \<lparr>sha256_count = (0, 0), sha256_state = replicate 8 0, sha256_buf = replicate 128 0\<rparr>))
            (sha256_update bits ctx))"

definition sha224_final :: "sha256_ctx \<Rightarrow> (u8 list \<times> sha256_ctx) option" where
  "sha224_final ctx = map_option (\<lambda>(D, ctx). (take 28 D, ctx)) (sha256_final ctx)"

declare md_update_loop.simps [simp del] sha_loop.simps [simp del]


section \<open>Incremental hashing\<close>

text \<open>Feeding a list of updates.\<close>

fun feed :: "(u8 list \<Rightarrow> 'c \<Rightarrow> 'c option) \<Rightarrow> u8 list list \<Rightarrow> 'c \<Rightarrow> 'c option" where
  "feed upd [] ctx = Some ctx"
| "feed upd (d # ds) ctx = (case upd d ctx of None \<Rightarrow> None | Some ctx \<Rightarrow> feed upd ds ctx)"

text \<open>
  The interface of an incremental digest: \<open>absorbed m\<close> holds of the contexts that have taken in the message \<open>m\<close>;
  updates shorter than \<open>max_len\<close> extend it, the final step gives the digest.
\<close>

locale stream_hash =
  fixes init :: 'c and update :: "u8 list \<Rightarrow> 'c \<Rightarrow> 'c option" and final :: "'c \<Rightarrow> (u8 list \<times> 'c) option"
    and max_len :: nat and absorbed :: "u8 list \<Rightarrow> 'c \<Rightarrow> bool" and digest :: "u8 list \<Rightarrow> u8 list"
  assumes absorbed_init: "absorbed [] init"
    and absorbed_update: "absorbed m c \<Longrightarrow> length d < max_len \<Longrightarrow> \<exists>c'. update d c = Some c' \<and> absorbed (m @ d) c'"
    and absorbed_final: "absorbed m c \<Longrightarrow> \<exists>w. final c = Some (digest m, w)"
begin

lemma absorbed_feed:
  "absorbed m c \<Longrightarrow> \<forall>d \<in> set ds. length d < max_len \<Longrightarrow> \<exists>c'. feed update ds c = Some c' \<and> absorbed (m @ concat ds) c'"
proof (induction ds arbitrary: m c)
  case (Cons d ds)
  then obtain c1 where "update d c = Some c1" "absorbed (m @ d) c1" using absorbed_update[of m c d] by auto
  then show ?case using Cons.IH[of "m @ d" c1] Cons.prems(2) by auto
qed simp

lemma digest_chunks:
  "\<forall>d \<in> set ds. length d < max_len \<Longrightarrow> map_option fst (Option.bind (feed update ds init) final) = Some (digest (concat ds))"
  using absorbed_feed[OF absorbed_init, of ds] absorbed_final by fastforce

end

subsection \<open>Whole blocks\<close>

function hash_blocks :: "('h \<Rightarrow> u8 list \<Rightarrow> 'h) \<Rightarrow> 'h \<Rightarrow> u8 list \<Rightarrow> 'h" where
  "hash_blocks tr h bs = (if length bs < 64 then h else hash_blocks tr (tr h (take 64 bs)) (drop 64 bs))"
  by auto
termination by (relation "measure (\<lambda>(tr, h, bs). length bs)") auto

declare hash_blocks.simps [simp del]

lemma hash_blocks_short [simp]: "length bs < 64 \<Longrightarrow> hash_blocks tr h bs = h"
  by (simp add: hash_blocks.simps)

lemma hash_blocks_step: "length b = 64 \<Longrightarrow> hash_blocks tr h (b @ bs) = hash_blocks tr (tr h b) bs"
  by (subst hash_blocks.simps) simp

lemma hash_blocks_append: "length a = 64 * k \<Longrightarrow> hash_blocks tr h (a @ b) = hash_blocks tr (hash_blocks tr h a) b"
proof (induction k arbitrary: a h)
  case (Suc k)
  then have a: "a = take 64 a @ drop 64 a" "length (take 64 a) = 64" "length (drop 64 a) = 64 * k" by simp_all
  have "hash_blocks tr h (a @ b) = hash_blocks tr (tr h (take 64 a)) (drop 64 a @ b)"
    by (subst a(1)) (simp only: append_assoc hash_blocks_step[OF a(2)])
  also have "\<dots> = hash_blocks tr (hash_blocks tr (tr h (take 64 a)) (drop 64 a)) b" by (rule Suc.IH[OF a(3)])
  also have "hash_blocks tr (tr h (take 64 a)) (drop 64 a) = hash_blocks tr h a"
    by (subst (3) a(1)) (simp only: hash_blocks_step[OF a(2)])
  finally show ?case .
qed simp

text \<open>The bytes of a message behind its last whole block.\<close>

definition rest_bytes :: "u8 list \<Rightarrow> u8 list" where
  "rest_bytes m = drop (64 * (length m div 64)) m"

lemma length_rest_bytes [simp]: "length (rest_bytes m) = length m mod 64"
  by (simp add: rest_bytes_def minus_mult_div_eq_mod)

lemma rest_bytes_append: "length a = 64 * k \<Longrightarrow> rest_bytes (a @ b) = rest_bytes b"
  by (simp add: rest_bytes_def div_add1_eq mult.commute)

lemma message_split: obtains a k where "m = a @ rest_bytes m" "length a = 64 * k"
proof
  show "m = take (64 * (length m div 64)) m @ rest_bytes m" by (simp add: rest_bytes_def)
  show "length (take (64 * (length m div 64)) m) = 64 * (length m div 64)" by simp
qed

lemma absorb_short:
  assumes "length m mod 64 + length d < 64"
  shows "hash_blocks tr h (m @ d) = hash_blocks tr h m" "rest_bytes (m @ d) = rest_bytes m @ d"
proof -
  obtain a k where a: "m = a @ rest_bytes m" "length a = 64 * k" by (rule message_split)
  have l: "length (rest_bytes m @ d) < 64" using assms by simp
  have e: "m @ d = a @ (rest_bytes m @ d)" by (subst a(1)) simp
  have "hash_blocks tr h m = hash_blocks tr h a" by (subst a(1), subst hash_blocks_append[OF a(2)]) simp
  then show "hash_blocks tr h (m @ d) = hash_blocks tr h m" unfolding e hash_blocks_append[OF a(2)] using l by simp
  have "rest_bytes (rest_bytes m @ d) = rest_bytes m @ d" using l by (simp add: rest_bytes_def[of "_ @ _"])
  then show "rest_bytes (m @ d) = rest_bytes m @ d" unfolding e rest_bytes_append[OF a(2)] .
qed

lemma absorb_long:
  assumes "64 \<le> length m mod 64 + length d"
  defines "n \<equiv> 64 - length m mod 64"
  shows "hash_blocks tr h (m @ d) = hash_blocks tr (tr (hash_blocks tr h m) (rest_bytes m @ take n d)) (drop n d)"
    "rest_bytes (m @ d) = rest_bytes (drop n d)" "n \<le> length d"
proof -
  obtain a k where a: "m = a @ rest_bytes m" "length a = 64 * k" by (rule message_split)
  have "length m mod 64 < 64" by simp
  then show nd: "n \<le> length d" using assms(1) unfolding n_def by linarith
  have l: "length (rest_bytes m @ take n d) = 64" using nd by (simp add: n_def)
  have e: "m @ d = a @ (rest_bytes m @ take n d) @ drop n d" by (subst a(1)) simp
  have "hash_blocks tr h m = hash_blocks tr h a" by (subst a(1), subst hash_blocks_append[OF a(2)]) simp
  then show "hash_blocks tr h (m @ d) = hash_blocks tr (tr (hash_blocks tr h m) (rest_bytes m @ take n d)) (drop n d)"
    unfolding e hash_blocks_append[OF a(2)] hash_blocks_step[OF l] by simp
  have "length (rest_bytes m @ take n d) = 64 * 1" using l by simp
  then show "rest_bytes (m @ d) = rest_bytes (drop n d)"
    unfolding e rest_bytes_append[OF a(2)] by (rule rest_bytes_append)
qed

subsection \<open>Buffers\<close>

text \<open>The part of a context all digests share: the hash of the whole blocks, and the rest in the buffer.\<close>

definition buffered :: "('h \<Rightarrow> u8 list \<Rightarrow> 'h) \<Rightarrow> 'h \<Rightarrow> nat \<Rightarrow> u8 list \<Rightarrow> 'h \<Rightarrow> u8 list \<Rightarrow> bool" where
  "buffered tr h0 sz m h buf \<longleftrightarrow> h = hash_blocks tr h0 m \<and> length buf = sz \<and> take (length m mod 64) buf = rest_bytes m"

lemma memcpy_take:
  assumes "memcpy buf off d doff n = Some buf'"
  shows "take (off + n) buf' = take off buf @ take n (drop doff d)" "length buf' = length buf"
  using assms by (auto simp: memcpy_def split: if_splits)

lemma buffered_short:
  assumes "buffered tr h0 sz m h buf" and "length m mod 64 + length d < 64" and "64 \<le> sz"
  shows "\<exists>buf'. memcpy buf (length m mod 64) d 0 (length d) = Some buf' \<and> buffered tr h0 sz (m @ d) h buf'"
proof -
  have len: "length buf = sz" using assms(1) by (simp add: buffered_def)
  obtain buf' where b: "memcpy buf (length m mod 64) d 0 (length d) = Some buf'"
    using assms(2,3) len by (simp add: memcpy_def)
  have l: "length (m @ d) mod 64 = length m mod 64 + length d" using arg_cong[OF absorb_short(2)[OF assms(2)], of length] by simp
  have "take (length (m @ d) mod 64) buf' = rest_bytes (m @ d)"
    unfolding l absorb_short(2)[OF assms(2)] using memcpy_take(1)[OF b] assms(1) by (simp add: buffered_def)
  then show ?thesis using b memcpy_take(2)[OF b] assms(1) unfolding buffered_def absorb_short(1)[OF assms(2)] by simp
qed

lemma buffered_long:
  assumes "buffered tr h0 sz m h buf" and "64 \<le> length m mod 64 + length d" and "64 \<le> sz"
  defines "n \<equiv> 64 - length m mod 64"
  shows "\<exists>buf1. memcpy buf (length m mod 64) d 0 n = Some buf1 \<and> length buf1 = sz \<and> n \<le> length d \<and>
    hash_blocks tr (tr h (take 64 buf1)) (drop n d) = hash_blocks tr h0 (m @ d) \<and>
    (\<forall>pos buf2. pos = n + 64 * ((length d - n) div 64) \<longrightarrow> length buf2 = sz \<longrightarrow>
       (\<exists>buf'. memcpy buf2 0 d pos (length d - pos) = Some buf' \<and> buffered tr h0 sz (m @ d) (hash_blocks tr h0 (m @ d)) buf'))"
proof -
  note al = absorb_long(1)[OF assms(2), of tr h0, folded n_def] absorb_long(2,3)[OF assms(2), folded n_def]
  have len: "length buf = sz" using assms(1) by (simp add: buffered_def)
  have nm: "length m mod 64 + n = 64" unfolding n_def by (simp add: less_imp_le)
  obtain buf1 where b: "memcpy buf (length m mod 64) d 0 n = Some buf1" using al(3) nm len assms(3) by (simp add: memcpy_def)
  have "take 64 buf1 = rest_bytes m @ take n d" using memcpy_take(1)[OF b] nm assms(1) by (simp add: buffered_def)
  then have h: "hash_blocks tr (tr h (take 64 buf1)) (drop n d) = hash_blocks tr h0 (m @ d)"
    using assms(1) al(1) by (simp add: buffered_def)
  have "\<exists>buf'. memcpy buf2 0 d pos (length d - pos) = Some buf' \<and> buffered tr h0 sz (m @ d) (hash_blocks tr h0 (m @ d)) buf'"
    if pos: "pos = n + 64 * ((length d - n) div 64)" and l2: "length buf2 = sz" for pos buf2
  proof -
    have e: "64 * ((length d - n) div 64) + (length d - n) mod 64 = length d - n" by (rule mult_div_mod_eq)
    have "(length d - n) mod 64 < 64" by simp
    then have pd: "length d - pos < 64" "pos \<le> length d" using al(3) e unfolding pos by linarith+
    then obtain buf' where b': "memcpy buf2 0 d pos (length d - pos) = Some buf'" using l2 assms(3) by (simp add: memcpy_def)
    have rb: "rest_bytes (m @ d) = drop pos d" using al(2) pos unfolding rest_bytes_def[of "drop n d"] by (simp add: add.commute)
    have l: "length (m @ d) mod 64 = length d - pos" using arg_cong[OF rb, of length] by simp
    have "take (length (m @ d) mod 64) buf' = rest_bytes (m @ d)"
      unfolding l rb using memcpy_take(1)[OF b'] by simp
    then show ?thesis using b' memcpy_take(2)[OF b'] l2 unfolding buffered_def by simp
  qed
  then show ?thesis using b memcpy_take(2)[OF b] len h al(3) by blast
qed

lemma sha_loop_blocks:
  "pos \<le> length data \<Longrightarrow> sha_loop tr data pos h = (hash_blocks tr h (drop pos data), pos + 64 * ((length data - pos) div 64))"
proof (induction tr data pos h rule: sha_loop.induct)
  case (1 tr data pos h)
  show ?case
  proof (cases "pos + 63 < length data")
    case True
    have l: "length (take 64 (drop pos data)) = 64" using True by simp
    have "take 64 (drop pos data) @ drop (pos + 64) data = drop pos data" by (metis append_take_drop_id drop_drop add.commute)
    then have h: "hash_blocks tr h (drop pos data) = hash_blocks tr (tr h (take 64 (drop pos data))) (drop (pos + 64) data)"
      using hash_blocks_step[OF l, of tr h "drop (pos + 64) data"] by simp
    have "sha_loop tr data pos h = sha_loop tr data (pos + 64) (tr h (take 64 (drop pos data)))"
      using True by (subst sha_loop.simps) simp
    also have "\<dots> = (hash_blocks tr h (drop pos data), (pos + 64) + 64 * ((length data - (pos + 64)) div 64))"
      unfolding h by (rule 1(1)[OF True]) (use True in simp)
    moreover have "(length data - pos) div 64 = Suc ((length data - (pos + 64)) div 64)"
      using True by (simp add: le_div_geq)
    ultimately show ?thesis by simp
  next
    case False
    then show ?thesis using 1(2) by (subst sha_loop.simps) simp
  qed
qed

lemma index_of_count: "unat ((of_nat n :: u64) AND 0x3f) = n mod 64"
proof -
  have "unat ((of_nat n :: u64) AND (2 ^ 6 - 1)) = unat (of_nat n :: u64) mod 2 ^ 6" by (rule unat_and_pow2_minus_1) simp
  moreover have "unat (of_nat n :: u64) mod 2 ^ 6 = n mod 2 ^ 6" by (simp add: unat_of_nat mod_mod_cancel)
  ultimately show ?thesis by simp
qed

subsection \<open>Padding\<close>

text \<open>The padding of the standards: a one bit, zeros up to 56 modulo 64 bytes, and the length in bits.\<close>

definition le64_bytes :: "u64 \<Rightarrow> u8 list" where
  "le64_bytes w = cpu_to_le32 (ucast w) @ cpu_to_le32 (ucast (drop_bit 32 w))"

definition pad :: "(u64 \<Rightarrow> u8 list) \<Rightarrow> nat \<Rightarrow> u8 list" where
  "pad enc n = 0x80 # replicate ((119 - n mod 64) mod 64) 0 @ enc (of_nat (8 * n))"

lemma pad_zeros: "(119 - r) mod 64 = (if r < 56 then 55 - r else 119 - r)" if "r < 64" for r :: nat
proof (cases "r < 56")
  case True
  then have "119 - r = 64 + (55 - r)" by simp
  then have "(119 - r) mod 64 = (55 - r) mod 64" by (metis mod_add_self1)
  then show ?thesis using True by simp
qed (use that in simp)

definition md_tr :: "transform \<Rightarrow> u32 list \<Rightarrow> u8 list \<Rightarrow> u32 list" where
  "md_tr tr h bs = tr h (le_words bs)"

definition md_absorbed :: "transform \<Rightarrow> u8 list \<Rightarrow> md_ctx \<Rightarrow> bool" where
  "md_absorbed tr m ctx \<longleftrightarrow>
     buffered (md_tr tr) (md_hash md_init) 64 m (md_hash ctx) (md_block ctx) \<and> byte_count ctx = of_nat (length m)"

definition md_digest :: "transform \<Rightarrow> u8 list \<Rightarrow> u8 list" where
  "md_digest tr m = concat (map cpu_to_le32 (hash_blocks (md_tr tr) (md_hash md_init) (m @ pad le64_bytes (length m))))"

lemma md_update_loop_blocks:
  assumes "doff + len = length data" and "length (md_block ctx) = 64"
  shows "\<exists>buf2. length buf2 = 64 \<and> md_update_loop tr data doff len ctx =
    map_option (\<lambda>b. ctx\<lparr>md_hash := hash_blocks (md_tr tr) (md_hash ctx) (drop doff data), md_block := b\<rparr>)
      (memcpy buf2 0 data (doff + 64 * (len div 64)) (length data - (doff + 64 * (len div 64))))"
  using assms
proof (induction "len div 64" arbitrary: doff len ctx)
  case 0
  then have len: "len < 64" by (simp add: div_eq_0_iff)
  then have "hash_blocks (md_tr tr) (md_hash ctx) (drop doff data) = md_hash ctx" using 0(2) by simp
  moreover have "length data - doff = len" "len div 64 = 0" using 0 by simp_all
  ultimately show ?case using len 0(3)
    by (intro exI[of _ "md_block ctx"], subst md_update_loop.simps) (simp add: md_fill_def option.map_comp comp_def)
next
  case (Suc k)
  then have len: "64 \<le> len" by (metis div_less linorder_not_less nat.distinct(1))
  let ?b = "take 64 (drop doff data)"
  have lb: "length ?b = 64" using len Suc.prems(1) by simp
  have m: "memcpy (md_block ctx) 0 data doff 64 = Some ?b" using len Suc.prems by (simp add: memcpy_def)
  let ?c = "md_transform_helper tr (ctx\<lparr>md_block := ?b\<rparr>)"
  have k: "k = (len - 64) div 64" using Suc.hyps(2) len by (simp add: le_div_geq)
  have "doff + 64 + (len - 64) = length data" "length (md_block ?c) = 64"
    using len Suc.prems(1) lb by (simp_all add: md_transform_helper_def)
  from Suc.hyps(1)[OF k this] obtain buf2 where ih: "length buf2 = 64" "md_update_loop tr data (doff + 64) (len - 64) ?c =
    map_option (\<lambda>b. ?c\<lparr>md_hash := hash_blocks (md_tr tr) (md_hash ?c) (drop (doff + 64) data), md_block := b\<rparr>)
      (memcpy buf2 0 data (doff + 64 + 64 * ((len - 64) div 64)) (length data - (doff + 64 + 64 * ((len - 64) div 64))))" by blast
  have "?b @ drop (doff + 64) data = drop doff data" by (metis append_take_drop_id drop_drop add.commute)
  then have h: "hash_blocks (md_tr tr) (md_hash ctx) (drop doff data) = hash_blocks (md_tr tr) (md_hash ?c) (drop (doff + 64) data)"
    using hash_blocks_step[OF lb, of "md_tr tr" "md_hash ctx" "drop (doff + 64) data"]
    by (simp add: md_transform_helper_def md_tr_def)
  have p: "doff + 64 + 64 * ((len - 64) div 64) = doff + 64 * (len div 64)" using len by (simp add: le_div_geq)
  have "md_update_loop tr data doff len ctx = md_update_loop tr data (doff + 64) (len - 64) ?c"
    using len m by (subst md_update_loop.simps) (simp add: md_fill_def)
  then show ?case using ih unfolding p h by (intro exI[of _ buf2]) (simp add: md_transform_helper_def)
qed

lemma md_update_absorbed:
  assumes "md_absorbed tr m ctx"
  shows "\<exists>ctx'. md_update tr d ctx = Some ctx' \<and> md_absorbed tr (m @ d) ctx'"
proof -
  let ?c = "ctx\<lparr>byte_count := byte_count ctx + of_nat (length d)\<rparr>" and ?p = "length m mod 64"
  have b: "buffered (md_tr tr) (md_hash md_init) 64 m (md_hash ctx) (md_block ctx)" using assms by (simp add: md_absorbed_def)
  have idx: "unat (byte_count ctx AND 0x3f) = ?p" using assms index_of_count by (simp add: md_absorbed_def)
  have p: "?p < 64" by simp
  have cnt: "byte_count ctx + of_nat (length d) = of_nat (length (m @ d))" using assms by (simp add: md_absorbed_def)
  show ?thesis
  proof (cases "?p + length d < 64")
    case True
    obtain buf' where buf: "memcpy (md_block ctx) ?p d 0 (length d) = Some buf'"
      "buffered (md_tr tr) (md_hash md_init) 64 (m @ d) (md_hash ctx) buf'"
      using buffered_short[OF b True] by auto
    have "64 - ?p > length d" "64 - (64 - ?p) = ?p" using True by linarith+
    then have "md_update tr d ctx = Some (?c\<lparr>md_block := buf'\<rparr>)"
      using buf(1) unfolding md_update_def idx Let_def by (simp only: if_True md_fill_def) simp
    then show ?thesis using buf(2) cnt by (auto simp: md_absorbed_def)
  next
    case False
    define n where "n = 64 - ?p"
    obtain buf1 where b1: "memcpy (md_block ctx) ?p d 0 n = Some buf1" "length buf1 = 64" "n \<le> length d"
      "hash_blocks (md_tr tr) (md_tr tr (md_hash ctx) (take 64 buf1)) (drop n d) = hash_blocks (md_tr tr) (md_hash md_init) (m @ d)"
      and rest: "\<And>pos buf2. pos = n + 64 * ((length d - n) div 64) \<Longrightarrow> length buf2 = 64 \<Longrightarrow>
         \<exists>buf'. memcpy buf2 0 d pos (length d - pos) = Some buf' \<and>
           buffered (md_tr tr) (md_hash md_init) 64 (m @ d) (hash_blocks (md_tr tr) (md_hash md_init) (m @ d)) buf'"
      using buffered_long[OF b] False unfolding n_def by (metis linorder_not_less order_refl)
    let ?c1 = "md_transform_helper tr (?c\<lparr>md_block := buf1\<rparr>)"
    have l: "n + (length d - n) = length d" "length (md_block ?c1) = 64" using b1 by (simp_all add: md_transform_helper_def)
    obtain buf2 where b2: "length buf2 = 64" "md_update_loop tr d n (length d - n) ?c1 =
       map_option (\<lambda>b. ?c1\<lparr>md_hash := hash_blocks (md_tr tr) (md_hash ?c1) (drop n d), md_block := b\<rparr>)
      (memcpy buf2 0 d (n + 64 * ((length d - n) div 64)) (length d - (n + 64 * ((length d - n) div 64))))"
      using md_update_loop_blocks[OF l] by blast
    obtain buf' where buf: "memcpy buf2 0 d (n + 64 * ((length d - n) div 64)) (length d - (n + 64 * ((length d - n) div 64))) = Some buf'"
      "buffered (md_tr tr) (md_hash md_init) 64 (m @ d) (hash_blocks (md_tr tr) (md_hash md_init) (m @ d)) buf'"
      using rest[OF refl b2(1)] by blast
    have "hash_blocks (md_tr tr) (md_hash ?c1) (drop n d) = hash_blocks (md_tr tr) (md_hash md_init) (m @ d)"
      using b1(2,4) by (simp add: md_transform_helper_def md_tr_def)
    moreover have "md_update tr d ctx = md_update_loop tr d n (length d - n) ?c1"
    proof -
      have "64 - n = ?p" "\<not> n > length d" using p b1(3) by (simp_all add: n_def)
      then show ?thesis using b1(1) unfolding md_update_def idx Let_def n_def[symmetric] by (simp add: md_fill_def)
    qed
    ultimately show ?thesis using b2(2) buf cnt by (simp add: md_absorbed_def md_transform_helper_def)
  qed
qed

lemma length_le_words [simp]: "length (le_words bs) = length bs div 4"
  by (simp add: le_words_def)

lemma le_words_tail:
  assumes "length blk = 64"
  shows "le_words (take 56 blk @ cpu_to_le32 a @ cpu_to_le32 b) = take 14 (le_words blk) @ [a, b]"
proof (rule nth_equalityI)
  let ?x = "take 56 blk @ cpu_to_le32 a @ cpu_to_le32 b"
  have len: "length ?x = 64" using assms by simp
  show "length (le_words ?x) = length (take 14 (le_words blk) @ [a, b])" using len assms by simp
  fix i assume "i < length (le_words ?x)"
  then have i: "i < 16" using len by simp
  have w: "le_words ?x ! i = le32_to_cpu (take 4 (drop (4 * i) ?x))" using i len by (simp add: le_words_def)
  consider "i < 14" | "i = 14" | "i = 15" using i by linarith
  then show "le_words ?x ! i = (take 14 (le_words blk) @ [a, b]) ! i"
  proof cases
    case 1
    have "drop (4 * i) ?x = take (56 - 4 * i) (drop (4 * i) blk) @ cpu_to_le32 a @ cpu_to_le32 b"
      using 1 assms by (simp add: drop_take)
    moreover have "4 \<le> 56 - 4 * i" using 1 by simp
    ultimately have "take 4 (drop (4 * i) ?x) = take 4 (drop (4 * i) blk)" using 1 assms by (simp add: min_def)
    then show ?thesis unfolding w using 1 assms by (simp add: nth_append le_words_def)
  next
    case 2
    then show ?thesis unfolding w using assms by (simp add: nth_append)
  next
    case 3
    then show ?thesis unfolding w using assms by (simp add: nth_append)
  qed
qed

lemma bit_count_words:
  "push_bit 3 (of_nat n :: u64) = of_nat (8 * n)"
  "(ucast (drop_bit 29 (of_nat n :: u64)) :: u32) = ucast (drop_bit 32 (of_nat (8 * n) :: u64))"
proof -
  show p: "push_bit 3 (of_nat n :: u64) = of_nat (8 * n)" by (simp add: push_bit_eq_mult)
  show "(ucast (drop_bit 29 (of_nat n :: u64)) :: u32) = ucast (drop_bit 32 (of_nat (8 * n) :: u64))"
    unfolding p[symmetric] by (rule bit_word_eqI) (auto simp: bit_simps)
qed

lemma md_last_block:
  assumes "length (md_block ctx) = 64" and "byte_count ctx = of_nat n"
  shows "md_last tr ctx = (concat (map cpu_to_le32 (md_tr tr (md_hash ctx) (take 56 (md_block ctx) @ le64_bytes (of_nat (8 * n))))), md_wiped)"
  using assms(2) le_words_tail[OF assms(1)] unfolding md_last_def md_tr_def le64_bytes_def Let_def
  by (simp only: bit_count_words)

lemma length_le64_bytes [simp]: "length (le64_bytes w) = 8" "length (cpu_to_be64 w) = 8"
  by (simp_all add: le64_bytes_def cpu_to_be64_def)

text \<open>The padding ends the message with one block or, when the length does not fit any more, with two.\<close>

lemma hash_pad:
  fixes m :: "u8 list" and enc :: "u64 \<Rightarrow> u8 list"
  defines "p \<equiv> length m mod 64" and "e \<equiv> enc (of_nat (8 * length m))"
  assumes "length e = 8"
  shows "p < 56 \<Longrightarrow> hash_blocks tr h0 (m @ pad enc (length m)) = tr (hash_blocks tr h0 m) (rest_bytes m @ 0x80 # replicate (55 - p) 0 @ e)"
    and "\<not> p < 56 \<Longrightarrow> hash_blocks tr h0 (m @ pad enc (length m)) =
      tr (tr (hash_blocks tr h0 m) (rest_bytes m @ 0x80 # replicate (63 - p) 0)) (replicate 56 0 @ e)"
proof -
  have p: "p < 64" by (simp add: p_def)
  have pd: "pad enc (length m) = 0x80 # replicate (if p < 56 then 55 - p else 119 - p) 0 @ e"
    unfolding pad_def using pad_zeros[OF p] by (simp add: p_def e_def)
  have "64 \<le> length m mod 64 + length (pad enc (length m))" using p assms(3) unfolding pd by (simp add: p_def[symmetric])
  note al = absorb_long(1)[OF this, of tr h0, folded p_def]
  show "hash_blocks tr h0 (m @ pad enc (length m)) = tr (hash_blocks tr h0 m) (rest_bytes m @ 0x80 # replicate (55 - p) 0 @ e)" if "p < 56"
    using al that p assms(3) unfolding pd by simp
  show "hash_blocks tr h0 (m @ pad enc (length m)) =
      tr (tr (hash_blocks tr h0 m) (rest_bytes m @ 0x80 # replicate (63 - p) 0)) (replicate 56 0 @ e)" if far: "\<not> p < 56"
  proof -
    have "119 - p = (63 - p) + 56" using p by simp
    then have "0x80 # replicate (119 - p) 0 @ e = (0x80 # replicate (63 - p) 0) @ (replicate 56 0 @ e)"
      by (simp only: replicate_add) simp
    then have pe: "pad enc (length m) = (0x80 # replicate (63 - p) 0) @ (replicate 56 0 @ e)" by (simp only: pd if_False far)
    have "length (0x80 # replicate (63 - p) 0 :: u8 list) = 64 - p" using p by simp
    then have "take (64 - p) (pad enc (length m)) = 0x80 # replicate (63 - p) 0" "drop (64 - p) (pad enc (length m)) = replicate 56 0 @ e"
      unfolding pe by (metis append_eq_conv_conj)+
    moreover have "length (replicate 56 0 @ e) = 64" using assms(3) by simp
    ultimately show ?thesis using al hash_blocks_step[of "replicate 56 0 @ e" tr _ "[]"] by simp
  qed
qed

lemma md_final_digest:
  assumes "md_absorbed tr m ctx"
  shows "md_final tr ctx = Some (md_digest tr m, md_wiped)"
proof -
  define p where "p = length m mod 64"
  have p: "p < 64" by (simp add: p_def)
  have b: "md_hash ctx = hash_blocks (md_tr tr) (md_hash md_init) m" "length (md_block ctx) = 64" "take p (md_block ctx) = rest_bytes m"
    and c: "byte_count ctx = of_nat (length m)" using assms by (simp_all add: md_absorbed_def buffered_def p_def)
  have idx: "unat (byte_count ctx AND 0x3f) = p" using c index_of_count by (simp add: p_def)
  define blk1 where "blk1 = take p (md_block ctx) @ [0x80] @ drop (p + 1) (md_block ctx)"
  have blk1: "length blk1 = 64" "take (p + 1) blk1 = rest_bytes m @ [0x80]" using b(2,3) p by (simp_all add: blk1_def p_def[symmetric])
  have f1: "md_fill p [0x80] 0 1 ctx = Some (ctx\<lparr>md_block := blk1\<rparr>)" using b(2) p by (simp add: md_fill_def memcpy_def blk1_def)
  note pads = hash_pad[of le64_bytes m "md_tr tr" "md_hash md_init", folded p_def b(1)]
  show ?thesis
  proof (cases "p < 56")
    case True
    define blk2 where "blk2 = take (p + 1) blk1 @ replicate (55 - p) 0 @ drop 56 blk1"
    have m2: "md_memset0 (p + 1) (55 - p) (ctx\<lparr>md_block := blk1\<rparr>) = Some (ctx\<lparr>md_block := blk2\<rparr>)"
      using True blk1(1) by (simp add: md_memset0_def md_fill_def memcpy_def blk2_def)
    have "56 - p = Suc (55 - p)" using True by simp
    then have blk2: "length blk2 = 64" "take 56 blk2 = rest_bytes m @ 0x80 # replicate (55 - p) 0"
      using True blk1 p by (simp_all add: blk2_def p_def[symmetric])
    have "\<not> 56 - (int p + 1) < 0" "nat (56 - (int p + 1)) = 55 - p" using True by simp_all
    then show ?thesis
      using f1 m2 pads(1)[OF _ True] blk2(2) md_last_block[of "ctx\<lparr>md_block := blk2\<rparr>" "length m" tr] blk2(1) c
      unfolding md_final_def idx Let_def md_digest_def by simp
  next
    case False
    define blk2 where "blk2 = take (p + 1) blk1 @ replicate (63 - p) 0"
    have m2: "md_memset0 (p + 1) (63 - p) (ctx\<lparr>md_block := blk1\<rparr>) = Some (ctx\<lparr>md_block := blk2\<rparr>)"
      using p blk1(1) by (simp add: md_memset0_def md_fill_def memcpy_def blk2_def)
    have blk2: "length blk2 = 64" "blk2 = rest_bytes m @ 0x80 # replicate (63 - p) 0"
      using blk1 p by (simp_all add: blk2_def p_def[symmetric])
    let ?c2 = "md_transform_helper tr (ctx\<lparr>md_block := blk2\<rparr>)"
    define blk3 where "blk3 = replicate 56 0 @ drop 56 blk2"
    have m3: "md_memset0 0 56 ?c2 = Some (?c2\<lparr>md_block := blk3\<rparr>)" and h2: "md_hash ?c2 = md_tr tr (md_hash ctx) blk2"
      using blk2(1) by (simp_all add: md_memset0_def md_fill_def memcpy_def blk3_def md_transform_helper_def md_tr_def)
    have blk3: "length blk3 = 64" "take 56 blk3 = replicate 56 0" using blk2(1) by (simp_all add: blk3_def)
    have "md_last tr (?c2\<lparr>md_block := blk3\<rparr>) = (md_digest tr m, md_wiped)"
      using md_last_block[of "?c2\<lparr>md_block := blk3\<rparr>" "length m" tr] blk3 c pads(2)[OF _ False] h2 blk2(2)
      by (simp add: md_transform_helper_def md_digest_def)
    moreover have "56 - (int p + 1) < 0" "nat (56 - (int p + 1) + 8) = 63 - p" using False p by simp_all
    ultimately show ?thesis using f1 m2 m3 unfolding md_final_def idx Let_def by simp
  qed
qed

subsection \<open>SHA-1\<close>

definition sha1_absorbed :: "u8 list \<Rightarrow> sha1_ctx \<Rightarrow> bool" where
  "sha1_absorbed m ctx \<longleftrightarrow>
     buffered sha_transform (sha1_state sha1_init) 64 m (sha1_state ctx) (sha1_buffer ctx) \<and> sha1_count ctx = of_nat (length m)"

definition sha1_digest :: "u8 list \<Rightarrow> u8 list" where
  "sha1_digest m = concat (map cpu_to_be32 (hash_blocks sha_transform (sha1_state sha1_init) (m @ pad cpu_to_be64 (length m))))"

lemma sha1_update_absorbed:
  assumes "sha1_absorbed m ctx" and "length d < 2 ^ 29"
  shows "\<exists>ctx'. sha1_update d ctx = Some ctx' \<and> sha1_absorbed (m @ d) ctx'"
proof -
  let ?c = "ctx\<lparr>sha1_count := sha1_count ctx + of_nat (length d)\<rparr>" and ?p = "length m mod 64" and ?h0 = "sha1_state sha1_init"
  have b: "buffered sha_transform ?h0 64 m (sha1_state ctx) (sha1_buffer ctx)" using assms by (simp add: sha1_absorbed_def)
  have idx: "unat (sha1_count ctx AND 0x3f) = ?p" using assms index_of_count by (simp add: sha1_absorbed_def)
  have p: "?p < 64" by simp
  have small: "int (?p + length d) < 2 ^ 32" using assms(2) p by auto
  have cnt: "sha1_count ctx + of_nat (length d) = of_nat (length (m @ d))" using assms by (simp add: sha1_absorbed_def)
  show ?thesis
  proof (cases "?p + length d < 64")
    case True
    obtain buf' where buf: "memcpy (sha1_buffer ctx) ?p d 0 (length d) = Some buf'"
      "buffered sha_transform ?h0 64 (m @ d) (sha1_state ctx) buf'"
      using buffered_short[OF b True] by auto
    have "\<not> 63 < ?p + length d" using True by linarith
    then have "sha1_update d ctx = Some (?c\<lparr>sha1_buffer := buf'\<rparr>)"
      using buf(1) unfolding sha1_update_def idx Let_def by simp
    then show ?thesis using buf(2) cnt by (auto simp: sha1_absorbed_def)
  next
    case False
    define n where "n = 64 - ?p"
    define pos where "pos = n + 64 * ((length d - n) div 64)"
    obtain buf1 where b1: "memcpy (sha1_buffer ctx) ?p d 0 n = Some buf1" "length buf1 = 64" "n \<le> length d"
      "hash_blocks sha_transform (sha_transform (sha1_state ctx) (take 64 buf1)) (drop n d) = hash_blocks sha_transform ?h0 (m @ d)"
      and rest: "\<And>buf2. length buf2 = 64 \<Longrightarrow> \<exists>buf'. memcpy buf2 0 d pos (length d - pos) = Some buf' \<and>
           buffered sha_transform ?h0 64 (m @ d) (hash_blocks sha_transform ?h0 (m @ d)) buf'"
      using buffered_long[OF b] False unfolding n_def pos_def by (metis linorder_not_less order_refl)
    note loop = sha_loop_blocks[OF b1(3), of sha_transform, folded pos_def]
    have cond: "63 < ?p + length d \<and> int (?p + length d) < 2 ^ 32" using False small by linarith
    show ?thesis
    proof (cases "?p = 0")
      case True
      then have n: "n = 64" by (simp add: n_def)
      have "take 64 buf1 = take 64 d" using memcpy_take(1)[OF b1(1)] True n by simp
      then have h: "sha_loop sha_transform d 64 (sha_transform (sha1_state ctx) (take 64 d)) = (hash_blocks sha_transform ?h0 (m @ d), pos)"
        using loop[of "sha_transform (sha1_state ctx) (take 64 d)"] b1(4) n by simp
      obtain buf' where buf: "memcpy (sha1_buffer ctx) 0 d pos (length d - pos) = Some buf'"
        "buffered sha_transform ?h0 64 (m @ d) (hash_blocks sha_transform ?h0 (m @ d)) buf'"
        using rest[of "sha1_buffer ctx"] b by (auto simp: buffered_def)
      have "sha1_update d ctx = Some (?c\<lparr>sha1_state := hash_blocks sha_transform ?h0 (m @ d), sha1_buffer := buf'\<rparr>)"
        using cond True buf(1) h unfolding sha1_update_def idx Let_def by simp
      then show ?thesis using buf(2) cnt by (auto simp: sha1_absorbed_def)
    next
      case False
      have "take 64 buf1 = buf1" using b1(2) by simp
      then have h: "sha_loop sha_transform d n (sha_transform (sha1_state ctx) buf1) = (hash_blocks sha_transform ?h0 (m @ d), pos)"
        using loop[of "sha_transform (sha1_state ctx) buf1"] b1(4) by simp
      obtain buf' where buf: "memcpy buf1 0 d pos (length d - pos) = Some buf'"
        "buffered sha_transform ?h0 64 (m @ d) (hash_blocks sha_transform ?h0 (m @ d)) buf'"
        using rest[OF b1(2)] by auto
      have "sha1_update d ctx = Some (?c\<lparr>sha1_state := hash_blocks sha_transform ?h0 (m @ d), sha1_buffer := buf'\<rparr>)"
        using cond False buf(1) b1(1) h unfolding sha1_update_def idx Let_def n_def[symmetric] by simp
      then show ?thesis using buf(2) cnt by (auto simp: sha1_absorbed_def)
    qed
  qed
qed

lemma sha_padding_bytes:
  fixes n :: nat
  shows "sha_padding (sha_padlen (n mod 64)) @ enc (of_nat (8 * n)) = pad enc n"
    "length (sha_padding (sha_padlen (n mod 64))) \<le> 64"
proof -
  define p where "p = n mod 64"
  have p: "p < 64" by (simp add: p_def)
  have "sha_padding (sha_padlen p) = 0x80 # replicate ((119 - p) mod 64) 0"
    unfolding pad_zeros[OF p] sha_padding_def sha_padlen_def using p by (auto simp: take_Cons' min_def)
  then show "sha_padding (sha_padlen (n mod 64)) @ enc (of_nat (8 * n)) = pad enc n" by (simp add: pad_def p_def)
  show "length (sha_padding (sha_padlen (n mod 64))) \<le> 64" by (simp add: sha_padding_def)
qed

lemma sha1_final_digest:
  assumes "sha1_absorbed m ctx"
  shows "\<exists>w. sha1_final ctx = Some (sha1_digest m, w)"
proof -
  let ?pad = "sha_padding (sha_padlen (length m mod 64))" and ?bits = "cpu_to_be64 (of_nat (8 * length m))"
  have idx: "unat (sha1_count ctx AND 0x3f) = length m mod 64" and c: "push_bit 3 (sha1_count ctx) = of_nat (8 * length m)"
    using assms index_of_count bit_count_words(1) by (simp_all add: sha1_absorbed_def)
  have "length ?pad < 2 ^ 29" using sha_padding_bytes(2)[of "length m"] by simp
  then obtain c1 where c1: "sha1_update ?pad ctx = Some c1" "sha1_absorbed (m @ ?pad) c1"
    using sha1_update_absorbed[OF assms] by blast
  obtain c2 where c2: "sha1_update ?bits c1 = Some c2" "sha1_absorbed ((m @ ?pad) @ ?bits) c2"
    using sha1_update_absorbed[OF c1(2), of ?bits] by auto
  have "(m @ ?pad) @ ?bits = m @ pad cpu_to_be64 (length m)" using sha_padding_bytes(1) by simp
  then have "sha1_state c2 = hash_blocks sha_transform (sha1_state sha1_init) (m @ pad cpu_to_be64 (length m))"
    using c2(2) by (simp add: sha1_absorbed_def buffered_def)
  then show ?thesis using c1(1) c2(1) unfolding sha1_final_def idx c Let_def by (simp add: sha1_digest_def)
qed

subsection \<open>SHA-224 and SHA-256\<close>

text \<open>The pair of words that holds the length in bits.\<close>

definition bit_count :: "nat \<Rightarrow> u32 \<times> u32" where
  "bit_count n = (of_nat (8 * n), of_nat (8 * n div 2 ^ 32))"

lemma unat_drop_of_nat: "unat (drop_bit i (of_nat k :: u32)) = k mod 2 ^ 32 div 2 ^ i"
  by (simp add: unat_drop_bit_eq unat_of_nat drop_bit_eq_div[where 'a = nat])

lemma sha256_index: "unat (drop_bit 3 (fst (bit_count n)) AND 0x3f) = n mod 64"
proof -
  have "drop_bit 3 (of_nat k :: u32) AND 0x3f = take_bit 6 (drop_bit 3 (of_nat k))" for k
    by (simp add: take_bit_eq_mask mask_eq_decr_exp)
  then have "unat (drop_bit 3 (fst (bit_count n)) AND 0x3f) = (8 * n) mod 2 ^ 32 div 2 ^ 3 mod 2 ^ 6"
    unfolding bit_count_def fst_conv by (simp only: unsigned_take_bit_eq unat_drop_of_nat take_bit_eq_mod[where 'a = nat])
  moreover have "(8 * n) mod 2 ^ 32 = 8 * (n mod 2 ^ 29)" using mod_mult_mult1[of 8 n "2 ^ 29"] by simp
  ultimately show ?thesis by (simp add: mod_mod_cancel)
qed

lemma add_with_carry:
  fixes a b M :: nat
  assumes "b < M"
  shows "(a + b) mod M < b \<longleftrightarrow> M \<le> a mod M + b"
    "(a + b) div M = a div M + (if M \<le> a mod M + b then 1 else 0)"
proof -
  let ?s = "a mod M + b"
  have r: "a mod M < M" using assms by simp
  have m: "(a + b) mod M = ?s mod M" by (simp only: mod_add_left_eq)
  have d: "(a + b) div M = a div M + ?s div M"
    using div_mult_self3[of M "a div M" ?s] assms by (simp add: add.assoc[symmetric])
  show "(a + b) mod M < b \<longleftrightarrow> M \<le> ?s"
  proof (cases "M \<le> ?s")
    case True
    then have "?s mod M = (?s - M) mod M" using r by (simp add: le_mod_geq)
    moreover have "?s - M < M" using r assms True by linarith
    ultimately have "?s mod M = ?s - M" by simp
    then show ?thesis using m r True by linarith
  qed (use m in auto)
  show "(a + b) div M = a div M + (if M \<le> ?s then 1 else 0)"
  proof (cases "M \<le> ?s")
    case True
    then have "?s div M = Suc ((?s - M) div M)" using r by (simp add: le_div_geq)
    moreover have "?s - M < M" using r assms True by linarith
    ultimately show ?thesis using d True by simp
  qed (use d in simp)
qed

lemma sha256_add_count_small:
  assumes "len < 2 ^ 29"
  shows "sha256_add_count (of_nat len) (bit_count n) = bit_count (n + len)"
proof -
  have l: "push_bit 3 (of_nat len :: u32) = of_nat (8 * len)" by (simp add: push_bit_eq_mult)
  have "unat (drop_bit 29 (of_nat len :: u32)) = 0" unfolding unat_drop_of_nat using assms by simp
  then have h: "drop_bit 29 (of_nat len :: u32) = 0" by (simp only: unat_eq_zero)
  have b: "8 * len < 2 ^ 32" using assms by simp
  have lt: "(of_nat (8 * n + 8 * len) :: u32) < of_nat (8 * len) \<longleftrightarrow> 2 ^ 32 \<le> 8 * n mod 2 ^ 32 + 8 * len"
    using add_with_carry(1)[OF b, of "8 * n"] b by (simp add: word_less_nat_alt unat_of_nat del: of_nat_add of_nat_mult)
  have s: "(of_nat (8 * n) :: u32) + of_nat (8 * len) = of_nat (8 * n + 8 * len)" by simp
  show ?thesis
    using lt unfolding sha256_add_count_def bit_count_def Let_def split_def fst_conv snd_conv l h s distrib_left add_with_carry(2)[OF b]
    by (auto simp del: of_nat_mult)
qed

lemma bit_count_bytes: "cpu_to_be32 (snd (bit_count n)) @ cpu_to_be32 (fst (bit_count n)) = cpu_to_be64 (of_nat (8 * n))"
proof -
  have "(ucast (drop_bit 32 (of_nat k :: u64)) :: u32) = of_nat (k div 2 ^ 32)" for k
    unfolding drop_bit_eq_div[where 'a = nat, symmetric] by (rule bit_word_eqI) (simp add: bit_simps del: drop_bit_of_nat)
  moreover have "(ucast (of_nat k :: u64) :: u32) = of_nat k" for k
    by (rule bit_word_eqI) (simp add: bit_simps)
  ultimately show ?thesis by (simp add: cpu_to_be64_def bit_count_def del: of_nat_mult)
qed

definition sha256_absorbed :: "sha256_ctx \<Rightarrow> u8 list \<Rightarrow> sha256_ctx \<Rightarrow> bool" where
  "sha256_absorbed c0 m ctx \<longleftrightarrow>
     buffered sha256_transform (sha256_state c0) 128 m (sha256_state ctx) (sha256_buf ctx) \<and> sha256_count ctx = bit_count (length m)"

definition sha256_digest :: "sha256_ctx \<Rightarrow> u8 list \<Rightarrow> u8 list" where
  "sha256_digest c0 m =
     concat (map cpu_to_be32 (hash_blocks sha256_transform (sha256_state c0) (m @ pad cpu_to_be64 (length m))))"

lemma sha256_update_buffered:
  assumes b: "buffered sha256_transform h0 128 m (sha256_state ctx) (sha256_buf ctx)"
    and idx: "unat (drop_bit 3 (fst (sha256_count ctx)) AND 0x3f) = length m mod 64"
  shows "\<exists>ctx'. sha256_update d ctx = Some ctx' \<and> buffered sha256_transform h0 128 (m @ d) (sha256_state ctx') (sha256_buf ctx') \<and>
    sha256_count ctx' = sha256_add_count (of_nat (length d)) (sha256_count ctx)"
proof -
  let ?p = "length m mod 64" and ?c = "ctx\<lparr>sha256_count := sha256_add_count (of_nat (length d)) (sha256_count ctx)\<rparr>"
  have p: "?p < 64" by simp
  show ?thesis
  proof (cases "?p + length d < 64")
    case True
    obtain buf' where buf: "memcpy (sha256_buf ctx) ?p d 0 (length d) = Some buf'"
      "buffered sha256_transform h0 128 (m @ d) (sha256_state ctx) buf'"
      using buffered_short[OF b True] by auto
    have "\<not> 64 - ?p \<le> length d" using True by linarith
    then have "sha256_update d ctx = Some (?c\<lparr>sha256_buf := buf'\<rparr>)"
      using buf(1) unfolding sha256_update_def idx Let_def by simp
    then show ?thesis using buf(2) by simp
  next
    case False
    define n where "n = 64 - ?p"
    define pos where "pos = n + 64 * ((length d - n) div 64)"
    obtain buf1 where b1: "memcpy (sha256_buf ctx) ?p d 0 n = Some buf1" "length buf1 = 128" "n \<le> length d"
      "hash_blocks sha256_transform (sha256_transform (sha256_state ctx) (take 64 buf1)) (drop n d) = hash_blocks sha256_transform h0 (m @ d)"
      and rest: "\<And>buf2. length buf2 = 128 \<Longrightarrow> \<exists>buf'. memcpy buf2 0 d pos (length d - pos) = Some buf' \<and>
           buffered sha256_transform h0 128 (m @ d) (hash_blocks sha256_transform h0 (m @ d)) buf'"
      using buffered_long[OF b] False unfolding n_def pos_def by (metis linorder_not_less numeral_le_iff semiring_norm(68,69,71))
    have h: "sha_loop sha256_transform d n (sha256_transform (sha256_state ctx) (take 64 buf1)) =
        (hash_blocks sha256_transform h0 (m @ d), pos)"
      using sha_loop_blocks[OF b1(3), of sha256_transform, folded pos_def] b1(4) by simp
    obtain buf' where buf: "memcpy buf1 0 d pos (length d - pos) = Some buf'"
      "buffered sha256_transform h0 128 (m @ d) (hash_blocks sha256_transform h0 (m @ d)) buf'"
      using rest[OF b1(2)] by auto
    have "sha256_update d ctx = Some (?c\<lparr>sha256_state := hash_blocks sha256_transform h0 (m @ d), sha256_buf := buf'\<rparr>)"
      using b1(1,3) buf(1) h unfolding sha256_update_def idx Let_def n_def[symmetric] by simp
    then show ?thesis using buf(2) by simp
  qed
qed

lemma sha256_update_absorbed:
  assumes "sha256_absorbed c0 m ctx" and "length d < 2 ^ 29"
  shows "\<exists>ctx'. sha256_update d ctx = Some ctx' \<and> sha256_absorbed c0 (m @ d) ctx'"
  using sha256_update_buffered[of "sha256_state c0" m ctx d] assms sha256_index sha256_add_count_small
  by (auto simp: sha256_absorbed_def)

lemma sha256_final_digest:
  assumes "sha256_absorbed c0 m ctx"
  shows "\<exists>w. sha256_final ctx = Some (sha256_digest c0 m, w)"
proof -
  let ?pad = "sha_padding (sha_padlen (length m mod 64))" and ?bits = "cpu_to_be64 (of_nat (8 * length m))"
  have idx: "unat (drop_bit 3 (fst (sha256_count ctx)) AND 0x3f) = length m mod 64"
    and c: "cpu_to_be32 (snd (sha256_count ctx)) @ cpu_to_be32 (fst (sha256_count ctx)) = ?bits"
    using assms sha256_index bit_count_bytes by (simp_all add: sha256_absorbed_def)
  have "length ?pad < 2 ^ 29" using sha_padding_bytes(2)[of "length m"] by simp
  then obtain c1 where c1: "sha256_update ?pad ctx = Some c1" "sha256_absorbed c0 (m @ ?pad) c1"
    using sha256_update_absorbed[OF assms] by blast
  obtain c2 where c2: "sha256_update ?bits c1 = Some c2" "sha256_absorbed c0 ((m @ ?pad) @ ?bits) c2"
    using sha256_update_absorbed[OF c1(2), of ?bits] by auto
  have "(m @ ?pad) @ ?bits = m @ pad cpu_to_be64 (length m)" using sha_padding_bytes(1) by simp
  then have "sha256_state c2 = hash_blocks sha256_transform (sha256_state c0) (m @ pad cpu_to_be64 (length m))"
    using c2(2) by (simp add: sha256_absorbed_def buffered_def)
  then show ?thesis using c1(1) c2(1) unfolding sha256_final_def idx c Let_def by (simp add: sha256_digest_def)
qed

subsection \<open>The five digests as incremental digests\<close>

interpretation md4: stream_hash md_init md4_update md4_final "2 ^ 29" "md_absorbed md4_transform" "md_digest md4_transform"
  using md_update_absorbed md_final_digest
  by unfold_locales (auto simp: md4_update_def md4_final_def md_absorbed_def md_init_def buffered_def hash_blocks_short rest_bytes_def)

interpretation md5: stream_hash md_init md5_update md5_final "2 ^ 29" "md_absorbed md5_transform" "md_digest md5_transform"
  using md_update_absorbed md_final_digest
  by unfold_locales (auto simp: md5_update_def md5_final_def md_absorbed_def md_init_def buffered_def hash_blocks_short rest_bytes_def)

interpretation sha1: stream_hash sha1_init sha1_update sha1_final "2 ^ 29" sha1_absorbed sha1_digest
  using sha1_update_absorbed sha1_final_digest
  by unfold_locales (auto simp: sha1_absorbed_def sha1_init_def buffered_def hash_blocks_short rest_bytes_def)

lemma sha256_absorbed_start: "sha256_absorbed sha256_init [] sha256_init" "sha256_absorbed sha224_init [] sha224_init"
  by (simp_all add: sha256_absorbed_def sha256_init_def sha224_init_def buffered_def hash_blocks_short rest_bytes_def bit_count_def)

interpretation sha256: stream_hash sha256_init sha256_update sha256_final "2 ^ 29" "sha256_absorbed sha256_init" "sha256_digest sha256_init"
  using sha256_update_absorbed sha256_final_digest sha256_absorbed_start by unfold_locales auto

interpretation sha224: stream_hash sha224_init sha256_update sha224_final "2 ^ 29" "sha256_absorbed sha224_init"
  "\<lambda>m. take 28 (sha256_digest sha224_init m)"
proof
  fix m ctx
  assume "sha256_absorbed sha224_init m ctx"
  then show "\<exists>w. sha224_final ctx = Some (take 28 (sha256_digest sha224_init m), w)"
    using sha256_final_digest by (fastforce simp: sha224_final_def)
qed (use sha256_update_absorbed sha256_absorbed_start in auto)

section \<open>Properties\<close>



text \<open>
  C34. The carry into the high word of the bit count of SHA-256 and SHA-224 is added only when the low word wraps, so an
  update of half a gigabyte or more as the first one succeeds and leaves a count that is not the number of bits
  hashed: its high word stays zero.
\<close>

theorem sha256_count_lost:
  assumes "2 ^ 29 \<le> length d" and "length d < 2 ^ 31"
  shows "\<exists>ctx. sha256_update d sha256_init = Some ctx \<and> sha256_count ctx = (of_nat (8 * length d), 0) \<and>
    sha256_count ctx \<noteq> bit_count (length d)"
proof -
  obtain ctx where ctx: "sha256_update d sha256_init = Some ctx" "sha256_count ctx = sha256_add_count (of_nat (length d)) (bit_count 0)"
    using sha256_update_buffered[of "sha256_state sha256_init" "[]" sha256_init d] sha256_absorbed_start(1) sha256_index[of 0]
    by (auto simp: sha256_absorbed_def)
  have "sha256_count ctx = (of_nat (8 * length d), 0)"
    using ctx(2) by (simp add: sha256_add_count_def bit_count_def push_bit_eq_mult)
  moreover have "8 * length d div 2 ^ 32 \<noteq> 0" "8 * length d div 2 ^ 32 < 2 ^ 32" using assms by (auto simp: div_eq_0_iff)
  then have "(of_nat (8 * length d div 2 ^ 32) :: u32) \<noteq> 0" by (simp only: word_of_nat_eq_0_iff) (auto dest: nat_dvd_not_less)
  ultimately show ?thesis using ctx(1) by (simp add: bit_count_def)
qed

theorem sha256_count_lost_witness:
  "\<exists>ctx. sha256_update (replicate (2 ^ 29) 0x61) sha256_init = Some ctx \<and> sha256_count ctx = (of_nat (8 * 2 ^ 29), 0) \<and>
    sha256_count ctx \<noteq> bit_count (2 ^ 29)"
  using sha256_count_lost[of "replicate (2 ^ 29) 0x61"] unfolding length_replicate by simp

end
