(* ===== verification/File_Locks.thy ===== *)
theory File_Locks
  imports Kernel_Prelude
begin

unbundle bit_operations_syntax

text \<open>
  File locks, \<^verbatim>\<open>fs/locks.c\<close>: the POSIX byte-range locks of \<^verbatim>\<open>fcntl\<close> and the whole-file locks of \<^verbatim>\<open>flock\<close>. The locks of
  an inode are the list \<^verbatim>\<open>i_flock\<close>; a lock is known by its address \<open>fl_id\<close>, and a pointer to a lock of an inode is the
  inode together with that address. A lock that waits for another one is in the list \<^verbatim>\<open>fl_block\<close> of the latter,
  which its \<^verbatim>\<open>fl_next\<close> points to, and sleeps until \<^verbatim>\<open>fl_next\<close> is cleared. The big kernel lock makes every
  function below one critical section. Locks made here have no lock manager (\<^verbatim>\<open>fl_lmops\<close> is \<^verbatim>\<open>NULL\<close>), so
  \<^verbatim>\<open>posix_same_owner\<close> compares \<^verbatim>\<open>fl_owner\<close>. The list behind \<^verbatim>\<open>/proc/locks\<close> is output only and left out.
\<close>

section \<open>Model\<close>

definition FL_POSIX :: u8 where "FL_POSIX = 1"
definition FL_FLOCK :: u8 where "FL_FLOCK = 2"
definition FL_ACCESS :: u8 where "FL_ACCESS = 8"
definition FL_EXISTS :: u8 where "FL_EXISTS = 16"
definition FL_LEASE :: u8 where "FL_LEASE = 32"
definition FL_CLOSE :: u8 where "FL_CLOSE = 64"
definition FL_SLEEP :: u8 where "FL_SLEEP = 128"

definition F_RDLCK :: u8 where "F_RDLCK = 0"
definition F_WRLCK :: u8 where "F_WRLCK = 1"
definition F_UNLCK :: u8 where "F_UNLCK = 2"
definition LOCK_MAND :: u8 where "LOCK_MAND = 32"

definition OFFSET_MAX :: int where "OFFSET_MAX = 2 ^ 63 - 1"
definition OFFT_OFFSET_MAX :: int where "OFFT_OFFSET_MAX = 2 ^ 31 - 1"

text \<open>\<^verbatim>\<open>fl_start\<close> and \<^verbatim>\<open>fl_end\<close> are 64-bit; between 0 and \<^verbatim>\<open>OFFSET_MAX\<close> the sums below stay in range.\<close>

record file_lock =
  fl_id :: nat
  fl_owner :: nat
  fl_pid :: nat
  fl_file :: "nat option"
  fl_flags :: u8
  fl_type :: u8
  fl_start :: int
  fl_end :: int

definition IS_POSIX :: "file_lock \<Rightarrow> bool" where "IS_POSIX fl \<longleftrightarrow> fl_flags fl AND FL_POSIX \<noteq> 0"
definition IS_FLOCK :: "file_lock \<Rightarrow> bool" where "IS_FLOCK fl \<longleftrightarrow> fl_flags fl AND FL_FLOCK \<noteq> 0"
definition IS_LEASE :: "file_lock \<Rightarrow> bool" where "IS_LEASE fl \<longleftrightarrow> fl_flags fl AND FL_LEASE \<noteq> 0"

record lock_state =
  i_flock :: "nat \<Rightarrow> file_lock list"
  fl_block :: "nat \<Rightarrow> nat list"
  fl_next :: "nat \<Rightarrow> (nat \<times> nat) option"
  blocked_list :: "file_lock list"

subsection \<open>Conflicts\<close>

definition locks_overlap :: "file_lock \<Rightarrow> file_lock \<Rightarrow> bool" where
  "locks_overlap fl1 fl2 \<longleftrightarrow> fl_end fl1 \<ge> fl_start fl2 \<and> fl_end fl2 \<ge> fl_start fl1"

definition posix_same_owner :: "file_lock \<Rightarrow> file_lock \<Rightarrow> bool" where
  "posix_same_owner fl1 fl2 \<longleftrightarrow> fl_owner fl1 = fl_owner fl2"

definition locks_conflict :: "file_lock \<Rightarrow> file_lock \<Rightarrow> bool" where
  "locks_conflict caller_fl sys_fl \<longleftrightarrow>
     (if fl_type sys_fl = F_WRLCK then True else if fl_type caller_fl = F_WRLCK then True else False)"

definition posix_locks_conflict :: "file_lock \<Rightarrow> file_lock \<Rightarrow> bool" where
  "posix_locks_conflict caller_fl sys_fl \<longleftrightarrow>
     (if \<not> IS_POSIX sys_fl \<or> posix_same_owner caller_fl sys_fl then False
      else if \<not> locks_overlap caller_fl sys_fl then False
      else locks_conflict caller_fl sys_fl)"

definition flock_locks_conflict :: "file_lock \<Rightarrow> file_lock \<Rightarrow> bool" where
  "flock_locks_conflict caller_fl sys_fl \<longleftrightarrow>
     (if \<not> IS_FLOCK sys_fl \<or> fl_file caller_fl = fl_file sys_fl then False
      else if fl_type caller_fl AND LOCK_MAND \<noteq> 0 \<or> fl_type sys_fl AND LOCK_MAND \<noteq> 0 then False
      else locks_conflict caller_fl sys_fl)"

text \<open>\<^verbatim>\<open>__locks_copy_lock\<close> and \<^verbatim>\<open>locks_copy_lock\<close> leave the identity of the target.\<close>

definition do_locks_copy_lock :: "file_lock \<Rightarrow> file_lock \<Rightarrow> file_lock" where
  "do_locks_copy_lock new fl =
     new\<lparr>fl_owner := fl_owner fl, fl_pid := fl_pid fl, fl_file := None, fl_flags := fl_flags fl, fl_type := fl_type fl,
         fl_start := fl_start fl, fl_end := fl_end fl\<rparr>"

definition locks_copy_lock :: "file_lock \<Rightarrow> file_lock \<Rightarrow> file_lock" where
  "locks_copy_lock new fl = (do_locks_copy_lock new fl)\<lparr>fl_file := fl_file fl\<rparr>"

text \<open>\<^verbatim>\<open>locks_init_lock\<close>, for the object at address \<open>a\<close> that the cache hands out.\<close>

definition locks_init_lock :: "nat \<Rightarrow> file_lock" where
  "locks_init_lock a = \<lparr>fl_id = a, fl_owner = 0, fl_pid = 0, fl_file = None, fl_flags = 0, fl_type = 0, fl_start = 0, fl_end = 0\<rparr>"

text \<open>\<^verbatim>\<open>posix_test_lock\<close>; with one pid namespace \<^verbatim>\<open>pid_vnr\<close> of the recorded task is the \<^verbatim>\<open>fl_pid\<close> already copied.\<close>

definition posix_test_lock :: "nat \<Rightarrow> file_lock \<Rightarrow> lock_state \<Rightarrow> file_lock" where
  "posix_test_lock inode fl s =
     (case find (\<lambda>cfl. IS_POSIX cfl \<and> posix_locks_conflict fl cfl) (i_flock s inode) of
        Some cfl \<Rightarrow> do_locks_copy_lock fl cfl
      | None \<Rightarrow> fl\<lparr>fl_type := F_UNLCK\<rparr>)"

subsection \<open>Waiting\<close>

definition locks_delete_block :: "nat \<Rightarrow> lock_state \<Rightarrow> lock_state" where
  "locks_delete_block waiter s =
     s\<lparr>fl_block := (\<lambda>b. removeAll waiter (fl_block s b)),
       blocked_list := filter (\<lambda>fl. fl_id fl \<noteq> waiter) (blocked_list s),
       fl_next := (fl_next s)(waiter := None)\<rparr>"

text \<open>The \<^verbatim>\<open>BUG_ON\<close>: the waiter is linked to a blocker already, or is a blocker itself.\<close>

definition locks_insert_block :: "nat \<Rightarrow> file_lock \<Rightarrow> file_lock \<Rightarrow> lock_state \<Rightarrow> lock_state kresult" where
  "locks_insert_block inode blocker waiter s =
     (if fl_next s (fl_id waiter) \<noteq> None \<or> fl_block s (fl_id waiter) \<noteq> [] then Bug
      else Ok (s\<lparr>fl_block := (fl_block s)(fl_id blocker := fl_block s (fl_id blocker) @ [fl_id waiter]),
                 fl_next := (fl_next s)(fl_id waiter \<mapsto> (inode, fl_id blocker)),
                 blocked_list := (if IS_POSIX blocker then waiter # blocked_list s else blocked_list s)\<rparr>))"

text \<open>Each round takes the first waiter off the list.\<close>

definition locks_wake_up_blocks :: "nat \<Rightarrow> lock_state \<Rightarrow> lock_state" where
  "locks_wake_up_blocks blocker s = fold locks_delete_block (fl_block s blocker) s"

text \<open>A pointer to a lock of an inode.\<close>

definition lock_ref :: "lock_state \<Rightarrow> nat \<times> nat \<Rightarrow> file_lock option" where
  "lock_ref s p = find (\<lambda>fl. fl_id fl = snd p) (i_flock s (fst p))"

definition MAX_DEADLK_ITERATIONS :: nat where "MAX_DEADLK_ITERATIONS = 10"

definition what_owner_is_waiting_for :: "lock_state \<Rightarrow> file_lock \<Rightarrow> file_lock option kresult" where
  "what_owner_is_waiting_for s block_fl =
     (case find (\<lambda>fl. posix_same_owner fl block_fl) (blocked_list s) of
        None \<Rightarrow> Ok None
      | Some fl \<Rightarrow>
          (case fl_next s (fl_id fl) of
             None \<Rightarrow> Ok None
           | Some p \<Rightarrow> (case lock_ref s p of None \<Rightarrow> Bug | Some b \<Rightarrow> Ok (Some b))))"

text \<open>The loop, with the counter \<open>i\<close>; it ends because the counter is bounded.\<close>

function deadlock_loop :: "lock_state \<Rightarrow> file_lock \<Rightarrow> nat \<Rightarrow> file_lock \<Rightarrow> bool kresult" where
  "deadlock_loop s caller_fl i block_fl =
     (case what_owner_is_waiting_for s block_fl of
        Bug \<Rightarrow> Bug
      | Err e \<Rightarrow> Err e
      | Ok None \<Rightarrow> Ok False
      | Ok (Some block_fl) \<Rightarrow>
          if i > MAX_DEADLK_ITERATIONS then Ok False
          else if posix_same_owner caller_fl block_fl then Ok True
          else deadlock_loop s caller_fl (i + 1) block_fl)"
  by pat_completeness auto
termination by (relation "measure (\<lambda>(s, c, i, b). Suc MAX_DEADLK_ITERATIONS - i)") auto

definition posix_locks_deadlock :: "lock_state \<Rightarrow> file_lock \<Rightarrow> file_lock \<Rightarrow> bool kresult" where
  "posix_locks_deadlock s caller_fl block_fl = deadlock_loop s caller_fl 0 block_fl"

subsection \<open>POSIX locks\<close>

text \<open>
  The walk over the locks of the owner in \<^verbatim>\<open>__posix_lock_file\<close>. \<^verbatim>\<open>request\<close> points to the caller's lock at first and
  to a lock of the list, at address \<open>pw_at\<close>, once it has been merged into that one; \<open>pw_req\<close> is what it points to.
  The caller's lock, which no caller reads again, is not followed any further then.
\<close>

record posix_walk =
  pw_req :: file_lock
  pw_at :: "nat option"
  pw_added :: bool
  pw_left :: "file_lock option"
  pw_right :: "file_lock option"

definition set_range :: "nat \<Rightarrow> int \<Rightarrow> int \<Rightarrow> file_lock list \<Rightarrow> file_lock list" where
  "set_range a st en = map (\<lambda>fl. if fl_id fl = a then fl\<lparr>fl_start := st, fl_end := en\<rparr> else fl)"

text \<open>
  \<open>pre\<close> are the locks that \<^verbatim>\<open>before\<close> has passed, the next argument those it has not; the result is the two parts
  when the walk stops.
\<close>

fun walk_locks :: "file_lock list \<Rightarrow> file_lock list \<Rightarrow> posix_walk \<Rightarrow> lock_state \<Rightarrow>
    file_lock list \<times> file_lock list \<times> posix_walk \<times> lock_state" where
  "walk_locks pre [] w s = (pre, [], w, s)"
| "walk_locks pre (fl # fls) w s =
     (let req = pw_req w in
      if \<not> posix_same_owner req fl then (pre, fl # fls, w, s)
      else if fl_type req = fl_type fl then
        if fl_end fl < fl_start req - 1 then walk_locks (pre @ [fl]) fls w s
        else if fl_start fl - 1 > fl_end req then (pre, fl # fls, w, s)
        else
          let st = (if fl_start fl > fl_start req then fl_start req else fl_start fl);
              en = (if fl_end fl < fl_end req then fl_end req else fl_end fl);
              pre = (case pw_at w of None \<Rightarrow> pre | Some a \<Rightarrow> set_range a st en pre)
          in if pw_added w then
               walk_locks pre fls (w\<lparr>pw_req := req\<lparr>fl_start := st, fl_end := en\<rparr>\<rparr>) (locks_wake_up_blocks (fl_id fl) s)
             else
               let fl = fl\<lparr>fl_start := st, fl_end := en\<rparr>
               in walk_locks (pre @ [fl]) fls (w\<lparr>pw_req := fl, pw_at := Some (fl_id fl), pw_added := True\<rparr>) s
      else if fl_end fl < fl_start req then walk_locks (pre @ [fl]) fls w s
      else if fl_start fl > fl_end req then (pre, fl # fls, w, s)
      else
        let w = (if fl_type req = F_UNLCK then w\<lparr>pw_added := True\<rparr> else w);
            w = (if fl_start fl < fl_start req then w\<lparr>pw_left := Some fl\<rparr> else w)
        in if fl_end fl > fl_end req then (pre, fl # fls, w\<lparr>pw_right := Some fl\<rparr>, s)
           else if fl_start fl \<ge> fl_start req then
             if pw_added w then walk_locks pre fls w (locks_wake_up_blocks (fl_id fl) s)
             else
               let s = locks_wake_up_blocks (fl_id fl) s;
                   fl = fl\<lparr>fl_start := fl_start req, fl_end := fl_end req, fl_type := fl_type req\<rparr>
               in walk_locks (pre @ [fl]) fls (w\<lparr>pw_req := fl, pw_at := Some (fl_id fl), pw_added := True\<rparr>) s
           else walk_locks (pre @ [fl]) fls w s)"

text \<open>
  What follows the walk: the new lock and the second half of a split lock go in at \<^verbatim>\<open>before\<close>, between the two parts, and
  the neighbours are cut. \<open>new_fl\<close> and \<open>new_fl2\<close> are the addresses of the locks allocated in advance, if any.
\<close>

definition set_start :: "nat \<Rightarrow> int \<Rightarrow> file_lock list \<Rightarrow> file_lock list" where
  "set_start a st = map (\<lambda>fl. if fl_id fl = a then fl\<lparr>fl_start := st\<rparr> else fl)"

definition set_end :: "nat \<Rightarrow> int \<Rightarrow> file_lock list \<Rightarrow> file_lock list" where
  "set_end a en = map (\<lambda>fl. if fl_id fl = a then fl\<lparr>fl_end := en\<rparr> else fl)"

definition same_lock :: "file_lock option \<Rightarrow> file_lock option \<Rightarrow> bool" where
  "same_lock a b \<longleftrightarrow> map_option fl_id a = map_option fl_id b"

definition finish_locks :: "nat option \<Rightarrow> nat option \<Rightarrow> file_lock list \<Rightarrow> file_lock list \<Rightarrow> posix_walk \<Rightarrow> lock_state \<Rightarrow>
    file_lock list \<times> errno option \<times> lock_state" where
  "finish_locks new_fl new_fl2 pre suf w s =
     (let req = pw_req w; left = pw_left w; right = pw_right w in
      if right \<noteq> None \<and> same_lock left right \<and> new_fl2 = None then (pre @ suf, Some ENOLCK, s)
      else if \<not> pw_added w \<and> fl_type req = F_UNLCK then
        (pre @ suf, if fl_flags req AND FL_EXISTS \<noteq> 0 then Some ENOENT else None, s)
      else if \<not> pw_added w \<and> new_fl = None then (pre @ suf, Some ENOLCK, s)
      else
        let ins = (if \<not> pw_added w then [locks_copy_lock (locks_init_lock (the new_fl)) req] else []);
            (ins, left) =
              (case right of
                 Some r \<Rightarrow>
                   if same_lock left right then
                     let l = locks_copy_lock (locks_init_lock (the new_fl2)) r in (l # ins, Some l)
                   else (ins, left)
               | None \<Rightarrow> (ins, left));
            L = pre @ ins @ suf;
            (L, s) =
              (case right of
                 Some r \<Rightarrow> (set_start (fl_id r) (fl_end req + 1) L, locks_wake_up_blocks (fl_id r) s)
               | None \<Rightarrow> (L, s));
            (L, s) =
              (case left of
                 Some l \<Rightarrow> (set_end (fl_id l) (fl_start req - 1) L, locks_wake_up_blocks (fl_id l) s)
               | None \<Rightarrow> (L, s))
        in (L, None, s))"

text \<open>Setting or removing a lock: skip the locks of others, walk over those of the owner, finish.\<close>

definition apply_lock :: "nat option \<Rightarrow> nat option \<Rightarrow> file_lock \<Rightarrow> file_lock list \<Rightarrow> lock_state \<Rightarrow>
    file_lock list \<times> errno option \<times> lock_state" where
  "apply_lock new_fl new_fl2 request L s =
     (let other = (\<lambda>fl. \<not> IS_POSIX fl \<or> \<not> posix_same_owner request fl);
          (pre, suf, w, s) = walk_locks (takeWhile other L) (dropWhile other L)
            \<lparr>pw_req = request, pw_at = None, pw_added = False, pw_left = None, pw_right = None\<rparr> s
      in finish_locks new_fl new_fl2 pre suf w s)"

text \<open>\<^verbatim>\<open>__posix_lock_file\<close>: the new state, the error, and the conflicting lock for \<^verbatim>\<open>conflock\<close>.\<close>

definition do_posix_lock_file :: "nat \<Rightarrow> nat option \<Rightarrow> nat option \<Rightarrow> file_lock \<Rightarrow> lock_state \<Rightarrow>
    (lock_state \<times> errno option \<times> file_lock option) kresult" where
  "do_posix_lock_file inode mem mem2 request s =
     (let need = fl_flags request AND FL_ACCESS = 0 \<and>
            (fl_type request \<noteq> F_UNLCK \<or> fl_start request \<noteq> 0 \<or> fl_end request \<noteq> OFFSET_MAX);
          new_fl = (if need then mem else None); new_fl2 = (if need then mem2 else None);
          conflict = (if fl_type request \<noteq> F_UNLCK
            then find (\<lambda>fl. IS_POSIX fl \<and> posix_locks_conflict request fl) (i_flock s inode) else None)
      in case conflict of
           Some fl \<Rightarrow>
             if fl_flags request AND FL_SLEEP = 0 then Ok (s, Some EAGAIN, Some fl)
             else
               (case posix_locks_deadlock s request fl of
                  Bug \<Rightarrow> Bug
                | Err e \<Rightarrow> Err e
                | Ok True \<Rightarrow> Ok (s, Some EDEADLK, Some fl)
                | Ok False \<Rightarrow>
                    (case locks_insert_block inode fl request s of
                       Bug \<Rightarrow> Bug | Err e \<Rightarrow> Err e | Ok s \<Rightarrow> Ok (s, Some EAGAIN, Some fl)))
         | None \<Rightarrow>
             if fl_flags request AND FL_ACCESS \<noteq> 0 then Ok (s, None, None)
             else
               (case apply_lock new_fl new_fl2 request (i_flock s inode) s of
                  (L, error, s) \<Rightarrow> Ok (s\<lparr>i_flock := (i_flock s)(inode := L)\<rparr>, error, None)))"

definition locks_remove_posix :: "nat \<Rightarrow> nat \<Rightarrow> nat \<Rightarrow> nat \<Rightarrow> lock_state \<Rightarrow> lock_state kresult" where
  "locks_remove_posix inode filp owner tgid s =
     (if i_flock s inode = [] then Ok s
      else
        (case do_posix_lock_file inode None None
            \<lparr>fl_id = 0, fl_owner = owner, fl_pid = tgid, fl_file = Some filp, fl_flags = FL_POSIX OR FL_CLOSE,
             fl_type = F_UNLCK, fl_start = 0, fl_end = OFFSET_MAX\<rparr> s of
           Ok (s, e, c) \<Rightarrow> Ok s | Err e \<Rightarrow> Err e | Bug \<Rightarrow> Bug))"

subsection \<open>Whole-file locks\<close>

text \<open>
  \<^verbatim>\<open>flock_lock_file\<close> is cut in two where it may drop the kernel lock (\<^verbatim>\<open>cond_resched_bkl\<close>, after an old lock of the file
  has been deleted). The first half looks for the lock the file has already; it ends the call or goes on, with the
  new lock allocated and with \<^verbatim>\<open>found\<close>. The locks are searched up to the first POSIX lock.
\<close>

fun flock_old_lock :: "nat option \<Rightarrow> file_lock list \<Rightarrow> file_lock option" where
  "flock_old_lock filp [] = None"
| "flock_old_lock filp (fl # fls) =
     (if IS_POSIX fl then None
      else if IS_LEASE fl then flock_old_lock filp fls
      else if filp \<noteq> fl_file fl then flock_old_lock filp fls
      else Some fl)"

fun flock_find_conflict :: "file_lock \<Rightarrow> file_lock list \<Rightarrow> file_lock option" where
  "flock_find_conflict request [] = None"
| "flock_find_conflict request (fl # fls) =
     (if IS_POSIX fl then None
      else if IS_LEASE fl then flock_find_conflict request fls
      else if \<not> flock_locks_conflict request fl then flock_find_conflict request fls
      else Some fl)"

definition locks_delete_lock :: "nat \<Rightarrow> nat \<Rightarrow> lock_state \<Rightarrow> lock_state" where
  "locks_delete_lock inode a s =
     locks_wake_up_blocks a (s\<lparr>i_flock := (i_flock s)(inode := filter (\<lambda>fl. fl_id fl \<noteq> a) (i_flock s inode))\<rparr>)"

datatype flock_progress = Flock_done "errno option" | Flock_continue bool

definition flock_first_half :: "nat \<Rightarrow> nat option \<Rightarrow> file_lock \<Rightarrow> lock_state \<Rightarrow> lock_state \<times> flock_progress" where
  "flock_first_half inode new_fl request s =
     (if fl_flags request AND FL_ACCESS \<noteq> 0 then (s, Flock_continue False)
      else if fl_type request \<noteq> F_UNLCK \<and> new_fl = None then (s, Flock_done (Some ENOMEM))
      else
        let old = flock_old_lock (fl_file request) (i_flock s inode) in
        if \<exists>fl \<in> set_option old. fl_type request = fl_type fl then (s, Flock_done None)
        else
          let s = (case old of None \<Rightarrow> s | Some fl \<Rightarrow> locks_delete_lock inode (fl_id fl) s) in
          if fl_type request = F_UNLCK then
            (s, Flock_done (if fl_flags request AND FL_EXISTS \<noteq> 0 \<and> old = None then Some ENOENT else None))
          else (s, Flock_continue (old \<noteq> None)))"

text \<open>The second half, from the label \<^verbatim>\<open>find_conflict\<close>.\<close>

definition flock_second_half :: "nat \<Rightarrow> nat \<Rightarrow> file_lock \<Rightarrow> lock_state \<Rightarrow> (lock_state \<times> errno option) kresult" where
  "flock_second_half inode new_fl request s =
     (case flock_find_conflict request (i_flock s inode) of
        Some fl \<Rightarrow>
          if fl_flags request AND FL_SLEEP \<noteq> 0 then
            (case locks_insert_block inode fl request s of
               Bug \<Rightarrow> Bug | Err e \<Rightarrow> Err e | Ok s \<Rightarrow> Ok (s, Some EAGAIN))
          else Ok (s, Some EAGAIN)
      | None \<Rightarrow>
          if fl_flags request AND FL_ACCESS \<noteq> 0 then Ok (s, None)
          else
            let L = i_flock s inode; fl = locks_copy_lock (locks_init_lock new_fl) request in
            Ok (s\<lparr>i_flock := (i_flock s)(inode := takeWhile (\<lambda>l. \<not> IS_POSIX l) L @ [fl] @ dropWhile (\<lambda>l. \<not> IS_POSIX l) L)\<rparr>, None))"

text \<open>The call when nobody runs in between.\<close>

definition flock_lock_file :: "nat \<Rightarrow> nat option \<Rightarrow> file_lock \<Rightarrow> lock_state \<Rightarrow> (lock_state \<times> errno option) kresult" where
  "flock_lock_file inode new_fl request s =
     (case flock_first_half inode new_fl request s of
        (s, Flock_done e) \<Rightarrow> Ok (s, e)
      | (s, Flock_continue found) \<Rightarrow> flock_second_half inode (case new_fl of None \<Rightarrow> 0 | Some a \<Rightarrow> a) request s)"

text \<open>\<^verbatim>\<open>locks_remove_flock\<close> for a file system without a \<^verbatim>\<open>flock\<close> operation; \<open>lease_modify\<close> to \<^verbatim>\<open>F_UNLCK\<close> wakes and deletes.\<close>

definition locks_remove_flock :: "nat \<Rightarrow> nat \<Rightarrow> lock_state \<Rightarrow> lock_state kresult" where
  "locks_remove_flock inode filp s =
     (let mine = filter (\<lambda>fl. fl_file fl = Some filp) (i_flock s inode) in
      if \<exists>fl \<in> set mine. \<not> IS_FLOCK fl \<and> \<not> IS_LEASE fl then Bug
      else Ok (fold (\<lambda>fl. locks_delete_lock inode (fl_id fl)) mine s))"

definition LOCK_SH :: int where "LOCK_SH = 1"
definition LOCK_EX :: int where "LOCK_EX = 2"
definition LOCK_UN :: int where "LOCK_UN = 8"
definition LOCK_RW :: int where "LOCK_RW = 192"

definition flock_translate_cmd :: "int \<Rightarrow> int kresult" where
  "flock_translate_cmd cmd =
     (if cmd AND 32 \<noteq> 0 then Ok (cmd AND (32 OR LOCK_RW))
      else if cmd = LOCK_SH then Ok 0 else if cmd = LOCK_EX then Ok 1 else if cmd = LOCK_UN then Ok 2
      else Err EINVAL)"

definition flock_make_lock :: "nat option \<Rightarrow> nat \<Rightarrow> nat \<Rightarrow> int \<Rightarrow> file_lock kresult" where
  "flock_make_lock mem filp tgid cmd =
     (case flock_translate_cmd cmd of
        Bug \<Rightarrow> Bug
      | Err e \<Rightarrow> Err e
      | Ok ty \<Rightarrow>
          (case mem of
             None \<Rightarrow> Err ENOMEM
           | Some a \<Rightarrow> Ok ((locks_init_lock a)\<lparr>fl_file := Some filp, fl_pid := tgid, fl_flags := FL_FLOCK, fl_type := word_of_int ty,
               fl_end := OFFSET_MAX\<rparr>)))"

subsection \<open>The system call interface of \<^verbatim>\<open>fcntl\<close>\<close>

text \<open>
  \<^verbatim>\<open>struct flock\<close>, whose offsets are 32-bit \<^verbatim>\<open>off_t\<close>, and \<^verbatim>\<open>struct flock64\<close> with 64-bit \<^verbatim>\<open>loff_t\<close>; \<open>off_t\<close> and \<open>loff_t\<close> bring an
  integer into range as the machine does.
\<close>

record flock =
  l_type :: int
  l_whence :: int
  l_start :: int
  l_len :: int
  l_pid :: nat

definition off_t :: "int \<Rightarrow> int" where "off_t x = sint (word_of_int x :: u32)"
definition loff_t :: "int \<Rightarrow> int" where "loff_t x = sint (word_of_int x :: u64)"

definition assign_type :: "file_lock \<Rightarrow> int \<Rightarrow> file_lock kresult" where
  "assign_type fl ty = (if ty \<in> {0, 1, 2} then Ok (fl\<lparr>fl_type := word_of_int ty\<rparr>) else Err EINVAL)"

text \<open>
  Both conversions compute in the type of the offsets, \<open>narrow\<close>. \<open>pos\<close> and \<open>isize\<close> are the file position and the size of the
  file, \<open>files\<close> and \<open>tgid\<close> those of the current task.
\<close>

definition to_posix_lock :: "(int \<Rightarrow> int) \<Rightarrow> int \<Rightarrow> int \<Rightarrow> nat \<Rightarrow> nat \<Rightarrow> nat \<Rightarrow> file_lock \<Rightarrow> flock \<Rightarrow> file_lock kresult" where
  "to_posix_lock narrow pos isize filp files tgid fl l =
     (if l_whence l \<notin> {0, 1, 2} then Err EINVAL
      else
        let start = narrow (if l_whence l = 0 then 0 else if l_whence l = 1 then pos else isize);
            start = narrow (start + l_start l)
        in if start < 0 then Err EINVAL
           else
             let fin = (if l_len l > 0 then narrow (narrow (start + l_len l) - 1)
                        else if l_len l < 0 then narrow (start - 1) else OFFSET_MAX);
                 start = (if l_len l < 0 then narrow (start + l_len l) else start)
             in if start < 0 then Err EINVAL
                else if fin < start then Err EOVERFLOW
                else assign_type (fl\<lparr>fl_start := start, fl_end := fin, fl_owner := files, fl_pid := tgid, fl_file := Some filp,
                  fl_flags := FL_POSIX\<rparr>) (l_type l))"

definition flock_to_posix_lock :: "int \<Rightarrow> int \<Rightarrow> nat \<Rightarrow> nat \<Rightarrow> nat \<Rightarrow> file_lock \<Rightarrow> flock \<Rightarrow> file_lock kresult" where
  "flock_to_posix_lock = to_posix_lock off_t"

definition flock64_to_posix_lock :: "int \<Rightarrow> int \<Rightarrow> nat \<Rightarrow> nat \<Rightarrow> nat \<Rightarrow> file_lock \<Rightarrow> flock \<Rightarrow> file_lock kresult" where
  "flock64_to_posix_lock = to_posix_lock loff_t"

definition posix_lock_to_flock64 :: "flock \<Rightarrow> file_lock \<Rightarrow> flock" where
  "posix_lock_to_flock64 flock fl =
     flock\<lparr>l_pid := fl_pid fl, l_start := fl_start fl,
       l_len := (if fl_end fl = OFFSET_MAX then 0 else loff_t (fl_end fl - fl_start fl + 1)), l_whence := 0, l_type := uint (fl_type fl)\<rparr>"

definition posix_lock_to_flock :: "flock \<Rightarrow> file_lock \<Rightarrow> flock kresult" where
  "posix_lock_to_flock flock fl =
     (if fl_start fl > OFFT_OFFSET_MAX then Err EOVERFLOW
      else if fl_end fl \<noteq> OFFSET_MAX \<and> fl_end fl > OFFT_OFFSET_MAX then Err EOVERFLOW
      else Ok (flock\<lparr>l_pid := fl_pid fl, l_start := off_t (fl_start fl),
        l_len := (if fl_end fl = OFFSET_MAX then 0 else off_t (fl_end fl - fl_start fl + 1)), l_whence := 0, l_type := uint (fl_type fl)\<rparr>))"

text \<open>\<^verbatim>\<open>F_GETLK\<close>, without the copies from and to user space, on a file system without a \<^verbatim>\<open>lock\<close> operation.\<close>

definition fcntl_getlk :: "nat \<Rightarrow> int \<Rightarrow> int \<Rightarrow> nat \<Rightarrow> nat \<Rightarrow> nat \<Rightarrow> flock \<Rightarrow> lock_state \<Rightarrow> flock kresult" where
  "fcntl_getlk inode pos isize filp files tgid flock s =
     (if l_type flock \<noteq> 0 \<and> l_type flock \<noteq> 1 then Err EINVAL
      else
        (case flock_to_posix_lock pos isize filp files tgid (locks_init_lock 0) flock of
           Bug \<Rightarrow> Bug
         | Err e \<Rightarrow> Err e
         | Ok fl \<Rightarrow>
             let fl = posix_test_lock inode fl s; flock = flock\<lparr>l_type := uint (fl_type fl)\<rparr>
             in if fl_type fl \<noteq> F_UNLCK then posix_lock_to_flock flock fl else Ok flock))"

definition fcntl_getlk64 :: "nat \<Rightarrow> int \<Rightarrow> int \<Rightarrow> nat \<Rightarrow> nat \<Rightarrow> nat \<Rightarrow> flock \<Rightarrow> lock_state \<Rightarrow> flock kresult" where
  "fcntl_getlk64 inode pos isize filp files tgid flock s =
     (if l_type flock \<noteq> 0 \<and> l_type flock \<noteq> 1 then Err EINVAL
      else
        (case flock64_to_posix_lock pos isize filp files tgid (locks_init_lock 0) flock of
           Bug \<Rightarrow> Bug
         | Err e \<Rightarrow> Err e
         | Ok fl \<Rightarrow>
             let fl = posix_test_lock inode fl s; flock = flock\<lparr>l_type := uint (fl_type fl)\<rparr>
             in if fl_type fl \<noteq> F_UNLCK then Ok (posix_lock_to_flock64 flock fl) else Ok flock))"

text \<open>
  \<^verbatim>\<open>F_SETLK\<close> and \<^verbatim>\<open>F_SETLKW\<close>. A call returns or sleeps with its request in a queue; when it wakes it goes on with \<open>setlk_wake\<close>. The record
  is what stays the same during the call: the file, the task, and \<open>c_security\<close>, the verdict of the security module on a type.
\<close>

datatype lock_progress = Lock_return "errno option" | Lock_sleep file_lock

record setlk_call =
  c_inode :: nat
  c_filp :: nat
  c_files :: nat
  c_tgid :: nat
  c_wait :: bool
  c_readable :: bool
  c_writable :: bool
  c_security :: "u8 \<Rightarrow> errno option"

definition setlk_request :: "setlk_call \<Rightarrow> flock \<Rightarrow> file_lock \<Rightarrow> file_lock kresult" where
  "setlk_request cl flock fl =
     (let fl = (if c_wait cl then fl\<lparr>fl_flags := fl_flags fl OR FL_SLEEP\<rparr> else fl) in
      if l_type flock = 0 \<and> \<not> c_readable cl then Err EBADF
      else if l_type flock = 1 \<and> \<not> c_writable cl then Err EBADF
      else if l_type flock \<notin> {0, 1, 2} then Err EINVAL
      else case c_security cl (fl_type fl) of Some e \<Rightarrow> Err e | None \<Rightarrow> Ok fl)"

text \<open>One round of the loop around \<^verbatim>\<open>posix_lock_file\<close>; \<open>mems\<close> are the two locks allocated inside it.\<close>

definition setlk_lock :: "setlk_call \<Rightarrow> nat option \<times> nat option \<Rightarrow> file_lock \<Rightarrow> lock_state \<Rightarrow> (lock_state \<times> lock_progress) kresult" where
  "setlk_lock cl mems fl s =
     (case do_posix_lock_file (c_inode cl) (fst mems) (snd mems) fl s of
        Bug \<Rightarrow> Bug
      | Err e \<Rightarrow> Err e
      | Ok (s, e, c) \<Rightarrow> Ok (s, if e \<noteq> Some EAGAIN \<or> \<not> c_wait cl then Lock_return e else Lock_sleep fl))"

text \<open>From the label \<^verbatim>\<open>again\<close>; \<open>conv\<close> is the conversion, with the position and the size that the file has by then, for the lock at \<open>a\<close>.\<close>

definition setlk_again :: "(nat \<Rightarrow> nat \<Rightarrow> nat \<Rightarrow> file_lock \<Rightarrow> flock \<Rightarrow> file_lock kresult) \<Rightarrow> nat \<Rightarrow> setlk_call \<Rightarrow> nat option \<times> nat option \<Rightarrow>
    flock \<Rightarrow> lock_state \<Rightarrow> (lock_state \<times> lock_progress) kresult" where
  "setlk_again conv a cl mems flock s =
     (case conv (c_filp cl) (c_files cl) (c_tgid cl) (locks_init_lock a) flock of
        Bug \<Rightarrow> Bug
      | Err e \<Rightarrow> Ok (s, Lock_return (Some e))
      | Ok fl \<Rightarrow>
          (case setlk_request cl flock fl of
             Bug \<Rightarrow> Bug
           | Err e \<Rightarrow> Ok (s, Lock_return (Some e))
           | Ok fl \<Rightarrow> setlk_lock cl mems fl s))"

text \<open>The test for a race with \<^verbatim>\<open>close\<close>: when the descriptor is no longer the file (\<open>raced\<close>), a lock just set is unlocked again.\<close>

definition setlk_recheck :: "(nat \<Rightarrow> nat \<Rightarrow> nat \<Rightarrow> file_lock \<Rightarrow> flock \<Rightarrow> file_lock kresult) \<Rightarrow> nat \<Rightarrow> setlk_call \<Rightarrow> nat option \<times> nat option \<Rightarrow>
    bool \<Rightarrow> flock \<Rightarrow> lock_state \<times> lock_progress \<Rightarrow> (lock_state \<times> lock_progress) kresult" where
  "setlk_recheck conv a cl mems raced flock res =
     (case res of (s, p) \<Rightarrow>
        if p = Lock_return None \<and> raced \<and> l_type flock \<noteq> 2 then setlk_again conv a cl mems (flock\<lparr>l_type := 2\<rparr>) s
        else Ok (s, p))"

text \<open>
  The whole call up to its return or its sleep, for both widths. \<open>fault\<close> says that the copy from user space fails, \<open>mapped\<close> that
  mandatory locking meets a shared writable mapping; \<open>conv2\<close> and \<open>mems2\<close> are for the second round.
\<close>

definition setlk :: "(nat \<Rightarrow> nat \<Rightarrow> nat \<Rightarrow> file_lock \<Rightarrow> flock \<Rightarrow> file_lock kresult) \<Rightarrow> (nat \<Rightarrow> nat \<Rightarrow> nat \<Rightarrow> file_lock \<Rightarrow> flock \<Rightarrow> file_lock kresult) \<Rightarrow>
    nat option \<Rightarrow> setlk_call \<Rightarrow> nat option \<times> nat option \<Rightarrow> nat option \<times> nat option \<Rightarrow> bool \<Rightarrow> bool \<Rightarrow> bool \<Rightarrow> flock \<Rightarrow> lock_state \<Rightarrow>
    (lock_state \<times> lock_progress) kresult" where
  "setlk conv conv2 mem cl mems mems2 fault mapped raced flock s =
     (case mem of
        None \<Rightarrow> Ok (s, Lock_return (Some ENOLCK))
      | Some a \<Rightarrow>
          if fault then Ok (s, Lock_return (Some EFAULT))
          else if mapped then Ok (s, Lock_return (Some EAGAIN))
          else
            (case setlk_again conv a cl mems flock s of
               Bug \<Rightarrow> Bug | Err e \<Rightarrow> Err e | Ok res \<Rightarrow> setlk_recheck conv2 a cl mems2 raced flock res))"

definition fcntl_setlk :: "int \<times> int \<Rightarrow> int \<times> int \<Rightarrow> nat option \<Rightarrow> setlk_call \<Rightarrow> nat option \<times> nat option \<Rightarrow> nat option \<times> nat option \<Rightarrow>
    bool \<Rightarrow> bool \<Rightarrow> bool \<Rightarrow> flock \<Rightarrow> lock_state \<Rightarrow> (lock_state \<times> lock_progress) kresult" where
  "fcntl_setlk at1 at2 = setlk (flock_to_posix_lock (fst at1) (snd at1)) (flock_to_posix_lock (fst at2) (snd at2))"

definition fcntl_setlk64 :: "int \<times> int \<Rightarrow> int \<times> int \<Rightarrow> nat option \<Rightarrow> setlk_call \<Rightarrow> nat option \<times> nat option \<Rightarrow> nat option \<times> nat option \<Rightarrow>
    bool \<Rightarrow> bool \<Rightarrow> bool \<Rightarrow> flock \<Rightarrow> lock_state \<Rightarrow> (lock_state \<times> lock_progress) kresult" where
  "fcntl_setlk64 at1 at2 = setlk (flock64_to_posix_lock (fst at1) (snd at1)) (flock64_to_posix_lock (fst at2) (snd at2))"

text \<open>After \<^verbatim>\<open>wait_event_interruptible\<close>: a request that is off the queue tries again, a signal takes it off.\<close>

definition setlk_wake :: "(nat \<Rightarrow> nat \<Rightarrow> nat \<Rightarrow> file_lock \<Rightarrow> flock \<Rightarrow> file_lock kresult) \<Rightarrow> setlk_call \<Rightarrow> nat option \<times> nat option \<Rightarrow> nat option \<times> nat option \<Rightarrow>
    bool \<Rightarrow> bool \<Rightarrow> flock \<Rightarrow> file_lock \<Rightarrow> lock_state \<Rightarrow> (lock_state \<times> lock_progress) kresult" where
  "setlk_wake conv2 cl mems mems2 raced signal flock fl s =
     (if fl_next s (fl_id fl) = None then
        (case setlk_lock cl mems fl s of
           Bug \<Rightarrow> Bug | Err e \<Rightarrow> Err e | Ok res \<Rightarrow> setlk_recheck conv2 (fl_id fl) cl mems2 raced flock res)
      else if signal then Ok (locks_delete_block (fl_id fl) s, Lock_return (Some ERESTARTSYS))
      else Ok (s, Lock_sleep fl))"

subsection \<open>The system call \<^verbatim>\<open>flock\<close>\<close>

definition LOCK_NB :: int where "LOCK_NB = 4"

definition flock_lock_file_wait :: "nat \<Rightarrow> nat option \<Rightarrow> file_lock \<Rightarrow> lock_state \<Rightarrow> (lock_state \<times> lock_progress) kresult" where
  "flock_lock_file_wait inode new_fl fl s =
     (case flock_lock_file inode new_fl fl s of
        Bug \<Rightarrow> Bug
      | Err e \<Rightarrow> Err e
      | Ok (s, e) \<Rightarrow> Ok (s, if e \<noteq> Some EAGAIN \<or> fl_flags fl AND FL_SLEEP = 0 then Lock_return e else Lock_sleep fl))"

text \<open>\<open>filp\<close> is what \<^verbatim>\<open>fget\<close> returns, \<open>opened\<close> says that the file is open for reading or writing.\<close>

definition sys_flock :: "nat \<Rightarrow> nat option \<Rightarrow> bool \<Rightarrow> nat \<Rightarrow> (int \<Rightarrow> errno option) \<Rightarrow> nat option \<Rightarrow> nat option \<Rightarrow> int \<Rightarrow> lock_state \<Rightarrow>
    (lock_state \<times> lock_progress) kresult" where
  "sys_flock inode filp opened tgid security mem new_fl cmd s =
     (case filp of
        None \<Rightarrow> Ok (s, Lock_return (Some EBADF))
      | Some f \<Rightarrow>
          let can_sleep = (cmd AND LOCK_NB = 0); cmd = cmd AND NOT LOCK_NB in
          if cmd \<noteq> LOCK_UN \<and> cmd AND 32 = 0 \<and> \<not> opened then Ok (s, Lock_return (Some EBADF))
          else
            (case flock_make_lock mem f tgid cmd of
               Bug \<Rightarrow> Bug
             | Err e \<Rightarrow> Ok (s, Lock_return (Some e))
             | Ok lock \<Rightarrow>
                 let lock = (if can_sleep then lock\<lparr>fl_flags := fl_flags lock OR FL_SLEEP\<rparr> else lock) in
                 (case security cmd of
                    Some e \<Rightarrow> Ok (s, Lock_return (Some e))
                  | None \<Rightarrow> flock_lock_file_wait inode new_fl lock s)))"

end
