(* ===== verification/Posix_Locks.thy ===== *)
theory Posix_Locks
  imports File_Locks
begin

unbundle bit_operations_syntax

text \<open>
  What \<^verbatim>\<open>__posix_lock_file\<close> does to the lock list of an inode. The walk over the owner's locks is followed with the
  invariant \<open>walked\<close>, one lemma per branch of the loop; the list it leaves is put together again from the locks left of
  the range, the pieces cut off, the range itself and the locks right of it. The result is described by the bytes:
  \<open>apply_lock_outcome\<close>.
\<close>

section \<open>Ranges\<close>

text \<open>
  The locks of one owner are kept as disjoint ranges in ascending order, where ranges of the same type do not even
  touch.
\<close>

definition seg_lt :: "file_lock \<Rightarrow> file_lock \<Rightarrow> bool" where
  "seg_lt a b \<longleftrightarrow> fl_end a < fl_start b \<and> (fl_type a = fl_type b \<longrightarrow> fl_end a + 1 < fl_start b)"

definition seg_ok :: "file_lock \<Rightarrow> bool" where
  "seg_ok l \<longleftrightarrow> 0 \<le> fl_start l \<and> fl_start l \<le> fl_end l \<and> fl_end l \<le> OFFSET_MAX \<and> fl_type l \<in> {F_RDLCK, F_WRLCK} \<and> IS_POSIX l"

definition segs :: "file_lock list \<Rightarrow> bool" where
  "segs G \<longleftrightarrow> sorted_wrt seg_lt G \<and> (\<forall>l \<in> set G. seg_ok l)"

text \<open>Byte \<open>b\<close> is locked with type \<open>t\<close>.\<close>

definition locked_at :: "file_lock list \<Rightarrow> int \<Rightarrow> u8 \<Rightarrow> bool" where
  "locked_at G b t \<longleftrightarrow> (\<exists>l \<in> set G. fl_start l \<le> b \<and> b \<le> fl_end l \<and> fl_type l = t)"

definition request_ok :: "file_lock \<Rightarrow> bool" where
  "request_ok r \<longleftrightarrow> 0 \<le> fl_start r \<and> fl_start r \<le> fl_end r \<and> fl_end r \<le> OFFSET_MAX \<and> fl_type r \<in> {F_RDLCK, F_WRLCK, F_UNLCK} \<and> IS_POSIX r"

lemma locked_at_simps [simp]:
  "locked_at [] b t \<longleftrightarrow> False"
  "locked_at (l # G) b t \<longleftrightarrow> (fl_start l \<le> b \<and> b \<le> fl_end l \<and> fl_type l = t) \<or> locked_at G b t"
  "locked_at (G @ H) b t \<longleftrightarrow> locked_at G b t \<or> locked_at H b t"
  by (auto simp: locked_at_def)

lemma lock_types [simp]: "F_UNLCK \<noteq> F_RDLCK" "F_UNLCK \<noteq> F_WRLCK" "F_RDLCK \<noteq> F_UNLCK" "F_WRLCK \<noteq> F_UNLCK" "F_RDLCK \<noteq> F_WRLCK" "F_WRLCK \<noteq> F_RDLCK"
  by (simp_all add: F_UNLCK_def F_RDLCK_def F_WRLCK_def)

lemma seg_ok_type: "seg_ok l \<Longrightarrow> fl_type l \<noteq> F_UNLCK"
  by (auto simp: seg_ok_def)

definition opt :: "'a option \<Rightarrow> 'a list" where
  "opt x = (case x of None \<Rightarrow> [] | Some y \<Rightarrow> [y])"

lemma opt_simps [simp]: "opt None = []" "opt (Some y) = [y]" "set (opt x) = set_option x"
  by (auto simp: opt_def split: option.splits)

lemma map_id_set [simp]:
  "map fl_id (set_range a st en P) = map fl_id P" "map fl_id (set_start a st P) = map fl_id P" "map fl_id (set_end a en P) = map fl_id P"
  by (induction P) (auto simp: set_range_def set_start_def set_end_def)

lemma image_id_set [simp]:
  "fl_id ` set (set_range a st en P) = fl_id ` set P" "fl_id ` set (set_start a st P) = fl_id ` set P" "fl_id ` set (set_end a en P) = fl_id ` set P"
  by (metis map_id_set list.set_map)+

section \<open>The walk\<close>

text \<open>
  The state of the walk for the request \<open>r\<close> after the locks \<open>D\<close> of the owner: \<open>Q\<close> are the locks left of the range, \<open>lf\<close>
  is the lock to be cut at its right end, \<open>x\<close> the lock of the list that has become the request.
\<close>

definition request_state :: "file_lock \<Rightarrow> file_lock list \<Rightarrow> file_lock option \<Rightarrow> posix_walk \<Rightarrow> bool" where
  "request_state r D x w \<longleftrightarrow>
     (case x of
        None \<Rightarrow> pw_req w = r \<and> pw_at w = None \<and> (pw_added w \<longrightarrow> fl_type r = F_UNLCK)
      | Some y \<Rightarrow> pw_req w = y \<and> pw_at w = Some (fl_id y) \<and> pw_added w \<and> fl_type r \<noteq> F_UNLCK \<and> fl_type y = fl_type r \<and>
          fl_owner y = fl_owner r \<and> seg_ok y \<and> fl_start y \<le> fl_start r \<and> fl_end r \<le> fl_end y \<and> (\<exists>d \<in> set D. fl_start y \<le> fl_end d) \<and>
          (\<exists>d \<in> set D. fl_start r - 1 \<le> fl_end d))"

definition cut_left :: "posix_walk \<Rightarrow> file_lock list" where
  "cut_left w = opt (map_option (\<lambda>l. l\<lparr>fl_end := fl_start (pw_req w) - 1\<rparr>) (pw_left w))"

inductive walked :: "file_lock \<Rightarrow> lock_state \<Rightarrow> file_lock list \<Rightarrow> file_lock list \<Rightarrow> file_lock list \<Rightarrow> file_lock option \<Rightarrow>
    posix_walk \<Rightarrow> lock_state \<Rightarrow> bool" for r s0 where
  walked: "\<lbrakk>P = Q @ opt (pw_left w) @ opt x; pw_right w = None; sorted_wrt seg_lt Q; set Q \<subseteq> set D;
     \<And>q. q \<in> set Q \<Longrightarrow> fl_end q < fl_start (pw_req w) \<and> (fl_type q = fl_type r \<longrightarrow> fl_end q + 1 < fl_start (pw_req w));
     \<And>l. pw_left w = Some l \<Longrightarrow> l \<in> set D \<and> fl_start l < fl_start r \<and> fl_start (pw_req w) = fl_start r \<and>
       fl_start r \<le> fl_end l \<and> fl_type l \<noteq> fl_type r \<and> (\<forall>q \<in> set Q. seg_lt q l) \<and> (fl_type r = F_UNLCK \<longrightarrow> pw_added w);
     request_state r D x w;
     \<And>d. d \<in> set D \<Longrightarrow> fl_end d \<le> fl_end (pw_req w);
     \<And>b t. locked_at (Q @ cut_left w) b t \<longleftrightarrow> b < fl_start (pw_req w) \<and> locked_at D b t;
     \<And>b t. fl_start (pw_req w) \<le> b \<Longrightarrow> b \<le> fl_end (pw_req w) \<Longrightarrow> \<not> (fl_start r \<le> b \<and> b \<le> fl_end r) \<Longrightarrow>
       locked_at D b t \<longleftrightarrow> t = fl_type r;
     distinct (map fl_id P); fl_id ` set P \<subseteq> fl_id ` set D;
     \<not> pw_added w \<Longrightarrow> P = D \<and> s = s0; P = D \<and> s = s0 \<or> (\<exists>d \<in> set D. fl_start r - 1 \<le> fl_end d)\<rbrakk>
   \<Longrightarrow> walked r s0 D P Q x w s"

lemma walked_start:
  "walked r s0 [] [] [] None \<lparr>pw_req = r, pw_at = None, pw_added = False, pw_left = None, pw_right = None\<rparr> s0"
  by (rule walked.intros) (auto simp: request_state_def cut_left_def)

text \<open>Once the range has been reached, every lock passed ends at or behind its start.\<close>

lemma walked_reached:
  assumes "walked r s0 D P Q x w s" and "x \<noteq> None \<or> pw_left w \<noteq> None"
  shows "\<exists>d \<in> set D. fl_start (pw_req w) \<le> fl_end d"
  using assms by (cases rule: walked.cases) (auto simp: request_state_def)

text \<open>A lock left of the range is passed.\<close>

lemma walked_skip:
  assumes w: "walked r s0 D P Q x w s" and fl: "seg_ok fl" "\<forall>d \<in> set D. seg_lt d fl" "fl_id fl \<notin> fl_id ` set D"
    and lt: "fl_end fl < fl_start (pw_req w)" "fl_type fl = fl_type r \<longrightarrow> fl_end fl + 1 < fl_start (pw_req w)"
    and r: "request_ok r"
  shows "walked r s0 (D @ [fl]) (P @ [fl]) (Q @ [fl]) x w s"
proof -
  have "\<not> (\<exists>d \<in> set D. fl_start (pw_req w) \<le> fl_end d)" using fl lt by (fastforce simp: seg_lt_def seg_ok_def)
  then have x: "x = None" "pw_left w = None" using walked_reached[OF w] by blast+
  from w show ?thesis
  proof cases
    case walked
    have req: "pw_req w = r" using walked(7) x by (simp add: request_state_def)
    show ?thesis
    proof (rule walked.intros)
      show "P @ [fl] = (Q @ [fl]) @ opt (pw_left w) @ opt x" using walked(1) x by simp
      show "sorted_wrt seg_lt (Q @ [fl])" using walked(3,4) fl(2) by (auto simp: sorted_wrt_append)
      show "request_state r (D @ [fl]) x w" using walked(7) x by (simp add: request_state_def)
      show "locked_at ((Q @ [fl]) @ cut_left w) b t \<longleftrightarrow> b < fl_start (pw_req w) \<and> locked_at (D @ [fl]) b t" for b t
        using walked(9)[of b t] x lt by (auto simp: cut_left_def)
      show "P @ [fl] = D @ [fl] \<and> s = s0 \<or> (\<exists>d \<in> set (D @ [fl]). fl_start r - 1 \<le> fl_end d)" using walked(14) by auto
    qed (use walked fl lt x r req in \<open>auto simp: request_ok_def\<close>)
  qed
qed

text \<open>The first lock of the same type that touches the range takes it in.\<close>

lemma walked_merge_first:
  assumes w: "walked r s0 D P Q x w s" and fl: "seg_ok fl" "\<forall>d \<in> set D. seg_lt d fl" "fl_id fl \<notin> fl_id ` set D" "fl_owner fl = fl_owner r"
    and ty: "fl_type fl = fl_type r" and near: "fl_start (pw_req w) \<le> fl_end fl + 1" "fl_start fl \<le> fl_end (pw_req w) + 1"
    and r: "request_ok r" and na: "\<not> pw_added w"
    and fl': "fl' = fl\<lparr>fl_start := min (fl_start fl) (fl_start (pw_req w)), fl_end := max (fl_end fl) (fl_end (pw_req w))\<rparr>"
  shows "walked r s0 (D @ [fl]) (P @ [fl']) Q (Some fl') (w\<lparr>pw_req := fl', pw_at := Some (fl_id fl), pw_added := True\<rparr>) s"
  using w
proof cases
  case walked
  have x: "x = None" "pw_req w = r" "pw_at w = None" using walked(7) na by (auto simp: request_state_def split: option.splits)
  have un: "fl_type r \<noteq> F_UNLCK" using fl(1) ty by (auto simp: seg_ok_def)
  have lf: "fl_start r < fl_start fl" if "pw_left w = Some l" for l using walked(6)[OF that] fl(2) by (auto simp: seg_lt_def)
  have ok: "seg_ok fl'" using fl(1) r ty unfolding fl' seg_ok_def request_ok_def x by (auto simp: IS_POSIX_def)
  have D: "\<not> locked_at D b t" if "fl_start fl \<le> b" for b t using that fl(2) by (fastforce simp: locked_at_def seg_lt_def)
  have Q: "fl_end q < fl_start fl" if "q \<in> set Q" for q using that walked(4) fl(2) by (auto simp: seg_lt_def)
  let ?w = "w\<lparr>pw_req := fl', pw_at := Some (fl_id fl), pw_added := True\<rparr>"
  show ?thesis
  proof (rule walked.intros)
    show "P @ [fl'] = Q @ opt (pw_left ?w) @ opt (Some fl')" using walked(1) x by simp
    show "fl_end q < fl_start (pw_req ?w) \<and> (fl_type q = fl_type r \<longrightarrow> fl_end q + 1 < fl_start (pw_req ?w))" if "q \<in> set Q" for q
      using walked(4) walked(5)[OF that] fl(2) that ty x unfolding fl' by (auto simp: seg_lt_def)
    show "l \<in> set (D @ [fl]) \<and> fl_start l < fl_start r \<and> fl_start (pw_req ?w) = fl_start r \<and> fl_start r \<le> fl_end l \<and> fl_type l \<noteq> fl_type r \<and>
        (\<forall>q \<in> set Q. seg_lt q l) \<and> (fl_type r = F_UNLCK \<longrightarrow> pw_added ?w)" if "pw_left ?w = Some l" for l
      using walked(6)[of l] lf[of l] that x unfolding fl' by auto
    show "request_state r (D @ [fl]) (Some fl') ?w"
    proof -
      have "fl_start fl' \<le> fl_end fl" "fl_start r - 1 \<le> fl_end fl" "fl_start fl' \<le> fl_start r" "fl_end r \<le> fl_end fl'"
        using fl(1) near(1) x(2) unfolding fl' by (auto simp: seg_ok_def)
      then show ?thesis using ok un ty fl(4) unfolding request_state_def by (simp add: fl')
    qed
    show "fl_end d \<le> fl_end (pw_req ?w)" if "d \<in> set (D @ [fl])" for d using that walked(8)[of d] unfolding fl' by auto
    show "locked_at (Q @ cut_left ?w) b t \<longleftrightarrow> b < fl_start (pw_req ?w) \<and> locked_at (D @ [fl]) b t" for b t
    proof -
      have "locked_at (cut_left ?w) b t \<longleftrightarrow> locked_at (cut_left w) b t" using lf x unfolding cut_left_def fl' by (cases "pw_left w") auto
      moreover have "\<not> locked_at Q b t" if "fl_start fl \<le> b" using that Q by (fastforce simp: locked_at_def)
      moreover have "\<not> locked_at (cut_left w) b t" if "fl_start fl \<le> b" using that lf x by (cases "pw_left w") (auto simp: cut_left_def)
      ultimately show ?thesis using walked(9)[of b t] D[of b t] x unfolding fl' by (cases "fl_start fl \<le> b") auto
    qed
    show "locked_at (D @ [fl]) b t \<longleftrightarrow> t = fl_type r"
      if "fl_start (pw_req ?w) \<le> b" "b \<le> fl_end (pw_req ?w)" "\<not> (fl_start r \<le> b \<and> b \<le> fl_end r)" for b t
      using that D[of b t] near ty x unfolding fl' by (auto simp: min_def max_def split: if_splits)
    show "P @ [fl'] = D @ [fl] \<and> s = s0 \<or> (\<exists>d \<in> set (D @ [fl]). fl_start r - 1 \<le> fl_end d)" using near(1) x(2) by auto
  qed (use walked(2,3,4,11,12) fl(3) in \<open>auto simp: fl'\<close>)
qed

text \<open>Further ones are merged into it and deleted.\<close>

lemma walked_merge_more:
  assumes w: "walked r s0 D P Q x w s" and fl: "seg_ok fl" "\<forall>d \<in> set D. seg_lt d fl" and ty: "fl_type fl = fl_type r"
    and near: "fl_start fl \<le> fl_end (pw_req w) + 1" and ad: "pw_added w"
    and st: "st = min (fl_start fl) (fl_start (pw_req w))" and en: "en = max (fl_end fl) (fl_end (pw_req w))"
  shows "\<exists>y. x = Some y \<and> pw_at w = Some (fl_id y) \<and>
    walked r s0 (D @ [fl]) (set_range (fl_id y) st en P) Q (Some (y\<lparr>fl_start := st, fl_end := en\<rparr>))
      (w\<lparr>pw_req := (pw_req w)\<lparr>fl_start := st, fl_end := en\<rparr>\<rparr>) s'"
  using w
proof cases
  case walked
  have "x \<noteq> None" using walked(7) ad ty fl(1) by (cases x) (auto simp: request_state_def seg_ok_def)
  then obtain y where y: "x = Some y" "pw_req w = y" "pw_at w = Some (fl_id y)" "seg_ok y" "fl_type y = fl_type r" "fl_owner y = fl_owner r"
      "fl_type r \<noteq> F_UNLCK" "fl_start y \<le> fl_start r" "fl_end r \<le> fl_end y" "\<exists>d \<in> set D. fl_start y \<le> fl_end d"
      "\<exists>d \<in> set D. fl_start r - 1 \<le> fl_end d"
    using walked(7) by (auto simp: request_state_def)
  from y(10) have sy: "fl_start y < fl_start fl" using fl(2) by (fastforce simp: seg_lt_def)
  then have st': "st = fl_start y" and en': "fl_end y \<le> en" "fl_end fl \<le> en" using st en y(2) by auto
  let ?y = "y\<lparr>fl_start := st, fl_end := en\<rparr>" and ?w = "w\<lparr>pw_req := (pw_req w)\<lparr>fl_start := st, fl_end := en\<rparr>\<rparr>"
  have D: "\<not> locked_at D b t" if "fl_start fl \<le> b" for b t using that fl(2) by (fastforce simp: locked_at_def seg_lt_def)
  have idl: "fl_id l \<noteq> fl_id y" if "l \<in> set (Q @ opt (pw_left w))" for l using walked(1,11) y(1) that by (auto simp: image_iff)
  then have P: "set_range (fl_id y) st en P = Q @ opt (pw_left w) @ [?y]"
    unfolding walked(1) y(1) set_range_def by (auto intro!: map_idI)
  have "walked r s0 (D @ [fl]) (set_range (fl_id y) st en P) Q (Some ?y) ?w s'"
  proof (rule walked.intros)
    show "set_range (fl_id y) st en P = Q @ opt (pw_left ?w) @ opt (Some ?y)" using P by simp
    show "request_state r (D @ [fl]) (Some ?y) ?w"
      using y st' en' ad fl(1) unfolding request_state_def by (auto simp: seg_ok_def IS_POSIX_def en max_def)
    show "fl_end d \<le> fl_end (pw_req ?w)" if "d \<in> set (D @ [fl])" for d using that walked(8)[of d] y(2) en' by auto
    show "locked_at (Q @ cut_left ?w) b t \<longleftrightarrow> b < fl_start (pw_req ?w) \<and> locked_at (D @ [fl]) b t" for b t
      using walked(9)[of b t] y(2) st' sy by (auto simp: cut_left_def)
    show "locked_at (D @ [fl]) b t \<longleftrightarrow> t = fl_type r"
      if "fl_start (pw_req ?w) \<le> b" "b \<le> fl_end (pw_req ?w)" "\<not> (fl_start r \<le> b \<and> b \<le> fl_end r)" for b t
    proof (cases "b \<le> fl_end y")
      case True
      then have iff: "locked_at D b u \<longleftrightarrow> u = fl_type r" for u using walked(10)[of b u] that y(2) st' by simp
      then have "\<not> fl_start fl \<le> b" using D[of b "fl_type r"] by auto
      then show ?thesis using iff by simp
    next
      case False
      then have "b \<le> fl_end fl" "fl_start fl \<le> b" using that(2) near y(2) en by simp_all
      then show ?thesis using D[of b t] ty by auto
    qed
    show "distinct (map fl_id (set_range (fl_id y) st en P))" "fl_id ` set (set_range (fl_id y) st en P) \<subseteq> fl_id ` set (D @ [fl])"
      using walked(11,12) by auto
    show "set_range (fl_id y) st en P = D @ [fl] \<and> s' = s0 \<or> (\<exists>d \<in> set (D @ [fl]). fl_start r - 1 \<le> fl_end d)"
      using y(11) by auto
    show "fl_end q < fl_start (pw_req ?w) \<and> (fl_type q = fl_type r \<longrightarrow> fl_end q + 1 < fl_start (pw_req ?w))" if "q \<in> set Q" for q
      using walked(5)[OF that] y(2) st' by simp
    show "l \<in> set (D @ [fl]) \<and> fl_start l < fl_start r \<and> fl_start (pw_req ?w) = fl_start r \<and> fl_start r \<le> fl_end l \<and> fl_type l \<noteq> fl_type r \<and>
        (\<forall>q \<in> set Q. seg_lt q l) \<and> (fl_type r = F_UNLCK \<longrightarrow> pw_added ?w)" if "pw_left ?w = Some l" for l
      using walked(6)[of l] that y(2) st' by simp
  qed (use walked(2,3,4) ad in auto)
  then show ?thesis using y by blast
qed

text \<open>A lock of another type inside the range is deleted.\<close>

lemma walked_delete:
  assumes w: "walked r s0 D P Q x w s" and fl: "seg_ok fl" "\<forall>d \<in> set D. seg_lt d fl" and ty: "fl_type fl \<noteq> fl_type r"
    and inside: "fl_start (pw_req w) \<le> fl_start fl" "fl_end fl \<le> fl_end (pw_req w)" and ad: "pw_added w \<or> fl_type r = F_UNLCK" and r: "request_ok r"
  shows "walked r s0 (D @ [fl]) P Q x (w\<lparr>pw_added := True\<rparr>) s'"
  using w
proof cases
  case walked
  have D: "\<not> locked_at D b t" if "fl_start fl \<le> b" for b t using that fl(2) by (fastforce simp: locked_at_def seg_lt_def)
  have req: "fl_start r \<le> fl_end fl"
  proof (cases x)
    case None
    then show ?thesis using walked(7) inside fl(1) by (auto simp: request_state_def seg_ok_def)
  next
    case (Some y)
    then have y: "pw_req w = y" "fl_start y \<le> fl_start r" "fl_end r \<le> fl_end y" using walked(7) by (auto simp: request_state_def)
    show ?thesis
    proof (rule ccontr)
      assume "\<not> fl_start r \<le> fl_end fl"
      then have "locked_at D (fl_start fl) (fl_type r)" using walked(10)[of "fl_start fl" "fl_type r"] inside fl(1) y by (auto simp: seg_ok_def)
      then show False using D by blast
    qed
  qed
  let ?w = "w\<lparr>pw_added := True\<rparr>"
  show ?thesis
  proof (rule walked.intros)
    show "request_state r (D @ [fl]) x ?w" using walked(7) ad by (auto simp: request_state_def split: option.splits)
    show "locked_at (Q @ cut_left ?w) b t \<longleftrightarrow> b < fl_start (pw_req ?w) \<and> locked_at (D @ [fl]) b t" for b t
      using walked(9)[of b t] inside by (auto simp: cut_left_def)
    show "locked_at (D @ [fl]) b t \<longleftrightarrow> t = fl_type r"
      if "fl_start (pw_req ?w) \<le> b" "b \<le> fl_end (pw_req ?w)" "\<not> (fl_start r \<le> b \<and> b \<le> fl_end r)" for b t
    proof -
      have iff: "locked_at D b u \<longleftrightarrow> u = fl_type r" for u using walked(10)[of b u] that by simp
      then have "\<not> fl_start fl \<le> b" using D[of b "fl_type r"] by auto
      then show ?thesis using iff by auto
    qed
    show "fl_end d \<le> fl_end (pw_req ?w)" if "d \<in> set (D @ [fl])" for d using that walked(8)[of d] inside by auto
    show "P = D @ [fl] \<and> s' = s0 \<or> (\<exists>d \<in> set (D @ [fl]). fl_start r - 1 \<le> fl_end d)" using req by auto
  qed (use walked in auto)
qed

text \<open>The first lock of another type inside the range becomes the new lock.\<close>

lemma walked_replace:
  assumes w: "walked r s0 D P Q x w s" and fl: "seg_ok fl" "\<forall>d \<in> set D. seg_lt d fl" "fl_id fl \<notin> fl_id ` set D" "fl_owner fl = fl_owner r"
    and inside: "fl_start (pw_req w) \<le> fl_start fl" "fl_end fl \<le> fl_end (pw_req w)" and r: "request_ok r"
    and na: "\<not> pw_added w" and un: "fl_type r \<noteq> F_UNLCK"
    and fl': "fl' = fl\<lparr>fl_start := fl_start (pw_req w), fl_end := fl_end (pw_req w), fl_type := fl_type (pw_req w)\<rparr>"
  shows "walked r s0 (D @ [fl]) (P @ [fl']) Q (Some fl') (w\<lparr>pw_req := fl', pw_at := Some (fl_id fl), pw_added := True\<rparr>) s'"
  using w
proof cases
  case walked
  have x: "x = None" "pw_req w = r" "pw_at w = None" using walked(7) na by (auto simp: request_state_def split: option.splits)
  have rng: "fl_start fl' = fl_start r" "fl_end fl' = fl_end r" "fl_type fl' = fl_type r" "fl_id fl' = fl_id fl" "fl_owner fl' = fl_owner r"
    using x(2) fl(4) by (simp_all add: fl')
  have ok: "seg_ok fl'" using fl(1) r un rng unfolding seg_ok_def request_ok_def by (auto simp: IS_POSIX_def fl')
  have flr: "fl_start r \<le> fl_end fl" using fl(1) inside x(2) by (simp add: seg_ok_def)
  let ?w = "w\<lparr>pw_req := fl', pw_at := Some (fl_id fl), pw_added := True\<rparr>"
  show ?thesis
  proof (rule walked.intros)
    show "P @ [fl'] = Q @ opt (pw_left ?w) @ opt (Some fl')" using walked(1) x by simp
    show "fl_end q < fl_start (pw_req ?w) \<and> (fl_type q = fl_type r \<longrightarrow> fl_end q + 1 < fl_start (pw_req ?w))" if "q \<in> set Q" for q
      using walked(5)[OF that] x(2) rng by simp
    show "l \<in> set (D @ [fl]) \<and> fl_start l < fl_start r \<and> fl_start (pw_req ?w) = fl_start r \<and> fl_start r \<le> fl_end l \<and> fl_type l \<noteq> fl_type r \<and>
        (\<forall>q \<in> set Q. seg_lt q l) \<and> (fl_type r = F_UNLCK \<longrightarrow> pw_added ?w)" if "pw_left ?w = Some l" for l
      using walked(6)[of l] that rng by simp
    show "request_state r (D @ [fl]) (Some fl') ?w" using ok un rng flr unfolding request_state_def by simp
    show "fl_end d \<le> fl_end (pw_req ?w)" if "d \<in> set (D @ [fl])" for d using that walked(8)[of d] x(2) rng inside by auto
    show "locked_at (Q @ cut_left ?w) b t \<longleftrightarrow> b < fl_start (pw_req ?w) \<and> locked_at (D @ [fl]) b t" for b t
      using walked(9)[of b t] x(2) rng inside by (auto simp: cut_left_def)
    show "locked_at (D @ [fl]) b t \<longleftrightarrow> t = fl_type r"
      if "fl_start (pw_req ?w) \<le> b" "b \<le> fl_end (pw_req ?w)" "\<not> (fl_start r \<le> b \<and> b \<le> fl_end r)" for b t
      using that rng by simp
    show "P @ [fl'] = D @ [fl] \<and> s' = s0 \<or> (\<exists>d \<in> set (D @ [fl]). fl_start r - 1 \<le> fl_end d)" using flr by auto
  qed (use walked(2,3,4,11,12) fl(3) rng in auto)
qed

text \<open>A lock of another type that reaches into the range from the left is kept for later.\<close>

lemma walked_left:
  assumes w: "walked r s0 D P Q x w s" and fl: "seg_ok fl" "\<forall>d \<in> set D. seg_lt d fl" "fl_id fl \<notin> fl_id ` set D"
    and ty: "fl_type fl \<noteq> fl_type r" and lt: "fl_start fl < fl_start (pw_req w)" "fl_start (pw_req w) \<le> fl_end fl" "fl_end fl \<le> fl_end (pw_req w)"
  shows "walked r s0 (D @ [fl]) (P @ [fl]) Q x
    ((if fl_type r = F_UNLCK then w\<lparr>pw_added := True\<rparr> else w)\<lparr>pw_left := Some fl\<rparr>) s"
proof -
  have "\<not> (\<exists>d \<in> set D. fl_start (pw_req w) \<le> fl_end d)" using fl lt by (fastforce simp: seg_lt_def seg_ok_def)
  then have x: "x = None" "pw_left w = None" using walked_reached[OF w] by blast+
  from w show ?thesis
  proof cases
    case walked
    have req: "pw_req w = r" "pw_at w = None" "pw_added w \<longrightarrow> fl_type r = F_UNLCK" using walked(7) x by (simp_all add: request_state_def)
    have D: "\<not> locked_at D b t" if "fl_start fl \<le> b" for b t using that fl(2) by (fastforce simp: locked_at_def seg_lt_def)
    let ?w = "(if fl_type r = F_UNLCK then w\<lparr>pw_added := True\<rparr> else w)\<lparr>pw_left := Some fl\<rparr>"
    have w': "pw_req ?w = r" "pw_at ?w = None" "pw_left ?w = Some fl" "pw_right ?w = pw_right w" "pw_added ?w \<longleftrightarrow> pw_added w \<or> fl_type r = F_UNLCK"
      using req by auto
    show ?thesis
    proof (rule walked.intros)
      show "P @ [fl] = Q @ opt (pw_left ?w) @ opt x" using walked(1) x by (simp add: w')
      show "fl_end q < fl_start (pw_req ?w) \<and> (fl_type q = fl_type r \<longrightarrow> fl_end q + 1 < fl_start (pw_req ?w))" if "q \<in> set Q" for q
        using walked(5)[OF that] req by (simp add: w')
      show "l \<in> set (D @ [fl]) \<and> fl_start l < fl_start r \<and> fl_start (pw_req ?w) = fl_start r \<and> fl_start r \<le> fl_end l \<and> fl_type l \<noteq> fl_type r \<and>
          (\<forall>q \<in> set Q. seg_lt q l) \<and> (fl_type r = F_UNLCK \<longrightarrow> pw_added ?w)" if "pw_left ?w = Some l" for l
        using that lt ty req walked(4) fl(2) unfolding w' by auto
      show "request_state r (D @ [fl]) x ?w" using x req unfolding request_state_def w' by auto
      show "fl_end d \<le> fl_end (pw_req ?w)" if "d \<in> set (D @ [fl])" for d using that walked(8)[of d] lt req unfolding w' by auto
      show "locked_at (Q @ cut_left ?w) b t \<longleftrightarrow> b < fl_start (pw_req ?w) \<and> locked_at (D @ [fl]) b t" for b t
      proof -
        have "cut_left w = []" using x by (simp add: cut_left_def)
        moreover have "cut_left ?w = [fl\<lparr>fl_end := fl_start r - 1\<rparr>]" unfolding cut_left_def w' by simp
        ultimately show ?thesis using walked(9)[of b t] lt req unfolding w' by auto
      qed
      show "locked_at (D @ [fl]) b t \<longleftrightarrow> t = fl_type r"
        if "fl_start (pw_req ?w) \<le> b" "b \<le> fl_end (pw_req ?w)" "\<not> (fl_start r \<le> b \<and> b \<le> fl_end r)" for b t
        using that unfolding w' by simp
      show "P @ [fl] = D @ [fl] \<and> s = s0 \<or> (\<exists>d \<in> set (D @ [fl]). fl_start r - 1 \<le> fl_end d)" using lt req by auto
      show "pw_right ?w = None" using walked(2) w' by simp
      show "P @ [fl] = D @ [fl] \<and> s = s0" if "\<not> pw_added ?w" using that walked(13) unfolding w' by simp
    qed (use walked(3,4,11,12) fl(3) in auto)
  qed
qed

text \<open>How the walk stops: behind the range, or at a lock of another type that reaches out of it on the right.\<close>

definition stops_behind :: "file_lock \<Rightarrow> posix_walk \<Rightarrow> file_lock list \<Rightarrow> bool" where
  "stops_behind r w G \<longleftrightarrow>
     (\<forall>l \<in> set G. fl_end (pw_req w) < fl_start l \<and> (fl_type l = fl_type r \<longrightarrow> fl_end (pw_req w) + 1 < fl_start l))"

definition at_right :: "file_lock \<Rightarrow> file_lock \<Rightarrow> posix_walk \<Rightarrow> posix_walk" where
  "at_right r fl w =
     (let w = (if fl_type r = F_UNLCK then w\<lparr>pw_added := True\<rparr> else w);
          w = (if fl_start fl < fl_start (pw_req w) then w\<lparr>pw_left := Some fl\<rparr> else w)
      in w\<lparr>pw_right := Some fl\<rparr>)"

definition stops_inside :: "file_lock \<Rightarrow> posix_walk \<Rightarrow> file_lock list \<Rightarrow> bool" where
  "stops_inside r w G \<longleftrightarrow> G \<noteq> [] \<and> fl_type (hd G) \<noteq> fl_type r \<and> fl_start (hd G) \<le> fl_end (pw_req w) \<and>
     fl_start (pw_req w) \<le> fl_end (hd G) \<and> fl_end (pw_req w) < fl_end (hd G)"

definition walk_result :: "file_lock \<Rightarrow> lock_state \<Rightarrow> file_lock list \<Rightarrow> file_lock list \<Rightarrow>
    file_lock list \<times> file_lock list \<times> posix_walk \<times> lock_state \<Rightarrow> bool" where
  "walk_result r s0 L Y res \<longleftrightarrow>
     (\<exists>D G P Q x w s. L = D @ G \<and> walked r s0 D P Q x w s \<and>
        (res = (P, G @ Y, w, s) \<and> stops_behind r w G \<or>
         res = (P, G @ Y, at_right r (hd G) w, s) \<and> stops_inside r w G))"

lemma walked_req: "walked r s0 D P Q x w s \<Longrightarrow> fl_owner (pw_req w) = fl_owner r \<and> fl_type (pw_req w) = fl_type r"
  by (erule walked.cases) (auto simp: request_state_def split: option.splits)

lemma stops_behindI:
  assumes "segs (fl # G)" and "fl_end (pw_req w) < fl_start fl" and "fl_type fl = fl_type r \<longrightarrow> fl_end (pw_req w) + 1 < fl_start fl"
  shows "stops_behind r w (fl # G)"
  using assms by (fastforce simp: stops_behind_def segs_def seg_lt_def seg_ok_def)

lemma walk_locks_walked:
  assumes r: "request_ok r" and Y: "Y = [] \<or> fl_owner (hd Y) \<noteq> fl_owner r"
  shows "segs (D @ G) \<Longrightarrow> distinct (map fl_id (D @ G)) \<Longrightarrow> \<forall>l \<in> set G. fl_owner l = fl_owner r \<Longrightarrow> walked r s0 D P Q x w s \<Longrightarrow>
    walk_result r s0 (D @ G) Y (walk_locks P (G @ Y) w s)"
proof (induction G arbitrary: D P Q x w s)
  case Nil
  have "walk_locks P Y w s = (P, Y, w, s)"
    using Y walked_req[OF Nil(4)] by (cases Y) (auto simp: posix_same_owner_def)
  then show ?case using Nil(4) unfolding walk_result_def stops_behind_def
    by (intro exI[of _ D] exI[of _ "[]"] exI[of _ P] exI[of _ Q] exI[of _ x] exI[of _ w] exI[of _ s]) simp
next
  case (Cons fl G)
  note w = Cons.prems(4)
  have fl: "seg_ok fl" "\<forall>d \<in> set D. seg_lt d fl" "fl_id fl \<notin> fl_id ` set D" "fl_owner fl = fl_owner r"
    using Cons.prems(1-3) by (auto simp: segs_def sorted_wrt_append)
  have own: "posix_same_owner (pw_req w) fl" "fl_type (pw_req w) = fl_type r" using walked_req[OF w] fl(4) by (simp_all add: posix_same_owner_def)
  have rec: "walk_result r s0 (D @ fl # G) Y (walk_locks P' (G @ Y) w' s')" if "walked r s0 (D @ [fl]) P' Q' x' w' s'" for P' Q' x' w' s'
    using Cons.IH[OF _ _ _ that] Cons.prems(1-3) by simp
  have stop: "walk_result r s0 (D @ fl # G) Y (P, (fl # G) @ Y, w, s)" if "stops_behind r w (fl # G)"
    unfolding walk_result_def using that w by blast
  have sub: "segs (fl # G)" using Cons.prems(1) by (auto simp: segs_def sorted_wrt_append)
  let ?req = "pw_req w"
  show ?case
  proof (cases "fl_type fl = fl_type r")
    case same: True
    consider "fl_end fl < fl_start ?req - 1" | "\<not> fl_end fl < fl_start ?req - 1" "fl_start fl - 1 > fl_end ?req"
      | "\<not> fl_end fl < fl_start ?req - 1" "\<not> fl_start fl - 1 > fl_end ?req" by blast
    then show ?thesis
    proof cases
      case 1
      have "walked r s0 (D @ [fl]) (P @ [fl]) (Q @ [fl]) x w s" using walked_skip[OF w fl(1-3)] r 1 by simp
      then show ?thesis using rec same own 1 by simp
    next
      case 2
      have "stops_behind r w (fl # G)" using stops_behindI[OF sub] 2 by simp
      then show ?thesis using stop same own 2 by simp
    next
      case 3
      define st where "st = min (fl_start fl) (fl_start ?req)"
      define en where "en = max (fl_end fl) (fl_end ?req)"
      have se: "(if fl_start fl > fl_start ?req then fl_start ?req else fl_start fl) = st" "(if fl_end fl < fl_end ?req then fl_end ?req else fl_end fl) = en"
        by (auto simp: st_def en_def)
      show ?thesis
      proof (cases "pw_added w")
        case True
        obtain y where y: "x = Some y" "pw_at w = Some (fl_id y)" "walked r s0 (D @ [fl]) (set_range (fl_id y) st en P) Q
            (Some (y\<lparr>fl_start := st, fl_end := en\<rparr>)) (w\<lparr>pw_req := ?req\<lparr>fl_start := st, fl_end := en\<rparr>\<rparr>) (locks_wake_up_blocks (fl_id fl) s)"
          using walked_merge_more[OF w fl(1,2) same _ True st_def en_def] 3 by auto
        show ?thesis using rec[OF y(3)] same own 3 True y(2) by (simp add: Let_def se)
      next
        case False
        have "pw_at w = None" using w False by cases (auto simp: request_state_def split: option.splits)
        then show ?thesis using rec[OF walked_merge_first[OF w fl same _ _ r False refl]] same own 3 False by (simp add: Let_def se st_def en_def)
      qed
    qed
  next
    case diff: False
    then have ne: "fl_type r \<noteq> fl_type fl" by simp
    define w1 where "w1 = (if fl_type r = F_UNLCK then w\<lparr>pw_added := True\<rparr> else w)"
    consider "fl_end fl < fl_start ?req" | "fl_start ?req \<le> fl_end fl" "fl_end ?req < fl_start fl"
      | (over) "fl_start ?req \<le> fl_end fl" "fl_start fl \<le> fl_end ?req" by linarith
    then show ?thesis
    proof cases
      case 1
      have "walked r s0 (D @ [fl]) (P @ [fl]) (Q @ [fl]) x w s" using walked_skip[OF w fl(1-3)] r 1 diff by simp
      then show ?thesis using rec ne own 1 by simp
    next
      case 2
      have "stops_behind r w (fl # G)" using stops_behindI[OF sub] 2 diff by simp
      then show ?thesis using stop ne own 2 by simp
    next
      case over
      note step = walk_locks.simps(2)[of P fl "G @ Y" w s]
      consider "fl_end ?req < fl_end fl" | "fl_end fl \<le> fl_end ?req" "fl_start fl < fl_start ?req"
        | "fl_end fl \<le> fl_end ?req" "fl_start ?req \<le> fl_start fl" by linarith
      then show ?thesis
      proof cases
        case 1
        have "stops_inside r w (fl # G)" using over 1 diff by (simp add: stops_inside_def)
        moreover have "walk_locks P ((fl # G) @ Y) w s = (P, (fl # G) @ Y, at_right r fl w, s)"
          using over 1 ne own by (simp add: at_right_def Let_def)
        ultimately show ?thesis unfolding walk_result_def using w by fastforce
      next
        case 2
        show ?thesis using rec[OF walked_left[OF w fl(1-3) diff 2(2) over(1) 2(1)]] over 2 ne own by (simp add: Let_def)
      next
        case 3
        show ?thesis
        proof (cases "pw_added w \<or> fl_type r = F_UNLCK")
          case True
          have "walked r s0 (D @ [fl]) P Q x (w\<lparr>pw_added := True\<rparr>) (locks_wake_up_blocks (fl_id fl) s)"
            using walked_delete[OF w fl(1,2) diff 3(2,1) True r] .
          moreover have "(if fl_type r = F_UNLCK then w\<lparr>pw_added := True\<rparr> else w) = w\<lparr>pw_added := True\<rparr>" using True by auto
          ultimately show ?thesis using rec over 3 ne own by (simp add: Let_def)
        next
          case False
          then show ?thesis using rec[OF walked_replace[OF w fl 3(2,1) r _ _ refl]] over 3 ne own by (simp add: Let_def)
        qed
      qed
    qed
  qed
qed

section \<open>The list after the walk\<close>

lemma set_simps [simp]:
  "set_range a st en [] = []" "set_start a st [] = []" "set_end a en [] = []"
  "set_range a st en (A @ B) = set_range a st en A @ set_range a st en B"
  "set_start a st (A @ B) = set_start a st A @ set_start a st B" "set_end a en (A @ B) = set_end a en A @ set_end a en B"
  "set_start a st (l # A) = (if fl_id l = a then l\<lparr>fl_start := st\<rparr> else l) # set_start a st A"
  "set_end a en (l # A) = (if fl_id l = a then l\<lparr>fl_end := en\<rparr> else l) # set_end a en A"
  by (simp_all add: set_range_def set_start_def set_end_def)

lemma set_notin:
  "a \<notin> fl_id ` set A \<Longrightarrow> set_range a st en A = A" "a \<notin> fl_id ` set A \<Longrightarrow> set_start a st A = A" "a \<notin> fl_id ` set A \<Longrightarrow> set_end a en A = A"
  by (induction A) (auto simp: set_range_def)

lemma set_at:
  assumes "distinct (map fl_id (A @ l # B))"
  shows "set_start (fl_id l) b (A @ l # B) = A @ l\<lparr>fl_start := b\<rparr> # B" "set_end (fl_id l) b (A @ l # B) = A @ l\<lparr>fl_end := b\<rparr> # B"
  using assms by (auto simp: set_notin)

text \<open>Locks left of the range, a piece cut off at its start, the range, a piece cut off at its end, and locks right of it.\<close>

lemma segs_assemble:
  assumes "segs Q" and Q: "\<forall>q \<in> set Q. fl_end q < st \<and> (fl_type q = T \<longrightarrow> fl_end q + 1 < st) \<and> (\<forall>l \<in> set_option c. seg_lt q l)"
    and c: "\<forall>l \<in> set_option c. seg_ok l \<and> fl_end l = st - 1 \<and> fl_type l \<noteq> T"
    and n: "\<forall>l \<in> set_option n. seg_ok l \<and> fl_start l = st \<and> fl_end l = en \<and> fl_type l = T"
    and x: "\<forall>l \<in> set_option x. seg_ok l \<and> fl_start l = en + 1 \<and> fl_type l \<noteq> T \<and> (\<forall>g \<in> set G. seg_lt l g)"
    and "segs G" and G: "\<forall>g \<in> set G. en < fl_start g \<and> (fl_type g = T \<longrightarrow> en + 1 < fl_start g)" and "st \<le> en"
  shows "segs (Q @ opt c @ opt n @ opt x @ G)"
proof -
  have "sorted_wrt seg_lt (opt y)" for y by (cases y) auto
  moreover have "\<forall>q \<in> set Q. \<forall>g \<in> set G. seg_lt q g" using Q G \<open>st \<le> en\<close> by (fastforce simp: seg_lt_def)
  moreover have "\<forall>q \<in> set Q. \<forall>l \<in> set_option n \<union> set_option x. seg_lt q l" using Q n x \<open>st \<le> en\<close> by (fastforce simp: seg_lt_def)
  moreover have "\<forall>l \<in> set_option c. \<forall>g \<in> set_option n \<union> set_option x \<union> set G. seg_lt l g" using c n x G \<open>st \<le> en\<close> by (fastforce simp: seg_lt_def)
  moreover have "\<forall>l \<in> set_option n. \<forall>g \<in> set_option x \<union> set G. seg_lt l g" using n x G by (auto simp: seg_lt_def)
  ultimately show ?thesis using assms(1,6) Q c n x unfolding segs_def by (auto simp: sorted_wrt_append)
qed

text \<open>What a request comes to, for the locks \<open>L\<close> of its owner.\<close>

definition lock_applied :: "file_lock \<Rightarrow> file_lock list \<Rightarrow> file_lock list \<Rightarrow> bool" where
  "lock_applied r L L' \<longleftrightarrow> segs L' \<and> (\<forall>l \<in> set L'. fl_owner l = fl_owner r) \<and>
     (\<forall>b t. locked_at L' b t \<longleftrightarrow>
        (if fl_start r \<le> b \<and> b \<le> fl_end r then fl_type r \<noteq> F_UNLCK \<and> t = fl_type r else locked_at L b t))"

lemma walked_state: "walked r s0 D P Q x w s \<Longrightarrow> request_state r D x w"
  by (cases rule: walked.cases)

lemma walked_Q:
  assumes "walked r s0 D P Q x w s"
  shows "sorted_wrt seg_lt Q" "set Q \<subseteq> set D"
    "\<forall>q \<in> set Q. fl_end q < fl_start (pw_req w) \<and> (fl_type q = fl_type r \<longrightarrow> fl_end q + 1 < fl_start (pw_req w))"
  using assms by (rule walked.cases, simp)+

lemma walked_range:
  assumes "walked r s0 D P Q x w s" and "request_ok r"
  shows "fl_start (pw_req w) \<le> fl_start r" "fl_end r \<le> fl_end (pw_req w)" "0 \<le> fl_start (pw_req w)" "fl_end (pw_req w) \<le> OFFSET_MAX"
    "fl_start (pw_req w) \<le> fl_end (pw_req w)"
  using walked_state[OF assms(1)] assms(2) by (auto simp: request_state_def request_ok_def seg_ok_def split: option.splits)

lemma walked_within:
  assumes w: "walked r s0 D P Q x w s" and L: "segs (D @ G)"
    and b: "fl_start (pw_req w) \<le> b" "b \<le> fl_end (pw_req w)" "\<not> (fl_start r \<le> b \<and> b \<le> fl_end r)"
  shows "locked_at (D @ G) b t \<longleftrightarrow> t = fl_type r"
proof -
  have iff: "locked_at D b u \<longleftrightarrow> u = fl_type r" for u
    using w
  proof cases
    case walked
    show ?thesis using walked(10)[OF b] .
  qed
  then obtain d where "d \<in> set D" "b \<le> fl_end d" by (auto simp: locked_at_def)
  then have "\<not> locked_at G b t" using L by (fastforce simp: locked_at_def segs_def sorted_wrt_append seg_lt_def)
  then show ?thesis using iff by simp
qed

lemma applied_assemble:
  assumes w: "walked r s0 D P Q x w s" and r: "request_ok r" and L: "segs (D @ G)" "\<forall>l \<in> set (D @ G). fl_owner l = fl_owner r"
    and c: "\<forall>l \<in> set_option c. seg_ok l \<and> fl_end l = fl_start (pw_req w) - 1 \<and> fl_type l \<noteq> fl_type r \<and> fl_owner l = fl_owner r \<and> (\<forall>q \<in> set Q. seg_lt q l)"
    and below: "\<And>b t. locked_at (Q @ opt c) b t \<longleftrightarrow> b < fl_start (pw_req w) \<and> locked_at (D @ G) b t"
    and n: "\<forall>l \<in> set_option n. fl_start l = fl_start (pw_req w) \<and> fl_end l = fl_end (pw_req w) \<and> fl_type l = fl_type r \<and> fl_owner l = fl_owner r \<and> IS_POSIX l"
    and nu: "n = None \<longleftrightarrow> fl_type r = F_UNLCK"
    and y: "\<forall>l \<in> set_option y. seg_ok l \<and> fl_start l = fl_end (pw_req w) + 1 \<and> fl_type l \<noteq> fl_type r \<and> fl_owner l = fl_owner r \<and> (\<forall>g \<in> set G0. seg_lt l g)"
    and G0: "set G0 \<subseteq> set G" "segs G0" "\<forall>g \<in> set G0. fl_end (pw_req w) < fl_start g \<and> (fl_type g = fl_type r \<longrightarrow> fl_end (pw_req w) + 1 < fl_start g)"
    and above: "\<And>b t. locked_at (opt y @ G0) b t \<longleftrightarrow> fl_end (pw_req w) < b \<and> locked_at (D @ G) b t"
  shows "lock_applied r (D @ G) (Q @ opt c @ opt n @ opt y @ G0)"
proof -
  let ?st = "fl_start (pw_req w)" and ?en = "fl_end (pw_req w)"
  note rng = walked_range[OF w r]
  have Q: "segs Q" "set Q \<subseteq> set D" "\<forall>q \<in> set Q. fl_end q < ?st \<and> (fl_type q = fl_type r \<longrightarrow> fl_end q + 1 < ?st)"
    using walked_Q[OF w] L(1) by (auto simp: segs_def)
  have n': "\<forall>l \<in> set_option n. seg_ok l \<and> fl_start l = ?st \<and> fl_end l = ?en \<and> fl_type l = fl_type r"
    using n nu rng r by (auto simp: seg_ok_def request_ok_def)
  have "segs (Q @ opt c @ opt n @ opt y @ G0)"
  proof (rule segs_assemble[OF Q(1) _ _ n' _ G0(2,3) rng(5)])
    show "\<forall>q \<in> set Q. fl_end q < ?st \<and> (fl_type q = fl_type r \<longrightarrow> fl_end q + 1 < ?st) \<and> (\<forall>l \<in> set_option c. seg_lt q l)"
      using Q(3) c by blast
  qed (use c y in blast)+
  moreover have "\<forall>l \<in> set (Q @ opt c @ opt n @ opt y @ G0). fl_owner l = fl_owner r" using Q(2) L(2) c n y G0(1) by auto
  moreover have "locked_at (Q @ opt c @ opt n @ opt y @ G0) b t \<longleftrightarrow>
      (if fl_start r \<le> b \<and> b \<le> fl_end r then fl_type r \<noteq> F_UNLCK \<and> t = fl_type r else locked_at (D @ G) b t)" for b t
  proof -
    have nn: "locked_at (opt n) b t \<longleftrightarrow> ?st \<le> b \<and> b \<le> ?en \<and> fl_type r \<noteq> F_UNLCK \<and> t = fl_type r" using n nu by (cases n) auto
    have all: "locked_at (Q @ opt c @ opt n @ opt y @ G0) b t \<longleftrightarrow> locked_at (Q @ opt c) b t \<or> locked_at (opt n) b t \<or> locked_at (opt y @ G0) b t" by auto
    have un: "?st = fl_start r \<and> ?en = fl_end r" if "fl_type r = F_UNLCK"
      using walked_state[OF w] that by (auto simp: request_state_def split: option.splits)
    show ?thesis
    proof (cases "fl_start r \<le> b \<and> b \<le> fl_end r")
      case True
      then have "\<not> b < ?st" "\<not> ?en < b" "?st \<le> b" "b \<le> ?en" using rng by linarith+
      then show ?thesis unfolding all nn below above using True by simp
    next
      case False
      consider "b < ?st" | "?st \<le> b" "b \<le> ?en" | "?en < b" by linarith
      then show ?thesis
      proof cases
        case 2
        then have "fl_type r \<noteq> F_UNLCK" using un False by auto
        then show ?thesis unfolding all nn below above using walked_within[OF w L(1) 2 False, of t] 2 False by simp
      qed (unfold all nn below above, use False rng(5) in auto)
    qed
  qed
  ultimately show ?thesis by (simp add: lock_applied_def)
qed

text \<open>The outcome: an error with nothing changed, or the request applied.\<close>

definition finished :: "file_lock \<Rightarrow> lock_state \<Rightarrow> nat option \<Rightarrow> nat option \<Rightarrow> file_lock list \<Rightarrow>
    file_lock list \<times> errno option \<times> lock_state \<Rightarrow> bool" where
  "finished r s0 new_fl new_fl2 L res \<longleftrightarrow>
     (case res of (L', e, s) \<Rightarrow>
        e = Some ENOLCK \<and> L' = L \<and> s = s0 \<and> (new_fl = None \<or> new_fl2 = None) \<or>
        e = Some ENOENT \<and> L' = L \<and> s = s0 \<and> fl_type r = F_UNLCK \<and> fl_flags r AND FL_EXISTS \<noteq> 0 \<and> lock_applied r L L \<or>
        e = None \<and> lock_applied r L L' \<and> distinct (map fl_id L') \<and> fl_id ` set L' \<subseteq> fl_id ` set L \<union> set_option new_fl \<union> set_option new_fl2)"

definition new_lock :: "nat \<Rightarrow> file_lock \<Rightarrow> file_lock" where
  "new_lock a r = locks_copy_lock (locks_init_lock a) r"

lemma new_lock_simps [simp]:
  "fl_id (new_lock a r) = a" "fl_owner (new_lock a r) = fl_owner r" "fl_start (new_lock a r) = fl_start r" "fl_end (new_lock a r) = fl_end r"
  "fl_type (new_lock a r) = fl_type r" "IS_POSIX (new_lock a r) = IS_POSIX r" "fl_flags (new_lock a r) = fl_flags r"
  by (simp_all add: new_lock_def locks_copy_lock_def do_locks_copy_lock_def locks_init_lock_def IS_POSIX_def)

lemma IS_POSIX_update [simp]:
  "IS_POSIX (l\<lparr>fl_start := b\<rparr>) = IS_POSIX l" "IS_POSIX (l\<lparr>fl_end := b\<rparr>) = IS_POSIX l" "IS_POSIX (l\<lparr>fl_type := t\<rparr>) = IS_POSIX l"
  by (simp_all add: IS_POSIX_def)

text \<open>The lock of the list that stands for the request, old or new.\<close>

definition range_lock :: "nat option \<Rightarrow> posix_walk \<Rightarrow> file_lock option \<Rightarrow> file_lock option" where
  "range_lock new_fl w x = (if pw_added w then x else map_option (\<lambda>a. new_lock a (pw_req w)) new_fl)"

lemma range_lock_ok:
  assumes st: "request_state r D x w" and r: "request_ok r" and some: "pw_added w \<or> new_fl \<noteq> None" "fl_type r = F_UNLCK \<longrightarrow> pw_added w"
  shows "\<forall>l \<in> set_option (range_lock new_fl w x). fl_start l = fl_start (pw_req w) \<and> fl_end l = fl_end (pw_req w) \<and> fl_type l = fl_type r \<and>
      fl_owner l = fl_owner r \<and> IS_POSIX l"
    and "range_lock new_fl w x = None \<longleftrightarrow> fl_type r = F_UNLCK"
proof -
  show "range_lock new_fl w x = None \<longleftrightarrow> fl_type r = F_UNLCK"
    using st some by (cases x) (auto simp: range_lock_def request_state_def)
  show "\<forall>l \<in> set_option (range_lock new_fl w x). fl_start l = fl_start (pw_req w) \<and> fl_end l = fl_end (pw_req w) \<and> fl_type l = fl_type r \<and>
      fl_owner l = fl_owner r \<and> IS_POSIX l"
    using st r by (cases x) (auto simp: range_lock_def request_state_def request_ok_def seg_ok_def split: if_splits)
qed

lemma walked_cut:
  assumes w: "walked r s0 D P Q x w s" and L: "segs (D @ G)" "\<forall>l \<in> set (D @ G). fl_owner l = fl_owner r"
  shows "\<forall>l \<in> set_option (map_option (\<lambda>l. l\<lparr>fl_end := fl_start (pw_req w) - 1\<rparr>) (pw_left w)).
      seg_ok l \<and> fl_end l = fl_start (pw_req w) - 1 \<and> fl_type l \<noteq> fl_type r \<and> fl_owner l = fl_owner r \<and> (\<forall>q \<in> set Q. seg_lt q l)"
  using w
proof cases
  case walked
  show ?thesis
  proof (cases "pw_left w")
    case (Some l)
    note l = walked(6)[OF Some]
    then have "seg_ok l" "fl_owner l = fl_owner r" using L by (auto simp: segs_def)
    then show ?thesis using l Some by (auto simp: seg_ok_def seg_lt_def)
  qed simp
qed

text \<open>The new lock, if one is needed, and the list without any lock on the right.\<close>

definition fresh_lock :: "nat option \<Rightarrow> posix_walk \<Rightarrow> file_lock option" where
  "fresh_lock new_fl w = (if pw_added w then None else map_option (\<lambda>a. new_lock a (pw_req w)) new_fl)"

lemma finish_none:
  assumes "pw_right w = None" and "pw_added w \<or> fl_type (pw_req w) \<noteq> F_UNLCK \<and> new_fl \<noteq> None"
  shows "finish_locks new_fl new_fl2 P G w s =
    (let L = P @ opt (fresh_lock new_fl w) @ G in
     case pw_left w of None \<Rightarrow> (L, None, s) | Some l \<Rightarrow> (set_end (fl_id l) (fl_start (pw_req w) - 1) L, None, locks_wake_up_blocks (fl_id l) s))"
  using assms by (cases "pw_left w"; cases new_fl; cases "pw_added w") (simp_all add: finish_locks_def fresh_lock_def new_lock_def[symmetric] Let_def)

lemma cut_list:
  assumes "distinct (map fl_id (Q @ opt lf @ R))"
  shows "(case lf of None \<Rightarrow> Q @ opt lf @ R | Some l \<Rightarrow> set_end (fl_id l) b (Q @ opt lf @ R)) = Q @ opt (map_option (\<lambda>l. l\<lparr>fl_end := b\<rparr>) lf) @ R"
proof (cases lf)
  case (Some l)
  have "distinct (map fl_id (Q @ l # R))" using assms Some by simp
  then show ?thesis using set_at(2)[of Q l R b] Some by simp
qed simp

lemma fresh_range:
  assumes "request_state r D x w"
  shows "opt x @ opt (fresh_lock new_fl w) = opt (range_lock new_fl w x)"
  using assms by (auto simp: fresh_lock_def range_lock_def request_state_def split: option.splits)

lemma fresh_id: "fl_id ` set_option (fresh_lock new_fl w) \<subseteq> set_option new_fl"
  by (auto simp: fresh_lock_def)

lemma applied_behind:
  assumes w: "walked r s0 D P Q x w s" and r: "request_ok r" and G: "stops_behind r w G"
    and L: "segs (D @ G)" "\<forall>l \<in> set (D @ G). fl_owner l = fl_owner r"
    and new: "pw_added w \<or> new_fl \<noteq> None" "fl_type r = F_UNLCK \<longrightarrow> pw_added w"
  shows "lock_applied r (D @ G) (Q @ cut_left w @ opt (range_lock new_fl w x) @ G)"
  using w
proof cases
  case walked
  note rng = walked_range[OF w r]
  let ?c = "map_option (\<lambda>l. l\<lparr>fl_end := fl_start (pw_req w) - 1\<rparr>) (pw_left w)"
  have Gs: "fl_end (pw_req w) < b" if "locked_at G b t" for b t using that G by (fastforce simp: stops_behind_def locked_at_def)
  have Ds: "b \<le> fl_end (pw_req w)" if "locked_at D b t" for b t using that walked(8) by (fastforce simp: locked_at_def)
  have "lock_applied r (D @ G) (Q @ opt ?c @ opt (range_lock new_fl w x) @ opt None @ G)"
  proof (rule applied_assemble[OF w r L walked_cut[OF w L] _ range_lock_ok[OF walked_state[OF w] r new]])
    show "locked_at (Q @ opt ?c) b t \<longleftrightarrow> b < fl_start (pw_req w) \<and> locked_at (D @ G) b t" for b t
      using walked(9)[of b t] Gs[of b t] rng(5) unfolding cut_left_def locked_at_simps(3) by linarith
    show "locked_at (opt None @ G) b t \<longleftrightarrow> fl_end (pw_req w) < b \<and> locked_at (D @ G) b t" for b t
      using Gs[of b t] Ds[of b t] by auto
  qed (use L(1) G in \<open>auto simp: segs_def sorted_wrt_append stops_behind_def\<close>)
  then show ?thesis by (simp add: cut_left_def)
qed

text \<open>A walk that has changed nothing, for a request that needs no change or no memory is left for.\<close>

lemma unchanged_behind:
  assumes w: "walked r s0 D P Q x w s" and G: "stops_behind r w G" and L: "segs (D @ G)" "\<forall>l \<in> set (D @ G). fl_owner l = fl_owner r"
    and na: "\<not> pw_added w" and un: "fl_type r = F_UNLCK"
  shows "lock_applied r (D @ G) (D @ G)"
  using w
proof cases
  case walked
  have req: "pw_req w = r" "x = None" using walked(7) na by (auto simp: request_state_def split: option.splits)
  have "pw_left w = None" using walked(6) na un by (cases "pw_left w") auto
  then have D: "D = Q" using walked(1,13) na req by simp
  have "\<not> locked_at (D @ G) b t" if "fl_start r \<le> b" "b \<le> fl_end r" for b t
  proof -
    have "\<not> locked_at Q b t" using walked(5) that req unfolding locked_at_def by fastforce
    moreover have "\<not> locked_at G b t" using G that req unfolding locked_at_def stops_behind_def by fastforce
    ultimately show ?thesis using D by simp
  qed
  then show ?thesis using L un by (auto simp: lock_applied_def)
qed

lemma finish_behind:
  assumes w: "walked r s0 D P Q x w s" and r: "request_ok r" and G: "stops_behind r w G"
    and L: "segs (D @ G)" "\<forall>l \<in> set (D @ G). fl_owner l = fl_owner r" "distinct (map fl_id (D @ G))" and new: "set_option new_fl \<inter> fl_id ` set (D @ G) = {}"
  shows "finished r s0 new_fl new_fl2 (D @ G) (finish_locks new_fl new_fl2 P G w s)"
  using w
proof cases
  case walked
  have rt: "fl_type (pw_req w) = fl_type r" using walked_req[OF w] by simp
  show ?thesis
  proof (cases "pw_added w \<or> fl_type r \<noteq> F_UNLCK \<and> new_fl \<noteq> None")
    case False
    then have same: "P = D" "s = s0" "pw_req w = r" using walked(7,13) by (auto simp: request_state_def split: option.splits)
    have "lock_applied r (D @ G) (D @ G)" if "fl_type r = F_UNLCK" using unchanged_behind[OF w G L(1,2) _ that] False by blast
    then show ?thesis using False same walked(2) L(3) by (auto simp: finish_locks_def finished_def Let_def)
  next
    case True
    define R where "R = opt (range_lock new_fl w x) @ G"
    have list: "P @ opt (fresh_lock new_fl w) @ G = Q @ opt (pw_left w) @ R"
      unfolding walked(1) R_def fresh_range[OF walked(7), symmetric] by simp
    have ids: "distinct (map fl_id (Q @ opt (pw_left w) @ R))" "fl_id ` set (Q @ opt (pw_left w) @ R) \<subseteq> fl_id ` set (D @ G) \<union> set_option new_fl"
    proof -
      have "distinct (map fl_id (opt (fresh_lock new_fl w)))" by (cases "fresh_lock new_fl w") auto
      then show "distinct (map fl_id (Q @ opt (pw_left w) @ R))" "fl_id ` set (Q @ opt (pw_left w) @ R) \<subseteq> fl_id ` set (D @ G) \<union> set_option new_fl"
        unfolding list[symmetric] using walked(11,12) L(3) new fresh_id[of new_fl w] by (auto 0 3)
    qed
    have app: "lock_applied r (D @ G) (Q @ cut_left w @ R)" unfolding R_def using applied_behind[OF w r G L(1,2)] True by blast
    have mp: "map fl_id (Q @ cut_left w @ R) = map fl_id (Q @ opt (pw_left w) @ R)" by (cases "pw_left w") (simp_all add: cut_left_def)
    have "finish_locks new_fl new_fl2 P G w s = (Q @ cut_left w @ R, None, case pw_left w of None \<Rightarrow> s | Some l \<Rightarrow> locks_wake_up_blocks (fl_id l) s)"
    proof -
      have "finish_locks new_fl new_fl2 P G w s = (case pw_left w of None \<Rightarrow> (Q @ opt (pw_left w) @ R, None, s)
          | Some l \<Rightarrow> (set_end (fl_id l) (fl_start (pw_req w) - 1) (Q @ opt (pw_left w) @ R), None, locks_wake_up_blocks (fl_id l) s))"
        using finish_none[OF walked(2), of new_fl new_fl2 P G s] True rt unfolding Let_def list by simp
      then show ?thesis using cut_list[OF ids(1), of "fl_start (pw_req w) - 1"] unfolding cut_left_def by (cases "pw_left w") simp_all
    qed
    moreover have "distinct (map fl_id (Q @ cut_left w @ R))" "set (map fl_id (Q @ cut_left w @ R)) \<subseteq> fl_id ` set (D @ G) \<union> set_option new_fl"
      unfolding mp using ids by (simp_all only: set_map)
    ultimately show ?thesis using app unfolding finished_def by (simp only: prod.case set_map) blast
  qed
qed

text \<open>The lock on the right may be the one on the left as well and is split then.\<close>

lemma finish_some:
  assumes "pw_right w = Some fl" and "same_lock (pw_left w) (Some fl) \<longrightarrow> new_fl2 \<noteq> None"
    and "pw_added w \<or> fl_type (pw_req w) \<noteq> F_UNLCK \<and> new_fl \<noteq> None"
    and "lf = (if same_lock (pw_left w) (Some fl) then Some (new_lock (the new_fl2) fl) else pw_left w)"
  shows "finish_locks new_fl new_fl2 P G w s =
    (let L = set_start (fl_id fl) (fl_end (pw_req w) + 1)
         (P @ (if same_lock (pw_left w) (Some fl) then opt lf else []) @ opt (fresh_lock new_fl w) @ G);
         s = locks_wake_up_blocks (fl_id fl) s in
     case lf of None \<Rightarrow> (L, None, s) | Some l \<Rightarrow> (set_end (fl_id l) (fl_start (pw_req w) - 1) L, None, locks_wake_up_blocks (fl_id l) s))"
  using assms
  by (cases "same_lock (pw_left w) (Some fl)"; cases new_fl; cases new_fl2; cases "pw_added w"; cases "pw_left w")
    (simp_all add: finish_locks_def fresh_lock_def new_lock_def[symmetric] Let_def)

lemma at_right_simps [simp]:
  "pw_req (at_right r fl w) = pw_req w" "pw_right (at_right r fl w) = Some fl" "pw_at (at_right r fl w) = pw_at w"
  "pw_added (at_right r fl w) \<longleftrightarrow> pw_added w \<or> fl_type r = F_UNLCK"
  "pw_left (at_right r fl w) = (if fl_start fl < fl_start (pw_req w) then Some fl else pw_left w)"
  by (auto simp: at_right_def Let_def)

lemma at_right_state: "request_state r D x w \<Longrightarrow> request_state r D x (at_right r fl w)"
  by (auto simp: request_state_def split: option.splits)

text \<open>The piece left of the range and what it stands for.\<close>

definition left_piece :: "nat option \<Rightarrow> posix_walk \<Rightarrow> file_lock \<Rightarrow> file_lock option" where
  "left_piece new_fl2 w fl = (if fl_start fl < fl_start (pw_req w) then Some (new_lock (the new_fl2) fl) else pw_left w)"

lemma inside_reached:
  assumes w: "walked r s0 D P Q x w s" and fl: "\<forall>d \<in> set D. seg_lt d fl" and lt: "fl_start fl < fl_start (pw_req w)"
  shows "x = None" "pw_left w = None"
  using walked_reached[OF w] fl lt by (fastforce simp: seg_lt_def)+

lemma applied_inside:
  assumes w: "walked r s0 D P Q x w s" and r: "request_ok r" and G: "stops_inside r w (fl # G)"
    and L: "segs (D @ fl # G)" "\<forall>l \<in> set (D @ fl # G). fl_owner l = fl_owner r"
    and new: "pw_added (at_right r fl w) \<or> new_fl \<noteq> None"
  shows "lock_applied r (D @ fl # G) (Q @ opt (map_option (\<lambda>l. l\<lparr>fl_end := fl_start (pw_req w) - 1\<rparr>) (left_piece new_fl2 w fl)) @
    opt (range_lock new_fl (at_right r fl w) x) @ fl\<lparr>fl_start := fl_end (pw_req w) + 1\<rparr> # G)"
  using w
proof cases
  case walked
  note rng = walked_range[OF w r]
  let ?st = "fl_start (pw_req w)" and ?en = "fl_end (pw_req w)"
  let ?c = "map_option (\<lambda>l. l\<lparr>fl_end := ?st - 1\<rparr>) (left_piece new_fl2 w fl)" and ?y = "Some (fl\<lparr>fl_start := ?en + 1\<rparr>)"
  have fl: "fl_type fl \<noteq> fl_type r" "fl_start fl \<le> ?en" "?en < fl_end fl" "?st \<le> fl_end fl" using G by (simp_all add: stops_inside_def)
  have flok: "seg_ok fl" "\<forall>d \<in> set D. seg_lt d fl" "\<forall>g \<in> set G. seg_lt fl g" "segs G" "fl_owner fl = fl_owner r"
    using L by (auto simp: segs_def sorted_wrt_append)
  have y: "\<forall>l \<in> set_option ?y. seg_ok l \<and> fl_start l = ?en + 1 \<and> fl_type l \<noteq> fl_type r \<and> fl_owner l = fl_owner r \<and> (\<forall>g \<in> set G. seg_lt l g)"
    using fl(1,3) flok(1,3,5) rng by (auto simp: seg_lt_def seg_ok_def)
  have G0: "\<forall>g \<in> set G. ?en < fl_start g \<and> (fl_type g = fl_type r \<longrightarrow> ?en + 1 < fl_start g)" using flok(3) fl(3) by (fastforce simp: seg_lt_def)
  have Gs: "?en < b" if "locked_at G b t" for b t using that G0 by (fastforce simp: locked_at_def)
  have Ds: "b \<le> ?en" if "locked_at D b t" for b t using that walked(8) by (fastforce simp: locked_at_def)
  have c: "\<forall>l \<in> set_option ?c. seg_ok l \<and> fl_end l = ?st - 1 \<and> fl_type l \<noteq> fl_type r \<and> fl_owner l = fl_owner r \<and> (\<forall>q \<in> set Q. seg_lt q l)"
  proof (cases "fl_start fl < ?st")
    case True
    have "\<forall>q \<in> set Q. seg_lt q fl" using walked(4) flok(2) by auto
    then show ?thesis using True fl(1,4) flok(1,5) by (auto simp: left_piece_def seg_ok_def seg_lt_def)
  next
    case False
    then show ?thesis using walked_cut[OF w L] by (simp add: left_piece_def)
  qed
  have below: "locked_at (Q @ opt ?c) b t \<longleftrightarrow> b < ?st \<and> locked_at (D @ fl # G) b t" for b t
  proof (cases "fl_start fl < ?st")
    case True
    have "pw_left w = None" using inside_reached[OF w flok(2) True] by simp
    then have "locked_at Q b t \<longleftrightarrow> b < ?st \<and> locked_at D b t" using walked(9)[of b t] by (simp add: cut_left_def)
    then show ?thesis using True fl(4) Gs[of b t] rng(5) by (auto simp: left_piece_def)
  next
    case False
    have "locked_at (Q @ opt ?c) b t \<longleftrightarrow> b < ?st \<and> locked_at D b t" using walked(9)[of b t] False by (simp add: cut_left_def left_piece_def)
    then show ?thesis using False Gs[of b t] rng(5) by auto
  qed
  have above: "locked_at (opt ?y @ G) b t \<longleftrightarrow> ?en < b \<and> locked_at (D @ fl # G) b t" for b t
    using Gs[of b t] Ds[of b t] fl by (cases "?en < b") auto
  have un: "fl_type r = F_UNLCK \<longrightarrow> pw_added (at_right r fl w)" by simp
  note n = range_lock_ok[OF at_right_state[OF walked(7)] r new un]
  have "lock_applied r (D @ fl # G) (Q @ opt ?c @ opt (range_lock new_fl (at_right r fl w) x) @ opt ?y @ G)"
    by (rule applied_assemble[OF w r L c below _ n(2) y _ flok(4) G0 above]) (use n(1) in auto)
  then show ?thesis by simp
qed

lemma disjoint_mono: "A \<subseteq> B \<Longrightarrow> C \<subseteq> D \<Longrightarrow> B \<inter> D = {} \<Longrightarrow> A \<inter> C = {}"
  by blast

lemma distinct_ids:
  assumes "distinct (map f P)" "f ` set P \<subseteq> f ` set D" "distinct (map f I)" "f ` set I \<subseteq> N2" "distinct (map f F)" "f ` set F \<subseteq> N1"
    and "distinct (map f G)" "f ` set D \<inter> f ` set G = {}" "N1 \<inter> f ` set (D @ G) = {}" "N2 \<inter> f ` set (D @ G) = {}" "N1 \<inter> N2 = {}"
  shows "distinct (map f (P @ I @ F @ G))"
proof -
  have n: "f ` set D \<inter> N2 = {}" "f ` set D \<inter> N1 = {}" "N2 \<inter> f ` set G = {}" "N1 \<inter> f ` set G = {}" "N2 \<inter> N1 = {}"
    using assms(9-11) by auto
  have "f ` set P \<inter> f ` set I = {}" "f ` set P \<inter> f ` set F = {}" "f ` set P \<inter> f ` set G = {}"
    using disjoint_mono[OF assms(2,4) n(1)] disjoint_mono[OF assms(2,6) n(2)] disjoint_mono[OF assms(2) order_refl assms(8)] .
  moreover have "f ` set I \<inter> f ` set F = {}" "f ` set I \<inter> f ` set G = {}" "f ` set F \<inter> f ` set G = {}"
    using disjoint_mono[OF assms(4,6) n(5)] disjoint_mono[OF assms(4) order_refl n(3)] disjoint_mono[OF assms(6) order_refl n(4)] .
  ultimately show ?thesis using assms(1,3,5,7) by (simp add: Int_Un_distrib)
qed

lemma finish_inside:
  assumes w: "walked r s0 D P Q x w s" and r: "request_ok r" and G: "stops_inside r w (fl # G)"
    and L: "segs (D @ fl # G)" "\<forall>l \<in> set (D @ fl # G). fl_owner l = fl_owner r" "distinct (map fl_id (D @ fl # G))"
    and new: "set_option new_fl \<inter> fl_id ` set (D @ fl # G) = {}" "set_option new_fl2 \<inter> fl_id ` set (D @ fl # G) = {}"
      "set_option new_fl \<inter> set_option new_fl2 = {}"
  shows "finished r s0 new_fl new_fl2 (D @ fl # G) (finish_locks new_fl new_fl2 P (fl # G) (at_right r fl w) s)"
  using w
proof cases
  case walked
  note rng = walked_range[OF w r]
  let ?w = "at_right r fl w" and ?st = "fl_start (pw_req w)" and ?en = "fl_end (pw_req w)"
  have rt: "fl_type (pw_req w) = fl_type r" using walked_req[OF w] by simp
  have lt: "\<forall>d \<in> set D. seg_lt d fl" and flid: "fl_id fl \<notin> fl_id ` set D" using L by (auto simp: segs_def sorted_wrt_append)
  have same: "same_lock (pw_left ?w) (Some fl) \<longleftrightarrow> fl_start fl < ?st"
  proof (cases "pw_left w")
    case (Some a)
    have "fl_id a \<noteq> fl_id fl" using walked(6)[OF Some] flid by (metis image_eqI)
    then show ?thesis using Some by (simp add: same_lock_def)
  qed (simp add: same_lock_def)
  show ?thesis
  proof (cases "(fl_start fl < ?st \<longrightarrow> new_fl2 \<noteq> None) \<and> (pw_added ?w \<or> new_fl \<noteq> None)")
    case False
    have "P = D \<and> s = s0"
    proof (cases "fl_start fl < ?st")
      case True
      then have "\<not> (\<exists>d \<in> set D. fl_start r - 1 \<le> fl_end d)" using lt rng(1) by (fastforce simp: seg_lt_def)
      then show ?thesis using walked(14) by blast
    next
      case nlt: False
      then have "\<not> pw_added w" using False by simp
      then show ?thesis using walked(13) by blast
    qed
    moreover have "finish_locks new_fl new_fl2 P (fl # G) ?w s = (P @ fl # G, Some ENOLCK, s)"
    proof (cases "fl_start fl < ?st \<and> new_fl2 = None")
      case True
      then show ?thesis using same by (simp add: finish_locks_def Let_def)
    next
      case nsplit: False
      then have "\<not> pw_added ?w" "new_fl = None" "fl_type (pw_req w) \<noteq> F_UNLCK" using False rt by auto
      then show ?thesis using nsplit same by (simp add: finish_locks_def Let_def)
    qed
    ultimately show ?thesis using False by (auto simp: finished_def)
  next
    case True
    define lf where "lf = left_piece new_fl2 w fl"
    define N where "N = opt (range_lock new_fl ?w x)"
    have lf: "lf = (if same_lock (pw_left ?w) (Some fl) then Some (new_lock (the new_fl2) fl) else pw_left ?w)"
      unfolding lf_def left_piece_def same by simp
    have fr: "opt x @ opt (fresh_lock new_fl ?w) = N" unfolding N_def by (rule fresh_range[OF at_right_state[OF walked(7)]])
    have list: "P @ (if same_lock (pw_left ?w) (Some fl) then opt lf else []) @ opt (fresh_lock new_fl ?w) @ fl # G = Q @ opt lf @ N @ fl # G"
    proof (cases "fl_start fl < ?st")
      case True
      then show ?thesis using inside_reached[OF w lt True] walked(1) fr same by simp
    next
      case False
      then show ?thesis using walked(1) fr same lf by simp
    qed
    have ids: "distinct (map fl_id (Q @ opt lf @ N @ fl # G))"
      "fl_id ` set (Q @ opt lf @ N @ fl # G) \<subseteq> fl_id ` set (D @ fl # G) \<union> set_option new_fl \<union> set_option new_fl2"
    proof -
      have o: "distinct (map fl_id (opt y))" for y by (cases y) auto
      have ins: "fl_id ` set (if same_lock (pw_left ?w) (Some fl) then opt lf else []) \<subseteq> set_option new_fl2"
        "distinct (map fl_id (if same_lock (pw_left ?w) (Some fl) then opt lf else []))"
        using True same lf o by auto
      have F: "fl_id ` set (opt (fresh_lock new_fl ?w)) \<subseteq> set_option new_fl" using fresh_id[of new_fl ?w] by simp
      have G: "distinct (map fl_id (fl # G))" "fl_id ` set D \<inter> fl_id ` set (fl # G) = {}" using L(3) by auto
      show "distinct (map fl_id (Q @ opt lf @ N @ fl # G))"
        unfolding list[symmetric] using distinct_ids[OF walked(11,12) ins(2,1) o F G new] .
      show "fl_id ` set (Q @ opt lf @ N @ fl # G) \<subseteq> fl_id ` set (D @ fl # G) \<union> set_option new_fl \<union> set_option new_fl2"
        unfolding list[symmetric] using walked(12) ins(1) F unfolding set_append image_Un by blast
    qed
    define fl' where "fl' = fl\<lparr>fl_start := ?en + 1\<rparr>"
    define C where "C = opt (map_option (\<lambda>l. l\<lparr>fl_end := ?st - 1\<rparr>) lf)"
    have set1: "set_start (fl_id fl) (?en + 1) (Q @ opt lf @ N @ fl # G) = Q @ opt lf @ N @ fl' # G"
      using set_at(1)[of "Q @ opt lf @ N" fl G] ids(1) by (simp add: fl'_def)
    have ids': "map fl_id (Q @ opt lf @ N @ fl' # G) = map fl_id (Q @ opt lf @ N @ fl # G)" by (simp add: fl'_def)
    have dist': "distinct (map fl_id (Q @ opt lf @ N @ fl' # G))" using ids(1) unfolding ids' .
    have fin: "finish_locks new_fl new_fl2 P (fl # G) ?w s = (Q @ C @ N @ fl' # G, None,
        case lf of None \<Rightarrow> locks_wake_up_blocks (fl_id fl) s | Some l \<Rightarrow> locks_wake_up_blocks (fl_id l) (locks_wake_up_blocks (fl_id fl) s))"
    proof -
      have nb: "same_lock (pw_left ?w) (Some fl) \<longrightarrow> new_fl2 \<noteq> None" "pw_added ?w \<or> fl_type (pw_req ?w) \<noteq> F_UNLCK \<and> new_fl \<noteq> None"
        using True same rt by auto
      show ?thesis using cut_list[OF dist', of "?st - 1"]
        unfolding finish_some[OF at_right_simps(2) nb lf] Let_def list at_right_simps(1) set1 C_def by (cases lf) simp_all
    qed
    have mp: "map fl_id (Q @ C @ N @ fl' # G) = map fl_id (Q @ opt lf @ N @ fl # G)" by (cases lf) (simp_all add: C_def fl'_def)
    have "distinct (map fl_id (Q @ C @ N @ fl' # G))"
      "set (map fl_id (Q @ C @ N @ fl' # G)) \<subseteq> fl_id ` set (D @ fl # G) \<union> set_option new_fl \<union> set_option new_fl2"
      unfolding mp using ids by (simp_all only: set_map)
    moreover have "lock_applied r (D @ fl # G) (Q @ C @ N @ fl' # G)"
      unfolding C_def N_def fl'_def lf_def using applied_inside[OF w r G L(1,2)] True by blast
    ultimately show ?thesis unfolding fin finished_def by (simp only: prod.case set_map) blast
  qed
qed

section \<open>Applying a request\<close>

text \<open>The locks of others in front of the owner's are not touched.\<close>

section \<open>Applying a request\<close>

text \<open>The locks of others in front of the owner's are not touched.\<close>

lemma walk_frame:
  "\<forall>l \<in> set X. fl_id l \<notin> fl_id ` set suf \<and> pw_at w \<noteq> Some (fl_id l) \<Longrightarrow>
   walk_locks (X @ P) suf w s = (case walk_locks P suf w s of (P', rest, w', s') \<Rightarrow> (X @ P', rest, w', s'))"
proof (induction suf arbitrary: P w s)
  case (Cons fl fls)
  have X: "set_range a st en X = X" if "pw_at w = Some a" for a st en using Cons.prems that by (intro set_notin(1)) auto
  have IH: "walk_locks (X @ P') fls w' s' = (case walk_locks P' fls w' s' of (P'', rest, w'', s'') \<Rightarrow> (X @ P'', rest, w'', s''))"
    if "pw_at w' = pw_at w \<or> pw_at w' = Some (fl_id fl)" for P' w' s'
  proof -
    have "\<forall>l \<in> set X. fl_id l \<notin> fl_id ` set fls \<and> pw_at w' \<noteq> Some (fl_id l)" using Cons.prems that by (auto simp: eq_commute[of "fl_id fl"])
    then show ?thesis by (rule Cons.IH)
  qed
  show ?case
    by (cases "pw_at w") (simp_all add: Let_def IH X)
qed simp

lemma finish_frame:
  assumes "\<forall>l \<in> set_option (pw_left w) \<union> set_option (pw_right w). fl_id l \<notin> fl_id ` set X \<union> fl_id ` set Y"
    and "set_option new_fl2 \<inter> (fl_id ` set X \<union> fl_id ` set Y) = {}"
  shows "finish_locks new_fl new_fl2 (X @ P) (G @ Y) w s = (case finish_locks new_fl new_fl2 P G w s of (L, e, s') \<Rightarrow> (X @ L @ Y, e, s'))"
proof (cases "pw_right w = None \<or> \<not> same_lock (pw_left w) (pw_right w)")
  case True
  then show ?thesis using assms(1)
    by (cases "pw_right w"; cases "pw_left w") (auto simp: finish_locks_def Let_def set_notin)
next
  case False
  then obtain fl l where fl: "pw_right w = Some fl" "pw_left w = Some l" "fl_id l = fl_id fl" by (cases "pw_left w") (auto simp: same_lock_def)
  have n: "set_start (fl_id fl) b X = X" "set_start (fl_id fl) b Y = Y" for b using assms(1) fl by (simp_all add: set_notin)
  show ?thesis
  proof (cases new_fl2)
    case (Some a)
    have "fl_id (locks_copy_lock (locks_init_lock a) fl) = a" using new_lock_simps(1)[of a fl] by (simp add: new_lock_def)
    moreover have "set_end a b X = X" "set_end a b Y = Y" for b using assms(2) Some by (simp_all add: set_notin)
    ultimately show ?thesis using Some fl n by (simp add: finish_locks_def Let_def same_lock_def)
  qed (use fl in \<open>simp add: finish_locks_def Let_def same_lock_def\<close>)
qed

text \<open>
  The locks of an inode: the POSIX locks come last, those of one owner stand together, their ranges are in order, and
  two owners share a byte only for reading.
\<close>

definition own :: "nat \<Rightarrow> file_lock \<Rightarrow> bool" where
  "own ow l \<longleftrightarrow> IS_POSIX l \<and> fl_owner l = ow"

definition held_by :: "nat \<Rightarrow> file_lock list \<Rightarrow> int \<Rightarrow> u8 \<Rightarrow> bool" where
  "held_by ow L b t \<longleftrightarrow> locked_at (filter (own ow) L) b t"

fun grouped :: "file_lock list \<Rightarrow> bool" where
  "grouped [] \<longleftrightarrow> True"
| "grouped (l # L) \<longleftrightarrow> grouped L \<and>
     (IS_POSIX l \<longrightarrow> (\<forall>m \<in> set L. IS_POSIX m) \<and> ((\<exists>m \<in> set L. fl_owner m = fl_owner l) \<longrightarrow> fl_owner (hd L) = fl_owner l))"

definition lock_list_ok :: "file_lock list \<Rightarrow> bool" where
  "lock_list_ok L \<longleftrightarrow> distinct (map fl_id L) \<and> grouped L \<and> (\<forall>ow. segs (filter (own ow) L)) \<and>
     (\<forall>o1 o2 b t1 t2. o1 \<noteq> o2 \<longrightarrow> held_by o1 L b t1 \<longrightarrow> held_by o2 L b t2 \<longrightarrow> t1 = F_RDLCK \<and> t2 = F_RDLCK)"

lemma grouped_append: "grouped (X @ Z) \<Longrightarrow> grouped Z"
  by (induction X) auto

lemma grouped_tail:
  "grouped R \<Longrightarrow> R \<noteq> [] \<longrightarrow> IS_POSIX (hd R) \<and> fl_owner (hd R) = ow \<Longrightarrow> y \<in> set (dropWhile (\<lambda>l. fl_owner l = ow) R) \<Longrightarrow> fl_owner y \<noteq> ow"
proof (induction R)
  case (Cons l R)
  have l: "IS_POSIX l" "fl_owner l = ow" using Cons.prems(2) by auto
  then have y: "y \<in> set (dropWhile (\<lambda>l. fl_owner l = ow) R)" using Cons.prems(3) by simp
  show ?case
  proof (cases "\<exists>m \<in> set R. fl_owner m = ow")
    case True
    then have "IS_POSIX (hd R) \<and> fl_owner (hd R) = ow" using Cons.prems(1) l by (cases R) auto
    then show ?thesis using Cons.IH Cons.prems(1) y by simp
  next
    case False
    then show ?thesis using set_dropWhileD[OF y] by blast
  qed
qed simp

text \<open>The locks of an owner within the list.\<close>

lemma grouped_posix: "grouped R \<Longrightarrow> R \<noteq> [] \<Longrightarrow> IS_POSIX (hd R) \<Longrightarrow> \<forall>l \<in> set R. IS_POSIX l"
  by (cases R) auto

lemma grouped_split:
  assumes "grouped L"
  obtains X G Y where "L = X @ G @ Y" "X = takeWhile (\<lambda>l. \<not> own ow l) L" "G @ Y = dropWhile (\<lambda>l. \<not> own ow l) L"
    "\<forall>l \<in> set X. \<not> own ow l" "\<forall>l \<in> set G. own ow l" "\<forall>l \<in> set Y. \<not> own ow l"
    "Y = [] \<or> fl_owner (hd Y) \<noteq> ow" "G = [] \<longrightarrow> Y = []" "filter (own ow) L = G"
proof -
  define X where "X = takeWhile (\<lambda>l. \<not> own ow l) L"
  define R where "R = dropWhile (\<lambda>l. \<not> own ow l) L"
  define G where "G = takeWhile (\<lambda>l. fl_owner l = ow) R"
  define Y where "Y = dropWhile (\<lambda>l. fl_owner l = ow) R"
  have R: "R = G @ Y" and L: "L = X @ R" unfolding G_def Y_def X_def R_def by simp_all
  have gr: "grouped R" using assms grouped_append L by blast
  have hd: "R \<noteq> [] \<longrightarrow> IS_POSIX (hd R) \<and> fl_owner (hd R) = ow"
    using hd_dropWhile[of "\<lambda>l. \<not> own ow l" L] unfolding R_def own_def by blast
  have X: "\<forall>l \<in> set X. \<not> own ow l" unfolding X_def by (blast dest: set_takeWhileD)
  have posix: "\<forall>l \<in> set R. IS_POSIX l" using grouped_posix[OF gr] hd by (cases "R = []") simp_all
  have G: "\<forall>l \<in> set G. own ow l"
  proof
    fix l
    assume "l \<in> set G"
    then show "own ow l" using posix set_takeWhileD[of l _ R] unfolding G_def own_def by blast
  qed
  have Yo: "\<forall>l \<in> set Y. fl_owner l \<noteq> ow" unfolding Y_def using grouped_tail[OF gr hd] by blast
  then have Y: "\<forall>l \<in> set Y. \<not> own ow l" by (simp add: own_def)
  have f: "filter (own ow) L = G"
    unfolding L R filter_append using X G Y by (simp add: filter_empty_conv filter_id_conv)
  have e: "G = [] \<longrightarrow> Y = []" unfolding G_def Y_def using hd by (cases R) simp_all
  have h: "Y = [] \<or> fl_owner (hd Y) \<noteq> ow" using Yo by (cases Y) simp_all
  show ?thesis by (rule that[OF _ X_def _ X G Y h e f]) (use L R R_def in simp_all)
qed

lemma grouped_prepend:
  assumes "grouped Y" "\<forall>l \<in> set Y. IS_POSIX l \<and> fl_owner l \<noteq> ow"
  shows "\<forall>l \<in> set H. own ow l \<Longrightarrow> grouped (H @ Y)"
proof (induction H)
  case (Cons h H)
  have h: "IS_POSIX h" "fl_owner h = ow" and H: "\<forall>l \<in> set H. IS_POSIX l \<and> fl_owner l = ow" using Cons.prems by (auto simp: own_def)
  have "fl_owner (hd (H @ Y)) = ow" if "m \<in> set (H @ Y)" "fl_owner m = ow" for m
    using that H assms(2) by (cases H) auto
  then show ?case using Cons.IH Cons.prems h H assms(2) by auto
qed (use assms in simp)

lemma grouped_replace:
  assumes "grouped (X @ G @ Y)" and X: "\<forall>l \<in> set X. \<not> own ow l" and Y: "\<forall>l \<in> set Y. \<not> own ow l"
    and G': "\<forall>l \<in> set G'. own ow l" and e: "G = [] \<longrightarrow> Y = []" and G: "\<forall>l \<in> set G. own ow l"
  shows "grouped (X @ G' @ Y)"
  using assms(1) X
proof (induction X)
  case Nil
  have "\<forall>l \<in> set (G @ Y). IS_POSIX l" using grouped_posix[of "G @ Y"] Nil(1) e G by (cases G) (auto simp: own_def)
  then have "\<forall>l \<in> set Y. IS_POSIX l \<and> fl_owner l \<noteq> ow" using Y by (auto simp: own_def)
  moreover have "grouped Y" using Nil(1) grouped_append[of G Y] by simp
  ultimately show ?case using grouped_prepend[OF _ _ G'] by simp
next
  case (Cons x X)
  have IH: "grouped (X @ G' @ Y)" using Cons by simp
  show ?case
  proof (cases "IS_POSIX x")
    case True
    have P: "\<forall>m \<in> set (X @ G @ Y). IS_POSIX m" "(\<exists>m \<in> set (X @ G @ Y). fl_owner m = fl_owner x) \<longrightarrow> fl_owner (hd (X @ G @ Y)) = fl_owner x"
      using Cons.prems(1) True by simp_all
    have x: "fl_owner x \<noteq> ow" using Cons.prems(2) True by (simp add: own_def)
    have "fl_owner (hd (X @ G' @ Y)) = fl_owner x" if m: "m \<in> set (X @ G' @ Y)" "fl_owner m = fl_owner x" for m
    proof -
      have "m \<notin> set G'" using G' m(2) x by (auto simp: own_def)
      then have mem: "m \<in> set (X @ G @ Y)" "m \<in> set X \<or> m \<in> set Y" using m(1) by auto
      then have hd: "fl_owner (hd (X @ G @ Y)) = fl_owner x" using P(2) m(2) by blast
      show ?thesis
      proof (cases X)
        case Nil
        then have "G \<noteq> []" using e mem by auto
        then have "fl_owner (hd (X @ G @ Y)) = ow" using Nil G by (cases G) (simp_all add: own_def)
        then show ?thesis using hd x by simp
      qed (use hd in simp)
    qed
    moreover have "\<forall>m \<in> set (X @ G' @ Y). IS_POSIX m" using P(1) G' by (auto simp: own_def)
    ultimately show ?thesis using IH by auto
  qed (use IH in simp)
qed

text \<open>The request on the locks of its owner.\<close>

lemma group_finished:
  assumes r: "request_ok r" and L: "segs G" "distinct (map fl_id G)" "\<forall>l \<in> set G. fl_owner l = fl_owner r"
    and Y: "Y = [] \<or> fl_owner (hd Y) \<noteq> fl_owner r"
    and new: "set_option new_fl \<inter> fl_id ` set G = {}" "set_option new_fl2 \<inter> fl_id ` set G = {}" "set_option new_fl \<inter> set_option new_fl2 = {}"
  obtains P S w s where
    "walk_locks [] (G @ Y) \<lparr>pw_req = r, pw_at = None, pw_added = False, pw_left = None, pw_right = None\<rparr> s0 = (P, S @ Y, w, s)"
    "\<forall>l \<in> set_option (pw_left w) \<union> set_option (pw_right w). l \<in> set G" "finished r s0 new_fl new_fl2 G (finish_locks new_fl new_fl2 P S w s)"
proof -
  have "walk_result r s0 G Y (walk_locks [] (G @ Y) \<lparr>pw_req = r, pw_at = None, pw_added = False, pw_left = None, pw_right = None\<rparr> s0)"
    using walk_locks_walked[OF r Y, of "[]" G s0 "[]" "[]" None _ s0] L walked_start by simp
  then obtain D S P Q x w s where G: "G = D @ S" and w: "walked r s0 D P Q x w s"
    and res: "walk_locks [] (G @ Y) \<lparr>pw_req = r, pw_at = None, pw_added = False, pw_left = None, pw_right = None\<rparr> s0 = (P, S @ Y, w, s) \<and> stops_behind r w S \<or>
      walk_locks [] (G @ Y) \<lparr>pw_req = r, pw_at = None, pw_added = False, pw_left = None, pw_right = None\<rparr> s0 = (P, S @ Y, at_right r (hd S) w, s) \<and> stops_inside r w S"
    unfolding walk_result_def by blast
  have left: "\<forall>l \<in> set_option (pw_left w). l \<in> set D" "pw_right w = None"
    using w by (auto elim!: walked.cases)
  from res show ?thesis
  proof
    assume b: "walk_locks [] (G @ Y) \<lparr>pw_req = r, pw_at = None, pw_added = False, pw_left = None, pw_right = None\<rparr> s0 = (P, S @ Y, w, s) \<and> stops_behind r w S"
    show ?thesis
    proof (rule that)
      show "finished r s0 new_fl new_fl2 G (finish_locks new_fl new_fl2 P S w s)"
        using finish_behind[OF w r, of S new_fl new_fl2] b L new unfolding G by blast
    qed (use b left G in auto)
  next
    assume b: "walk_locks [] (G @ Y) \<lparr>pw_req = r, pw_at = None, pw_added = False, pw_left = None, pw_right = None\<rparr> s0 = (P, S @ Y, at_right r (hd S) w, s) \<and> stops_inside r w S"
    then obtain fl S' where S: "S = fl # S'" by (cases S) (auto simp: stops_inside_def)
    show ?thesis
    proof (rule that)
      show "finished r s0 new_fl new_fl2 G (finish_locks new_fl new_fl2 P S (at_right r (hd S) w) s)"
        using finish_inside[OF w r, of fl S' new_fl new_fl2] b L new unfolding G S by auto
      show "\<forall>l \<in> set_option (pw_left (at_right r (hd S) w)) \<union> set_option (pw_right (at_right r (hd S) w)). l \<in> set G"
        using left G S by (auto split: if_splits)
    qed (use b in simp)
  qed
qed

text \<open>And on the list of the inode.\<close>

definition lock_outcome :: "file_lock \<Rightarrow> lock_state \<Rightarrow> nat option \<Rightarrow> nat option \<Rightarrow> file_lock list \<Rightarrow>
    file_lock list \<times> errno option \<times> lock_state \<Rightarrow> bool" where
  "lock_outcome r s0 new_fl new_fl2 L res \<longleftrightarrow>
     (case res of (L', e, s) \<Rightarrow>
        e = Some ENOLCK \<and> L' = L \<and> s = s0 \<and> (new_fl = None \<or> new_fl2 = None) \<or>
        (e = None \<or> e = Some ENOENT \<and> L' = L \<and> s = s0 \<and> fl_type r = F_UNLCK \<and> fl_flags r AND FL_EXISTS \<noteq> 0) \<and>
          lock_list_ok L' \<and> fl_id ` set L' \<subseteq> fl_id ` set L \<union> set_option new_fl \<union> set_option new_fl2 \<and>
          (\<forall>b t. held_by (fl_owner r) L' b t \<longleftrightarrow>
            (if fl_start r \<le> b \<and> b \<le> fl_end r then fl_type r \<noteq> F_UNLCK \<and> t = fl_type r else held_by (fl_owner r) L b t)) \<and>
          (\<forall>ow. ow \<noteq> fl_owner r \<longrightarrow> filter (own ow) L' = filter (own ow) L) \<and>
          filter (\<lambda>l. \<not> IS_POSIX l) L' = filter (\<lambda>l. \<not> IS_POSIX l) L)"

text \<open>Two owners after a request that met no conflict.\<close>

lemma exclusive_after:
  assumes L: "lock_list_ok L" and r: "request_ok r" and nc: "fl_type r \<noteq> F_UNLCK \<longrightarrow> (\<forall>l \<in> set L. \<not> posix_locks_conflict r l)"
    and own': "\<And>b t. held_by (fl_owner r) L' b t \<longleftrightarrow>
      (if fl_start r \<le> b \<and> b \<le> fl_end r then fl_type r \<noteq> F_UNLCK \<and> t = fl_type r else held_by (fl_owner r) L b t)"
    and others: "\<And>ow. ow \<noteq> fl_owner r \<Longrightarrow> filter (own ow) L' = filter (own ow) L"
    and b: "o1 \<noteq> o2" "held_by o1 L' b t1" "held_by o2 L' b t2"
  shows "t1 = F_RDLCK \<and> t2 = F_RDLCK"
proof -
  have excl: "t1 = F_RDLCK \<and> t2 = F_RDLCK" if "o1 \<noteq> o2" "held_by o1 L b t1" "held_by o2 L b t2" for o1 o2 t1 t2
    using that L unfolding lock_list_ok_def by blast
  have other: "held_by ow L' b t \<longleftrightarrow> held_by ow L b t" if "ow \<noteq> fl_owner r" for ow t using others[OF that] by (simp add: held_by_def)
  have mixed: "t = F_RDLCK \<and> u = F_RDLCK" if h: "held_by (fl_owner r) L' b t" "held_by ow L b u" "ow \<noteq> fl_owner r" for ow t u
  proof (cases "fl_start r \<le> b \<and> b \<le> fl_end r")
    case True
    then have t: "t = fl_type r" "fl_type r \<noteq> F_UNLCK" using h(1) own' by auto
    obtain l where l: "l \<in> set L" "own ow l" "fl_start l \<le> b" "b \<le> fl_end l" "fl_type l = u" using h(2) by (auto simp: held_by_def locked_at_def)
    have "seg_ok l" using L l(1,2) unfolding lock_list_ok_def segs_def by auto
    moreover have "\<not> posix_locks_conflict r l" using nc t l(1) by blast
    ultimately show ?thesis using l t True h(3) r
      by (auto simp: posix_locks_conflict_def locks_conflict_def locks_overlap_def posix_same_owner_def own_def seg_ok_def request_ok_def split: if_splits)
  next
    case False
    then have "held_by (fl_owner r) L b t" using h(1) own' by simp
    then show ?thesis using excl[of "fl_owner r" ow t u] h(2,3) by auto
  qed
  consider "o1 = fl_owner r" | "o2 = fl_owner r" | "o1 \<noteq> fl_owner r" "o2 \<noteq> fl_owner r" by blast
  then show ?thesis
  proof cases
    case 1
    then show ?thesis using mixed[of t1 o2 t2] b other[of o2 t2] by auto
  next
    case 2
    then show ?thesis using mixed[of t2 o1 t1] b other[of o1 t1] by auto
  next
    case 3
    then show ?thesis using excl[OF b(1)] b(2,3) other by auto
  qed
qed

text \<open>The owner's locks replaced in the list of the inode.\<close>

lemma group_replaced:
  assumes L: "lock_list_ok (X @ G @ Y)" and r: "request_ok r" and nc: "fl_type r \<noteq> F_UNLCK \<longrightarrow> (\<forall>l \<in> set (X @ G @ Y). \<not> posix_locks_conflict r l)"
    and no: "\<forall>l \<in> set X. \<not> own (fl_owner r) l" "\<forall>l \<in> set G. own (fl_owner r) l" "\<forall>l \<in> set Y. \<not> own (fl_owner r) l" "G = [] \<longrightarrow> Y = []"
    and ap: "lock_applied r G L1" and dist: "distinct (map fl_id (X @ L1 @ Y))"
  shows "lock_list_ok (X @ L1 @ Y)"
    and "held_by (fl_owner r) (X @ L1 @ Y) b t \<longleftrightarrow>
        (if fl_start r \<le> b \<and> b \<le> fl_end r then fl_type r \<noteq> F_UNLCK \<and> t = fl_type r else held_by (fl_owner r) (X @ G @ Y) b t)"
    and "ow \<noteq> fl_owner r \<Longrightarrow> filter (own ow) (X @ L1 @ Y) = filter (own ow) (X @ G @ Y)"
    and "filter (\<lambda>l. \<not> IS_POSIX l) (X @ L1 @ Y) = filter (\<lambda>l. \<not> IS_POSIX l) (X @ G @ Y)"
proof -
  let ?ow = "fl_owner r"
  have L1: "\<forall>l \<in> set L1. own ?ow l" "segs L1" using ap by (auto simp: lock_applied_def segs_def seg_ok_def own_def)
  have fX: "filter (own ?ow) X = []" "filter (own ?ow) Y = []" using no by (simp_all add: filter_empty_conv)
  have fG: "filter (own ?ow) L1 = L1" "filter (own ?ow) G = G" using L1 no by (simp_all add: filter_id_conv)
  have held: "held_by ?ow (X @ L1 @ Y) b t \<longleftrightarrow>
        (if fl_start r \<le> b \<and> b \<le> fl_end r then fl_type r \<noteq> F_UNLCK \<and> t = fl_type r else held_by ?ow (X @ G @ Y) b t)" for b t
    using ap fX fG by (simp add: held_by_def lock_applied_def)
  have oth: "filter (own ow) (X @ L1 @ Y) = filter (own ow) (X @ G @ Y)" if "ow \<noteq> ?ow" for ow
  proof -
    have "filter (own ow) L1 = []" "filter (own ow) G = []" using L1(1) no(2) that by (auto simp: filter_empty_conv own_def)
    then show ?thesis by simp
  qed
  have "filter (\<lambda>l. \<not> IS_POSIX l) L1 = []" "filter (\<lambda>l. \<not> IS_POSIX l) G = []" using L1(1) no(2) by (auto simp: filter_empty_conv own_def)
  then show "filter (\<lambda>l. \<not> IS_POSIX l) (X @ L1 @ Y) = filter (\<lambda>l. \<not> IS_POSIX l) (X @ G @ Y)" by simp
  have "segs (filter (own ow) (X @ L1 @ Y))" for ow
  proof (cases "ow = ?ow")
    case True
    then show ?thesis using fX fG L1(2) by simp
  next
    case False
    then show ?thesis using L oth[OF False] by (simp add: lock_list_ok_def)
  qed
  moreover have "grouped (X @ L1 @ Y)" using grouped_replace[OF _ no(1,3) L1(1) no(4,2)] L by (simp add: lock_list_ok_def)
  ultimately show "lock_list_ok (X @ L1 @ Y)"
    using dist exclusive_after[OF L r nc held oth] unfolding lock_list_ok_def by blast
  show "held_by ?ow (X @ L1 @ Y) b t \<longleftrightarrow>
        (if fl_start r \<le> b \<and> b \<le> fl_end r then fl_type r \<noteq> F_UNLCK \<and> t = fl_type r else held_by ?ow (X @ G @ Y) b t)" by (rule held)
  show "filter (own ow) (X @ L1 @ Y) = filter (own ow) (X @ G @ Y)" if "ow \<noteq> ?ow" by (rule oth[OF that])
qed

lemma apply_lock_outcome:
  assumes L: "lock_list_ok L" and r: "request_ok r" and nc: "fl_type r \<noteq> F_UNLCK \<longrightarrow> (\<forall>l \<in> set L. \<not> posix_locks_conflict r l)"
    and new: "set_option new_fl \<inter> fl_id ` set L = {}" "set_option new_fl2 \<inter> fl_id ` set L = {}" "set_option new_fl \<inter> set_option new_fl2 = {}"
  shows "lock_outcome r s0 new_fl new_fl2 L (apply_lock new_fl new_fl2 r L s0)"
proof -
  let ?ow = "fl_owner r" and ?w0 = "\<lparr>pw_req = r, pw_at = None, pw_added = False, pw_left = None, pw_right = None\<rparr>"
  have gr: "grouped L" "distinct (map fl_id L)" "segs (filter (own ?ow) L)" using L by (simp_all add: lock_list_ok_def)
  obtain X G Y where L': "L = X @ G @ Y" and X: "X = takeWhile (\<lambda>l. \<not> own ?ow l) L" and R: "G @ Y = dropWhile (\<lambda>l. \<not> own ?ow l) L"
    and no: "\<forall>l \<in> set X. \<not> own ?ow l" "\<forall>l \<in> set G. own ?ow l" "\<forall>l \<in> set Y. \<not> own ?ow l"
    and Y: "Y = [] \<or> fl_owner (hd Y) \<noteq> ?ow" and e: "G = [] \<longrightarrow> Y = []" and f: "filter (own ?ow) L = G"
    by (rule grouped_split[OF gr(1)])
  have ids: "distinct (map fl_id G)" "fl_id ` set G \<inter> fl_id ` set X = {}" "fl_id ` set G \<inter> fl_id ` set Y = {}" "distinct (map fl_id (X @ Y))"
    using gr(2) unfolding L' by auto
  have G: "segs G" "\<forall>l \<in> set G. fl_owner l = ?ow" using gr(3) no(2) unfolding f by (simp_all add: own_def)
  have fresh: "set_option new_fl \<inter> fl_id ` set G = {}" "set_option new_fl2 \<inter> fl_id ` set G = {}" "set_option new_fl2 \<inter> (fl_id ` set X \<union> fl_id ` set Y) = {}"
    "set_option new_fl \<inter> (fl_id ` set X \<union> fl_id ` set Y) = {}"
    using new(1,2) unfolding L' by auto
  obtain P S w s where walk: "walk_locks [] (G @ Y) ?w0 s0 = (P, S @ Y, w, s)" and lr: "\<forall>l \<in> set_option (pw_left w) \<union> set_option (pw_right w). l \<in> set G"
    and fin: "finished r s0 new_fl new_fl2 G (finish_locks new_fl new_fl2 P S w s)"
    by (rule group_finished[OF r G(1) ids(1) G(2) Y fresh(1,2) new(3)])
  obtain L1 er s1 where res: "finish_locks new_fl new_fl2 P S w s = (L1, er, s1)" by (metis prod.collapse)
  have "(\<lambda>fl. \<not> IS_POSIX fl \<or> \<not> posix_same_owner r fl) = (\<lambda>l. \<not> own ?ow l)" by (auto simp: own_def posix_same_owner_def)
  moreover have "walk_locks X (G @ Y) ?w0 s0 = (X @ P, S @ Y, w, s)"
  proof -
    have "\<forall>l \<in> set X. fl_id l \<notin> fl_id ` set (G @ Y) \<and> pw_at ?w0 \<noteq> Some (fl_id l)" using gr(2) unfolding L' by auto
    from walk_frame[OF this, of "[]" s0] show ?thesis using walk by simp
  qed
  moreover have "finish_locks new_fl new_fl2 (X @ P) (S @ Y) w s = (X @ L1 @ Y, er, s1)"
  proof -
    have "\<forall>l \<in> set_option (pw_left w) \<union> set_option (pw_right w). fl_id l \<notin> fl_id ` set X \<union> fl_id ` set Y"
      using lr ids(2,3) by (auto simp: disjoint_iff)
    from finish_frame[OF this fresh(3), of new_fl P S s] show ?thesis using res by simp
  qed
  ultimately have app: "apply_lock new_fl new_fl2 r L s0 = (X @ L1 @ Y, er, s1)"
    unfolding apply_lock_def Let_def by (simp add: X[symmetric] R[symmetric])
  have ap: "lock_outcome r s0 new_fl new_fl2 L (X @ L1 @ Y, er, s1)"
    if ap: "lock_applied r G L1" and d: "distinct (map fl_id L1)" "fl_id ` set L1 \<subseteq> fl_id ` set G \<union> set_option new_fl \<union> set_option new_fl2"
      and er: "er = None \<or> er = Some ENOENT \<and> X @ L1 @ Y = L \<and> s1 = s0 \<and> fl_type r = F_UNLCK \<and> fl_flags r AND FL_EXISTS \<noteq> 0"
  proof -
    have "(fl_id ` set G \<union> set_option new_fl \<union> set_option new_fl2) \<inter> (fl_id ` set X \<union> fl_id ` set Y) = {}"
      using fresh(3,4) ids(2,3) by blast
    from disjoint_mono[OF d(2) order_refl this]
    have "fl_id ` set X \<inter> fl_id ` set L1 = {}" "fl_id ` set L1 \<inter> fl_id ` set Y = {}" by blast+
    then have "distinct (map fl_id (X @ L1 @ Y))" using d(1) ids(4) by (simp add: Int_Un_distrib)
    note g = group_replaced[OF L[unfolded L'] r nc[unfolded L'] no e ap this]
    have "fl_id ` set (X @ L1 @ Y) \<subseteq> fl_id ` set L \<union> set_option new_fl \<union> set_option new_fl2" using d(2) unfolding L' by auto
    then show ?thesis using g er unfolding lock_outcome_def L'[symmetric] by simp
  qed
  show ?thesis
    using fin unfolding app finished_def res prod.case
  proof (elim disjE)
    assume "er = Some ENOLCK \<and> L1 = G \<and> s1 = s0 \<and> (new_fl = None \<or> new_fl2 = None)"
    then show "lock_outcome r s0 new_fl new_fl2 L (X @ L1 @ Y, er, s1)" using L' by (simp add: lock_outcome_def)
  next
    assume h: "er = Some ENOENT \<and> L1 = G \<and> s1 = s0 \<and> fl_type r = F_UNLCK \<and> fl_flags r AND FL_EXISTS \<noteq> 0 \<and> lock_applied r G G"
    then show "lock_outcome r s0 new_fl new_fl2 L (X @ L1 @ Y, er, s1)" using ap ids(1) L' by auto
  next
    assume "er = None \<and> lock_applied r G L1 \<and> distinct (map fl_id L1) \<and> fl_id ` set L1 \<subseteq> fl_id ` set G \<union> set_option new_fl \<union> set_option new_fl2"
    then show "lock_outcome r s0 new_fl new_fl2 L (X @ L1 @ Y, er, s1)" using ap by blast
  qed
qed

end
