(* ===== verification/Lock_System.thy ===== *)
theory Lock_System
  imports Posix_Locks Transition
begin

unbundle bit_operations_syntax

text \<open>
  The lock lists of all inodes and the tasks that use them. Every call is a step (\<^verbatim>\<open>flock\<close> takes two, see
  \<open>flock_first_half\<close>); a task that sleeps calls again when its \<^verbatim>\<open>fl_next\<close> has been cleared, or leaves the queue after a signal.
  The invariant says that the lists are in order, that no two locks conflict, and that whoever sleeps waits for
  a lock that is there and that conflicts with the request.
\<close>

section \<open>Waking\<close>

text \<open>All waiters of the locks \<open>bs\<close> leave the queues.\<close>

definition waiters :: "nat list \<Rightarrow> lock_state \<Rightarrow> nat set" where
  "waiters bs s = (\<Union>b \<in> set bs. set (fl_block s b))"

definition release_waiters :: "nat set \<Rightarrow> lock_state \<Rightarrow> lock_state" where
  "release_waiters U s =
     s\<lparr>fl_block := (\<lambda>b. filter (\<lambda>w. w \<notin> U) (fl_block s b)), blocked_list := filter (\<lambda>fl. fl_id fl \<notin> U) (blocked_list s),
       fl_next := (\<lambda>w. if w \<in> U then None else fl_next s w)\<rparr>"

lemma release_simps [simp]:
  "i_flock (release_waiters U s) = i_flock s" "fl_block (release_waiters U s) b = filter (\<lambda>w. w \<notin> U) (fl_block s b)"
  "blocked_list (release_waiters U s) = filter (\<lambda>fl. fl_id fl \<notin> U) (blocked_list s)"
  "fl_next (release_waiters U s) w = (if w \<in> U then None else fl_next s w)"
  by (simp_all add: release_waiters_def)

lemma release_empty [simp]: "release_waiters {} s = s"
  by (simp add: release_waiters_def)

lemma release_release: "release_waiters V (release_waiters U s) = release_waiters (U \<union> V) s"
  by (rule lock_state.equality) (auto simp: fun_eq_iff)

lemma delete_block_release: "locks_delete_block w s = release_waiters {w} s"
  by (rule lock_state.equality) (auto simp: locks_delete_block_def fun_eq_iff removeAll_filter_not_eq intro!: filter_cong)

lemma fold_delete_block: "fold locks_delete_block ws s = release_waiters (set ws) s"
  by (induction ws arbitrary: s) (simp_all add: delete_block_release release_release)

lemma wake_up_release: "locks_wake_up_blocks b s = release_waiters (set (fl_block s b)) s"
  by (simp add: locks_wake_up_blocks_def fold_delete_block)

lemma fold_wake_up: "fold locks_wake_up_blocks bs s = release_waiters (waiters bs s) s"
proof (induction bs arbitrary: s)
  case (Cons b bs)
  have "set (fl_block s b) \<union> waiters bs (release_waiters (set (fl_block s b)) s) = waiters (b # bs) s"
    by (auto simp: waiters_def)
  then show ?case using Cons by (simp add: wake_up_release release_release)
qed (simp add: waiters_def)

section \<open>Who is woken by a request\<close>

text \<open>A lock that still stands where it stood, or has grown.\<close>

definition extends :: "file_lock \<Rightarrow> file_lock \<Rightarrow> bool" where
  "extends l l' \<longleftrightarrow> fl_id l' = fl_id l \<and> fl_owner l' = fl_owner l \<and> fl_type l' = fl_type l \<and> fl_flags l' = fl_flags l \<and>
     fl_start l' \<le> fl_start l \<and> fl_end l \<le> fl_end l'"

lemma extends_refl [simp]: "extends l l"
  by (simp add: extends_def)

lemma extends_trans: "extends a b \<Longrightarrow> extends b c \<Longrightarrow> extends a c"
  by (auto simp: extends_def)

text \<open>Every lock of \<open>L\<close> is in \<open>L'\<close>, perhaps grown, or its waiters have been woken.\<close>

definition kept :: "nat list \<Rightarrow> file_lock list \<Rightarrow> file_lock list \<Rightarrow> bool" where
  "kept bs L L' \<longleftrightarrow> (\<forall>l \<in> set L. fl_id l \<in> set bs \<or> (\<exists>l' \<in> set L'. extends l l'))"

lemma kept_refl [simp]: "kept bs L L"
  unfolding kept_def using extends_refl by blast

lemma kept_subset: "\<forall>l \<in> set L. fl_id l \<in> set bs \<or> l \<in> set L' \<Longrightarrow> kept bs L L'"
  unfolding kept_def using extends_refl by blast

lemma kept_append: "kept bs A A' \<Longrightarrow> kept bs B B' \<Longrightarrow> kept bs (A @ B) (A' @ B')"
  unfolding kept_def by (auto simp: bex_Un)

lemma kept_trans:
  assumes "kept bs L M" and "kept cs M N"
  shows "kept (bs @ cs) L N"
  unfolding kept_def
proof
  fix l
  assume "l \<in> set L"
  then consider "fl_id l \<in> set bs" | m where "m \<in> set M" "extends l m" using assms(1) unfolding kept_def by blast
  then show "fl_id l \<in> set (bs @ cs) \<or> (\<exists>l' \<in> set N. extends l l')"
  proof cases
    case 2
    then show ?thesis using assms(2) extends_trans unfolding kept_def by (fastforce simp: extends_def)
  qed simp
qed

definition woken :: "file_lock list \<Rightarrow> lock_state \<Rightarrow> file_lock list \<Rightarrow> lock_state \<Rightarrow> bool" where
  "woken L s L' s' \<longleftrightarrow> (\<exists>bs. s' = fold locks_wake_up_blocks bs s \<and> kept bs L L')"

lemma woken_same [simp]: "woken L s L s"
  unfolding woken_def by (rule exI[of _ "[]"]) simp

lemma woken_trans:
  assumes "woken L s M s1" and "woken M s1 N s2"
  shows "woken L s N s2"
proof -
  obtain bs cs where "s1 = fold locks_wake_up_blocks bs s" "kept bs L M" "s2 = fold locks_wake_up_blocks cs s1" "kept cs M N"
    using assms unfolding woken_def by blast
  then show ?thesis unfolding woken_def using kept_trans[of bs L M cs N] by (intro exI[of _ "bs @ cs"]) simp
qed

lemma woken_kept: "kept [] L L' \<Longrightarrow> woken L s L' s"
  unfolding woken_def by (rule exI[of _ "[]"]) simp

lemma woken_one: "kept [b] L L' \<Longrightarrow> woken L s L' (locks_wake_up_blocks b s)"
  unfolding woken_def by (rule exI[of _ "[b]"]) simp

text \<open>Once the request points to a lock of the list, it has the range of that lock.\<close>

definition alias_ok :: "posix_walk \<Rightarrow> file_lock list \<Rightarrow> bool" where
  "alias_ok w pre \<longleftrightarrow> (\<forall>l \<in> set pre. pw_at w = Some (fl_id l) \<longrightarrow> fl_start l = fl_start (pw_req w) \<and> fl_end l = fl_end (pw_req w))"

text \<open>Growing the range of the request grows the lock it points to.\<close>

lemma grown:
  assumes "alias_ok w pre" and "st \<le> fl_start (pw_req w)" and "fl_end (pw_req w) \<le> en" and "l \<in> set pre"
    and pre2: "pre2 = (case pw_at w of None \<Rightarrow> pre | Some a \<Rightarrow> set_range a st en pre)"
  shows "\<exists>l' \<in> set pre2. extends l l'"
proof (cases "pw_at w = Some (fl_id l)")
  case True
  then have "l\<lparr>fl_start := st, fl_end := en\<rparr> \<in> set pre2" using assms(4) unfolding pre2 set_range_def by (force simp: image_iff)
  moreover have "extends l (l\<lparr>fl_start := st, fl_end := en\<rparr>)" using assms(1-4) True by (simp add: extends_def alias_ok_def)
  ultimately show ?thesis by blast
next
  case False
  then have "l \<in> set pre2" using assms(4) unfolding pre2 set_range_def by (force simp: image_iff split: option.split)
  then show ?thesis using extends_refl by blast
qed

lemma alias_grown:
  assumes "pre2 = (case pw_at w of None \<Rightarrow> pre | Some a \<Rightarrow> set_range a st en pre)"
    and "pw_at w1 = pw_at w" "fl_start (pw_req w1) = st" "fl_end (pw_req w1) = en"
  shows "alias_ok w1 pre2"
  unfolding alias_ok_def
proof (intro ballI impI)
  fix l
  assume l: "l \<in> set pre2" "pw_at w1 = Some (fl_id l)"
  define a where "a = fl_id l"
  have "pw_at w = Some a" using l(2) assms(2) by (simp add: a_def)
  then obtain l0 where l0: "l = (if fl_id l0 = a then l0\<lparr>fl_start := st, fl_end := en\<rparr> else l0)"
    using l(1) unfolding assms(1) by (auto simp only: set_range_def option.case set_map image_iff)
  have "fl_id l = fl_id l0" unfolding l0 by simp
  then have "fl_id l0 = a" by (simp only: a_def)
  then have "l = l0\<lparr>fl_start := st, fl_end := en\<rparr>" using l0 by simp
  then show "fl_start l = fl_start (pw_req w1) \<and> fl_end l = fl_end (pw_req w1)" unfolding assms(3,4) by simp
qed

lemma walk_woken:
  "distinct (map fl_id (pre @ suf)) \<Longrightarrow> alias_ok w pre \<Longrightarrow> \<forall>l \<in> set suf. pw_at w \<noteq> Some (fl_id l) \<Longrightarrow>
   walk_locks pre suf w s = (P, S, w', s') \<Longrightarrow> woken (pre @ suf) s (P @ S) s'"
proof (induction suf arbitrary: pre w s)
  case (Cons fl fls)
  have next_lock: "woken (pre @ fl # fls) s (P @ S) s'"
    if "walk_locks pre' fls w1 s1 = (P, S, w', s')" "woken (pre @ fl # fls) s (pre' @ fls) s1"
      "map fl_id pre' = map fl_id pre @ [fl_id fl] \<or> map fl_id pre' = map fl_id pre" "alias_ok w1 pre'" "pw_at w1 = pw_at w \<or> pw_at w1 = Some (fl_id fl)"
    for pre' w1 s1
  proof -
    have "map fl_id (pre' @ fls) = map fl_id (pre @ [fl] @ fls) \<or> map fl_id (pre' @ fls) = map fl_id (pre @ fls)" using that(3) by auto
    moreover have "distinct (map fl_id (pre @ [fl] @ fls))" "distinct (map fl_id (pre @ fls))" using Cons.prems(1) by simp_all
    ultimately have "distinct (map fl_id (pre' @ fls))" by metis
    moreover have "\<forall>l \<in> set fls. pw_at w1 \<noteq> Some (fl_id l)" using that(5) Cons.prems(1,3) by auto
    ultimately show ?thesis using Cons.IH[OF _ that(4) _ that(1)] woken_trans[OF that(2)] by blast
  qed
  note step = next_lock[of "pre @ [fl]" w s]
  have skip: ?case if "walk_locks (pre @ [fl]) fls w1 s = (P, S, w', s')" "pw_req w1 = pw_req w" "pw_at w1 = pw_at w" for w1
    using next_lock[OF that(1)] that(2,3) Cons.prems(2,3) by (simp add: alias_ok_def)
  have drop: ?case if "walk_locks pre fls w1 (locks_wake_up_blocks (fl_id fl) s) = (P, S, w', s')" "pw_req w1 = pw_req w" "pw_at w1 = pw_at w" for w1
  proof -
    have "kept [fl_id fl] (pre @ fl # fls) (pre @ fls)" by (rule kept_subset) simp
    from next_lock[OF that(1) woken_one[OF this]] show ?thesis using that(2,3) Cons.prems(2) by (simp add: alias_ok_def)
  qed
  define st where "st = (if fl_start fl > fl_start (pw_req w) then fl_start (pw_req w) else fl_start fl)"
  define en where "en = (if fl_end fl < fl_end (pw_req w) then fl_end (pw_req w) else fl_end fl)"
  define pre2 where "pre2 = (case pw_at w of None \<Rightarrow> pre | Some a \<Rightarrow> set_range a st en pre)"
  have rng: "st \<le> fl_start (pw_req w)" "fl_end (pw_req w) \<le> en" "st \<le> fl_start fl" "fl_end fl \<le> en" by (auto simp: st_def en_def)
  note gr = grown[OF Cons.prems(2) rng(1,2) _ pre2_def]
  have kept_pre: "kept bs pre pre2" for bs unfolding kept_def using gr by blast
  have mp: "map fl_id pre2 = map fl_id pre" by (simp add: pre2_def split: option.split)
  have more_merge: ?case
    if "walk_locks pre2 fls (w\<lparr>pw_req := (pw_req w)\<lparr>fl_start := st, fl_end := en\<rparr>\<rparr>) (locks_wake_up_blocks (fl_id fl) s) = (P, S, w', s')"
  proof -
    have "kept [fl_id fl] (pre @ fl # fls) (pre2 @ fls)"
      using kept_append[of "[fl_id fl]" pre pre2 "fl # fls" fls] kept_pre[of "[fl_id fl]"] kept_subset[of "fl # fls" "[fl_id fl]" fls] by simp
    from next_lock[OF that woken_one[OF this]] show ?thesis using mp alias_grown[OF pre2_def] by simp
  qed
  have alias_new: "alias_ok w1 (pre1 @ [fl1])"
    if "map fl_id pre1 = map fl_id pre" "pw_at w1 = Some (fl_id fl)" "pw_req w1 = fl1" for w1 pre1 fl1
  proof -
    have "fl_id fl \<notin> set (map fl_id pre1)" using Cons.prems(1) unfolding that(1) by simp
    then show ?thesis using that(2,3) by (auto simp: alias_ok_def)
  qed
  have first_merge: ?case
    if "walk_locks (pre2 @ [fl\<lparr>fl_start := st, fl_end := en\<rparr>]) fls (w\<lparr>pw_req := fl\<lparr>fl_start := st, fl_end := en\<rparr>, pw_at := Some (fl_id fl), pw_added := True\<rparr>) s =
      (P, S, w', s')"
  proof -
    have "extends fl (fl\<lparr>fl_start := st, fl_end := en\<rparr>)" using rng by (simp add: extends_def)
    then have "kept [] [fl] [fl\<lparr>fl_start := st, fl_end := en\<rparr>]" by (simp add: kept_def)
    then have "kept [] (pre @ [fl] @ fls) (pre2 @ [fl\<lparr>fl_start := st, fl_end := en\<rparr>] @ fls)" using kept_pre by (intro kept_append) simp_all
    then have "kept [] (pre @ fl # fls) ((pre2 @ [fl\<lparr>fl_start := st, fl_end := en\<rparr>]) @ fls)" by simp
    from next_lock[OF that woken_kept[OF this]] show ?thesis using mp alias_new by simp
  qed
  have replace: ?case
    if "walk_locks (pre @ [fl1]) fls (w1\<lparr>pw_req := fl1, pw_at := Some (fl_id fl), pw_added := True\<rparr>) (locks_wake_up_blocks (fl_id fl) s) = (P, S, w', s')"
      "fl_id fl1 = fl_id fl" for fl1 w1
  proof -
    have "kept [fl_id fl] (pre @ fl # fls) ((pre @ [fl1]) @ fls)" by (rule kept_subset) auto
    from next_lock[OF that(1) woken_one[OF this]] show ?thesis using that(2) alias_new by simp
  qed
  have stop: ?case if "(pre, fl # fls, w1, s) = (P, S, w', s')" for w1 using that by auto
  note eq = Cons.prems(4)
  let ?req = "pw_req w"
  show ?case
  proof (cases "posix_same_owner ?req fl")
    case False
    then show ?thesis using eq stop by simp
  next
    case own: True
    show ?thesis
    proof (cases "fl_type ?req = fl_type fl")
      case same: True
      show ?thesis
      proof (cases "fl_end fl < fl_start ?req - 1 \<or> fl_start fl - 1 > fl_end ?req")
        case True
        then show ?thesis using eq own same skip stop by (cases "fl_end fl < fl_start ?req - 1") simp_all
      next
        case False
        then show ?thesis using eq own same more_merge first_merge
          by (cases "pw_added w") (simp_all add: Let_def st_def[symmetric] en_def[symmetric] pre2_def[symmetric])
      qed
    next
      case diff: False
      define w1 where "w1 = (if fl_type ?req = F_UNLCK then w\<lparr>pw_added := True\<rparr> else w)"
      define w2 where "w2 = (if fl_start fl < fl_start ?req then w1\<lparr>pw_left := Some fl\<rparr> else w1)"
      have w2: "pw_req w2 = ?req" "pw_at w2 = pw_at w" by (simp_all add: w1_def w2_def)
      consider "fl_end fl < fl_start ?req" | "\<not> fl_end fl < fl_start ?req" "fl_start fl > fl_end ?req"
        | (over) "\<not> fl_end fl < fl_start ?req" "\<not> fl_start fl > fl_end ?req" by blast
      then show ?thesis
      proof cases
        case 1
        then show ?thesis using eq own diff skip by simp
      next
        case 2
        then show ?thesis using eq own diff stop by simp
      next
        case over
        have eq2: "(if fl_end fl > fl_end ?req then (pre, fl # fls, w2\<lparr>pw_right := Some fl\<rparr>, s)
            else if fl_start fl \<ge> fl_start ?req then
              if pw_added w2 then walk_locks pre fls w2 (locks_wake_up_blocks (fl_id fl) s)
              else walk_locks (pre @ [fl\<lparr>fl_start := fl_start ?req, fl_end := fl_end ?req, fl_type := fl_type ?req\<rparr>]) fls
                (w2\<lparr>pw_req := fl\<lparr>fl_start := fl_start ?req, fl_end := fl_end ?req, fl_type := fl_type ?req\<rparr>, pw_at := Some (fl_id fl), pw_added := True\<rparr>)
                (locks_wake_up_blocks (fl_id fl) s)
            else walk_locks (pre @ [fl]) fls w2 s) = (P, S, w', s')"
        proof -
          have id: "fl_id (fl\<lparr>fl_start := fl_start ?req, fl_end := fl_end ?req, fl_type := fl_type ?req\<rparr>) = fl_id fl" by simp
          show ?thesis using eq unfolding walk_locks.simps Let_def w1_def[symmetric] w2_def[symmetric]
            by (simp only: id own diff over if_True if_False not_True_eq_False not_False_eq_True)
        qed
        consider "fl_end fl > fl_end ?req" | "\<not> fl_end fl > fl_end ?req" "fl_start fl \<ge> fl_start ?req" | "\<not> fl_end fl > fl_end ?req" "\<not> fl_start fl \<ge> fl_start ?req" by blast
        then show ?thesis
        proof cases
          case 1
          then show ?thesis using eq2 stop by simp
        next
          case 2
          then show ?thesis using eq2 drop[OF _ w2] replace[of _ w2] by (cases "pw_added w2") simp_all
        next
          case 3
          then show ?thesis using eq2 skip[OF _ w2] by simp
        qed
      qed
    qed
  qed
qed simp

lemma finish_woken:
  assumes "finish_locks new_fl new_fl2 pre suf w s = (L', e, s')"
  shows "woken (pre @ suf) s L' s'"
proof -
  have cut: "kept [a] L (set_start a b L)" "kept [a] L (set_end a b L)" for a b L
    by (rule kept_subset, force simp: set_start_def set_end_def image_iff)+
  have wk: "woken L s (set_start a b L) (locks_wake_up_blocks a s)" "woken L s (set_end a b L) (locks_wake_up_blocks a s)" for a b L s
    using woken_one cut by blast+
  have r: "woken L s (set_start c d M) (locks_wake_up_blocks c s)" if "kept [] L M" for c d L M
    using woken_trans[OF woken_kept[OF that] wk(1)] .
  have l: "woken L s (set_end c d M) (locks_wake_up_blocks c s)" if "kept [] L M" for c d L M
    using woken_trans[OF woken_kept[OF that] wk(2)] .
  have lr: "woken L s (set_end a b (set_start c d M)) (locks_wake_up_blocks a (locks_wake_up_blocks c s))" if "kept [] L M" for a b c d L M
    using woken_trans[OF r[OF that] wk(2)] .
  show ?thesis
    using assms unfolding finish_locks_def Let_def
    by (cases "pw_right w"; cases "pw_left w")
      (auto split: if_splits simp del: set_simps intro!: lr r l woken_kept kept_subset)
qed

lemma apply_woken:
  assumes "distinct (map fl_id L)" and "apply_lock new_fl new_fl2 r L s = (L', e, s')"
  shows "woken L s L' s'"
proof -
  let ?o = "\<lambda>fl. \<not> IS_POSIX fl \<or> \<not> posix_same_owner r fl" and ?w = "\<lparr>pw_req = r, pw_at = None, pw_added = False, pw_left = None, pw_right = None\<rparr>"
  obtain P S w1 s1 where w: "walk_locks (takeWhile ?o L) (dropWhile ?o L) ?w s = (P, S, w1, s1)" by (rule prod_cases4)
  have first: "woken (takeWhile ?o L @ dropWhile ?o L) s (P @ S) s1"
  proof (rule walk_woken[OF _ _ _ w])
    show "distinct (map fl_id (takeWhile ?o L @ dropWhile ?o L))" using assms(1) by simp
  qed (simp_all add: alias_ok_def)
  have "finish_locks new_fl new_fl2 P S w1 s1 = (L', e, s')" using assms(2) unfolding apply_lock_def Let_def w by (simp only: prod.case)
  then have "woken (P @ S) s1 L' s'" by (rule finish_woken)
  with first show ?thesis unfolding takeWhile_dropWhile_id by (rule woken_trans)
qed

section \<open>The invariant\<close>

definition unused :: "nat \<Rightarrow> lock_state \<Rightarrow> bool" where
  "unused a s \<longleftrightarrow> (\<forall>i. a \<notin> fl_id ` set (i_flock s i))"

definition is_flock :: "file_lock \<Rightarrow> bool" where
  "is_flock l \<longleftrightarrow> IS_FLOCK l \<and> \<not> IS_POSIX l \<and> \<not> IS_LEASE l"

definition flock_ok :: "file_lock list \<Rightarrow> bool" where
  "flock_ok L \<longleftrightarrow> (\<forall>a \<in> set L. \<forall>b \<in> set L. is_flock a \<longrightarrow> is_flock b \<longrightarrow> \<not> flock_locks_conflict a b)"

text \<open>
  The queues: \<^verbatim>\<open>fl_next\<close> and \<^verbatim>\<open>fl_block\<close> agree, a lock that is waited for is in the list of its inode, and a request in
  \<^verbatim>\<open>blocked_list\<close> conflicts with the lock it waits for.
\<close>

definition waits_ok :: "lock_state \<Rightarrow> bool" where
  "waits_ok s \<longleftrightarrow>
     (\<forall>w i b. fl_next s w = Some (i, b) \<longrightarrow> w \<in> set (fl_block s b) \<and> b \<in> fl_id ` set (i_flock s i)) \<and>
     (\<forall>w b. w \<in> set (fl_block s b) \<longrightarrow> (\<exists>i. fl_next s w = Some (i, b))) \<and>
     (\<forall>wl \<in> set (blocked_list s). \<exists>i. \<exists>l \<in> set (i_flock s i). fl_next s (fl_id wl) = Some (i, fl_id l) \<and> posix_locks_conflict wl l) \<and>
     (\<forall>i j. i \<noteq> j \<longrightarrow> fl_id ` set (i_flock s i) \<inter> fl_id ` set (i_flock s j) = {})"

definition lk_inv :: "lock_state \<Rightarrow> bool" where
  "lk_inv s \<longleftrightarrow> (\<forall>i. lock_list_ok (i_flock s i) \<and> flock_ok (i_flock s i)) \<and> waits_ok s"

lemma unused_block: "waits_ok s \<Longrightarrow> unused a s \<Longrightarrow> fl_block s a = []"
proof (rule ccontr)
  assume w: "waits_ok s" "unused a s" "fl_block s a \<noteq> []"
  then obtain i where "fl_next s (hd (fl_block s a)) = Some (i, a)" unfolding waits_ok_def by (metis hd_in_set)
  then have "a \<in> fl_id ` set (i_flock s i)" using w(1) unfolding waits_ok_def by blast
  then show False using w(2) unfolding unused_def by blast
qed

text \<open>A list replaced, with the waiters of the locks that are gone or smaller woken.\<close>

lemma waits_ok_list:
  assumes s: "waits_ok s" and w: "woken (i_flock s ino) s L' s'"
    and ids: "\<forall>a \<in> fl_id ` set L'. a \<in> fl_id ` set (i_flock s ino) \<or> unused a s"
  shows "waits_ok (s'\<lparr>i_flock := (i_flock s')(ino := L')\<rparr>)"
proof -
  obtain bs where s': "s' = release_waiters (waiters bs s) s" and kept: "kept bs (i_flock s ino) L'"
    using w unfolding woken_def fold_wake_up by blast
  let ?U = "waiters bs s" and ?t = "s'\<lparr>i_flock := (i_flock s')(ino := L')\<rparr>"
  have s1: "fl_next s w = Some (i, b) \<Longrightarrow> w \<in> set (fl_block s b) \<and> b \<in> fl_id ` set (i_flock s i)" for w i b using s unfolding waits_ok_def by blast
  have s2: "w \<in> set (fl_block s b) \<Longrightarrow> \<exists>i. fl_next s w = Some (i, b)" for w b using s unfolding waits_ok_def by blast
  have s3: "wl \<in> set (blocked_list s) \<Longrightarrow> \<exists>i. \<exists>l \<in> set (i_flock s i). fl_next s (fl_id wl) = Some (i, fl_id l) \<and> posix_locks_conflict wl l" for wl
    using s unfolding waits_ok_def by blast
  have s4: "i \<noteq> j \<Longrightarrow> fl_id ` set (i_flock s i) \<inter> fl_id ` set (i_flock s j) = {}" for i j using s unfolding waits_ok_def by blast
  have stay: "\<exists>l' \<in> set (i_flock ?t i). extends l l'" if "l \<in> set (i_flock s i)" "fl_next s w = Some (i, fl_id l)" "w \<notin> ?U" for w i l
  proof (cases "i = ino")
    case True
    have "fl_id l \<notin> set bs" using s1[OF that(2)] that(3) unfolding waiters_def by blast
    then show ?thesis using kept that(1) True unfolding kept_def by auto
  next
    case False
    then have "l \<in> set (i_flock ?t i)" using that(1) by (simp add: s')
    then show ?thesis using extends_refl by blast
  qed
  have "w \<in> set (fl_block ?t b) \<and> b \<in> fl_id ` set (i_flock ?t i)" if n: "fl_next ?t w = Some (i, b)" for w i b
  proof -
    have w: "w \<notin> ?U" "fl_next s w = Some (i, b)" using n by (auto simp: s' split: if_splits)
    obtain l where l: "l \<in> set (i_flock s i)" "fl_id l = b" using s1[OF w(2)] by blast
    then obtain l' where "l' \<in> set (i_flock ?t i)" "extends l l'" using stay[of l i w] w by blast
    then have "b \<in> fl_id ` set (i_flock ?t i)" using l(2) unfolding extends_def by (metis imageI)
    then show ?thesis using w s1[OF w(2)] by (simp add: s')
  qed
  moreover have "\<exists>i. fl_next ?t w = Some (i, b)" if "w \<in> set (fl_block ?t b)" for w b using that s2[of w b] by (simp add: s')
  moreover have "\<exists>i. \<exists>l \<in> set (i_flock ?t i). fl_next ?t (fl_id wl) = Some (i, fl_id l) \<and> posix_locks_conflict wl l" if m: "wl \<in> set (blocked_list ?t)" for wl
  proof -
    have wl: "wl \<in> set (blocked_list s)" "fl_id wl \<notin> ?U" using m by (simp_all add: s')
    obtain i l where l: "l \<in> set (i_flock s i)" "fl_next s (fl_id wl) = Some (i, fl_id l)" "posix_locks_conflict wl l" using s3[OF wl(1)] by blast
    obtain l' where "l' \<in> set (i_flock ?t i)" "extends l l'" using stay[OF l(1,2) wl(2)] by blast
    moreover have "posix_locks_conflict wl l'" using l(3) \<open>extends l l'\<close>
      by (auto simp: extends_def posix_locks_conflict_def locks_conflict_def locks_overlap_def posix_same_owner_def IS_POSIX_def split: if_splits)
    moreover have "fl_next ?t (fl_id wl) = Some (i, fl_id l')" using l(2) wl(2) \<open>extends l l'\<close> by (simp add: s' extends_def)
    ultimately show ?thesis by blast
  qed
  moreover have "fl_id ` set (i_flock ?t i) \<inter> fl_id ` set (i_flock ?t j) = {}" if "i \<noteq> j" for i j
  proof -
    have old: "a \<in> fl_id ` set (i_flock s ino) \<or> unused a s" if "a \<in> fl_id ` set L'" for a using ids that by blast
    have "fl_id ` set L' \<inter> fl_id ` set (i_flock s k) = {}" if "k \<noteq> ino" for k
      using old s4[OF that] unfolding unused_def by blast
    then show ?thesis using \<open>i \<noteq> j\<close> s4[OF \<open>i \<noteq> j\<close>] by (simp add: s' Int_commute)
  qed
  ultimately show ?thesis unfolding waits_ok_def by blast
qed

lemma waits_ok_release: "waits_ok s \<Longrightarrow> waits_ok (release_waiters U s)"
  unfolding waits_ok_def by (simp; blast)

lemma waits_ok_insert:
  assumes s: "waits_ok s" and l: "l \<in> set (i_flock s ino)" "IS_POSIX l \<Longrightarrow> posix_locks_conflict r l"
    and ins: "locks_insert_block ino l r s = Ok s'"
  shows "waits_ok s' \<and> i_flock s' = i_flock s"
proof -
  have new: "fl_next s (fl_id r) = None" "fl_block s (fl_id r) = []"
    and s': "s' = s\<lparr>fl_block := (fl_block s)(fl_id l := fl_block s (fl_id l) @ [fl_id r]),
                 fl_next := (fl_next s)(fl_id r \<mapsto> (ino, fl_id l)),
                 blocked_list := (if IS_POSIX l then r # blocked_list s else blocked_list s)\<rparr>"
    using ins unfolding locks_insert_block_def by (simp_all split: if_split_asm del: not_None_eq)
  have s1: "fl_next s w = Some (i, b) \<Longrightarrow> w \<in> set (fl_block s b) \<and> b \<in> fl_id ` set (i_flock s i)" for w i b using s unfolding waits_ok_def by blast
  have s2: "w \<in> set (fl_block s b) \<Longrightarrow> \<exists>i. fl_next s w = Some (i, b)" for w b using s unfolding waits_ok_def by blast
  have s3: "wl \<in> set (blocked_list s) \<Longrightarrow> \<exists>i. \<exists>l \<in> set (i_flock s i). fl_next s (fl_id wl) = Some (i, fl_id l) \<and> posix_locks_conflict wl l" for wl
    using s unfolding waits_ok_def by blast
  have "w \<in> set (fl_block s' b) \<and> b \<in> fl_id ` set (i_flock s' i)" if "fl_next s' w = Some (i, b)" for w i b
  proof (cases "w = fl_id r")
    case True
    then show ?thesis using that l(1) by (auto simp: s')
  next
    case False
    then have "w \<in> set (fl_block s b) \<and> b \<in> fl_id ` set (i_flock s i)" using that s1[of w i b] by (simp add: s')
    then show ?thesis by (auto simp: s')
  qed
  moreover have "\<exists>i. fl_next s' w = Some (i, b)" if "w \<in> set (fl_block s' b)" for w b
    using that s2[of w b] new(1) by (auto simp: s' split: if_splits)
  moreover have "\<exists>i. \<exists>l \<in> set (i_flock s' i). fl_next s' (fl_id wl) = Some (i, fl_id l) \<and> posix_locks_conflict wl l"
    if m: "wl \<in> set (blocked_list s')" for wl
  proof (cases "wl \<in> set (blocked_list s)")
    case True
    obtain i l' where l': "l' \<in> set (i_flock s i)" "fl_next s (fl_id wl) = Some (i, fl_id l')" "posix_locks_conflict wl l'" using s3[OF True] by blast
    then have "fl_id wl \<noteq> fl_id r" using new(1) by auto
    then have "l' \<in> set (i_flock s' i)" "fl_next s' (fl_id wl) = Some (i, fl_id l')" using l' by (simp_all add: s')
    then show ?thesis using l'(3) by blast
  next
    case False
    then have "wl = r" "IS_POSIX l" using m by (auto simp: s' split: if_splits)
    moreover have "l \<in> set (i_flock s' ino)" "fl_next s' (fl_id r) = Some (ino, fl_id l)" using l(1) by (simp_all add: s')
    ultimately show ?thesis using l(2) by blast
  qed
  moreover have "\<forall>i j. i \<noteq> j \<longrightarrow> fl_id ` set (i_flock s' i) \<inter> fl_id ` set (i_flock s' j) = {}"
    using s unfolding waits_ok_def by (simp add: s')
  ultimately show ?thesis unfolding waits_ok_def by (simp add: s')
qed

section \<open>Lists after a deletion and an insertion\<close>

lemma hd_filter_group:
  "grouped L \<Longrightarrow> \<forall>m \<in> set L. IS_POSIX m \<Longrightarrow> L \<noteq> [] \<Longrightarrow> fl_owner (hd L) = ow \<Longrightarrow> \<exists>m \<in> set (filter P L). fl_owner m = ow \<Longrightarrow>
   fl_owner (hd (filter P L)) = ow"
proof (induction L)
  case (Cons l L)
  show ?case
  proof (cases "P l")
    case False
    then have ex: "\<exists>m \<in> set (filter P L). fl_owner m = ow" using Cons.prems(5) by simp
    then have "L \<noteq> []" "\<exists>m \<in> set L. fl_owner m = fl_owner l" using Cons.prems(4) by auto
    then have "fl_owner (hd L) = ow" using Cons.prems(1,2,4) by simp
    then show ?thesis using Cons.IH[OF _ _ \<open>L \<noteq> []\<close> _ ex] Cons.prems(1,2) False by simp
  qed (use Cons.prems in simp)
qed simp

lemma grouped_filter: "grouped L \<Longrightarrow> grouped (filter P L)"
proof (induction L)
  case (Cons l L)
  show ?case
  proof (cases "P l \<and> IS_POSIX l")
    case True
    have all: "\<forall>m \<in> set L. IS_POSIX m" using Cons.prems True by simp
    have "fl_owner (hd (filter P L)) = fl_owner l" if ex: "\<exists>m \<in> set (filter P L). fl_owner m = fl_owner l"
    proof (rule hd_filter_group[OF _ all _ _ ex])
      show "L \<noteq> []" "grouped L" using ex Cons.prems by auto
      have "\<exists>m \<in> set L. fl_owner m = fl_owner l" using ex by auto
      then show "fl_owner (hd L) = fl_owner l" using Cons.prems True by simp
    qed
    then show ?thesis using Cons True all by simp
  qed (use Cons in auto)
qed simp

lemma lock_list_ok_filter:
  assumes "lock_list_ok L"
  shows "lock_list_ok (filter P L)"
proof -
  have sub: "filter (own ow) (filter P L) = filter P (filter (own ow) L)" for ow by (simp add: conj_commute)
  have held: "held_by ow L b t" if "held_by ow (filter P L) b t" for ow b t using that unfolding held_by_def locked_at_def by auto
  have "segs (filter P G)" if "segs G" for G using that unfolding segs_def by (simp add: sorted_wrt_filter)
  then have "segs (filter (own ow) (filter P L))" for ow using assms unfolding sub lock_list_ok_def by blast
  moreover have "distinct (map fl_id (filter P L))" using assms unfolding lock_list_ok_def by (simp add: distinct_map_filter)
  ultimately show ?thesis using assms held grouped_filter unfolding lock_list_ok_def by blast
qed

lemma flock_ok_filter: "flock_ok L \<Longrightarrow> flock_ok (filter P L)"
  by (auto simp: flock_ok_def)

lemma flock_ok_same: "filter (\<lambda>l. \<not> IS_POSIX l) L' = filter (\<lambda>l. \<not> IS_POSIX l) L \<Longrightarrow> flock_ok L \<Longrightarrow> flock_ok L'"
proof -
  assume same: "filter (\<lambda>l. \<not> IS_POSIX l) L' = filter (\<lambda>l. \<not> IS_POSIX l) L" and ok: "flock_ok L"
  have "x \<in> set L" if "x \<in> set L'" "is_flock x" for x
    using arg_cong[OF same, of set] that by (auto simp: is_flock_def)
  then show "flock_ok L'" using ok unfolding flock_ok_def by blast
qed

text \<open>A whole-file lock goes in behind the last lock that is not a POSIX lock.\<close>

lemma lock_list_ok_insert:
  assumes ok: "lock_list_ok (X @ R)" and X: "\<forall>l \<in> set X. \<not> IS_POSIX l" and fl: "\<not> IS_POSIX fl" "fl_id fl \<notin> fl_id ` set (X @ R)"
  shows "lock_list_ok (X @ fl # R)"
proof -
  have f: "filter (own ow) (X @ fl # R) = filter (own ow) (X @ R)" for ow using fl(1) by (simp add: own_def)
  have "grouped (X @ R) \<Longrightarrow> grouped (X @ fl # R)" using X fl(1) by (induction X) auto
  then show ?thesis using ok fl(2) unfolding lock_list_ok_def held_by_def f by auto
qed

lemma posix_rest: "grouped L \<Longrightarrow> (\<And>m. \<not> IS_POSIX m \<Longrightarrow> other m) \<Longrightarrow> l \<in> set (dropWhile other L) \<Longrightarrow> IS_POSIX l"
  by (induction L) (auto split: if_splits)

lemma posix_seg: "lock_list_ok L \<Longrightarrow> l \<in> set L \<Longrightarrow> IS_POSIX l \<Longrightarrow> seg_ok l"
  unfolding lock_list_ok_def segs_def by (auto simp: own_def)

lemma find_conflict_none:
  assumes "flock_find_conflict r L = None" and "grouped L" and "l \<in> set L" and "is_flock l"
  shows "\<not> flock_locks_conflict r l"
  using assms by (induction L) (auto simp: is_flock_def split: if_splits)

lemma find_conflict_some:
  "flock_find_conflict r L = Some l \<Longrightarrow> l \<in> set L \<and> \<not> IS_POSIX l \<and> flock_locks_conflict r l"
  by (induction L) (auto split: if_splits)

lemma conflict_sym: "IS_FLOCK a \<Longrightarrow> flock_locks_conflict a b \<Longrightarrow> flock_locks_conflict b a"
  by (auto simp: flock_locks_conflict_def locks_conflict_def split: if_splits)

lemma old_lock_some:
  "flock_old_lock f L = Some l \<Longrightarrow> l \<in> set L \<and> \<not> IS_POSIX l \<and> \<not> IS_LEASE l \<and> fl_file l = f"
  by (induction L) (auto split: if_splits)

section \<open>The system\<close>

definition fresh :: "nat option \<Rightarrow> lock_state \<Rightarrow> bool" where
  "fresh mem s \<longleftrightarrow> (\<forall>a \<in> set_option mem. unused a s)"

text \<open>The caller of a lock function: its lock is in no list and does not wait, and the addresses of new locks are free.\<close>

definition caller_ok :: "file_lock \<Rightarrow> nat option \<Rightarrow> nat option \<Rightarrow> lock_state \<Rightarrow> bool" where
  "caller_ok r mem mem2 s \<longleftrightarrow>
     unused (fl_id r) s \<and> fl_next s (fl_id r) = None \<and> fresh mem s \<and> fresh mem2 s \<and> set_option mem \<inter> set_option mem2 = {}"

definition lk_init :: "lock_state \<Rightarrow> bool" where
  "lk_init s \<longleftrightarrow> s = \<lparr>i_flock = (\<lambda>i. []), fl_block = (\<lambda>b. []), fl_next = (\<lambda>w. None), blocked_list = []\<rparr>"

inductive lk_step :: "lock_state \<Rightarrow> lock_state \<Rightarrow> bool" where
  posix: "request_ok r \<Longrightarrow> caller_ok r mem mem2 s \<Longrightarrow> do_posix_lock_file ino mem mem2 r s = Ok (s', e, c) \<Longrightarrow> lk_step s s'"
| flock1: "is_flock r \<Longrightarrow> flock_first_half ino mem r s = (s', p) \<Longrightarrow> lk_step s s'"
| flock2: "is_flock r \<Longrightarrow> caller_ok r (Some a) None s \<Longrightarrow> flock_second_half ino a r s = Ok (s', e) \<Longrightarrow> lk_step s s'"
| interrupt: "lk_step s (locks_delete_block w s)"
| close: "locks_remove_posix ino filp owner tgid s = Ok s' \<Longrightarrow> lk_step s s'"
| release: "locks_remove_flock ino filp s = Ok s' \<Longrightarrow> lk_step s s'"

lemma lk_inv_list:
  assumes s: "lk_inv s" and w: "woken (i_flock s ino) s L' s'" and ids: "\<forall>a \<in> fl_id ` set L'. a \<in> fl_id ` set (i_flock s ino) \<or> unused a s"
    and ok: "lock_list_ok L'" "flock_ok L'"
  shows "lk_inv (s'\<lparr>i_flock := (i_flock s')(ino := L')\<rparr>)"
proof -
  have "i_flock s' = i_flock s" using w unfolding woken_def fold_wake_up by auto
  then show ?thesis using s ok waits_ok_list[OF _ w ids] unfolding lk_inv_def by simp
qed

lemma delete_lock_eq:
  "locks_delete_lock ino a s =
   (locks_wake_up_blocks a s)\<lparr>i_flock := (i_flock (locks_wake_up_blocks a s))(ino := filter (\<lambda>fl. fl_id fl \<noteq> a) (i_flock s ino))\<rparr>"
  unfolding locks_delete_lock_def wake_up_release by (rule lock_state.equality) (simp_all add: fun_eq_iff release_waiters_def)

lemma delete_lock_inv:
  assumes "lk_inv s"
  shows "lk_inv (locks_delete_lock ino a s)"
proof -
  let ?L = "i_flock s ino"
  have "kept [a] ?L (filter (\<lambda>fl. fl_id fl \<noteq> a) ?L)" by (rule kept_subset) auto
  then have "woken ?L s (filter (\<lambda>fl. fl_id fl \<noteq> a) ?L) (locks_wake_up_blocks a s)" unfolding woken_def by (intro exI[of _ "[a]"]) simp
  then show ?thesis unfolding delete_lock_eq using assms
    by (intro lk_inv_list) (auto simp: lk_inv_def intro: lock_list_ok_filter flock_ok_filter)
qed

lemma fold_delete_inv: "lk_inv s \<Longrightarrow> lk_inv (fold (\<lambda>fl. locks_delete_lock ino (fl_id fl)) xs s)"
  by (induction xs arbitrary: s) (simp_all add: delete_lock_inv)

lemma first_half_inv: "lk_inv s \<Longrightarrow> flock_first_half ino mem r s = (s', p) \<Longrightarrow> lk_inv s'"
  by (auto simp: flock_first_half_def Let_def delete_lock_inv split: if_splits option.splits)

lemma insert_inv:
  assumes "lk_inv s" and "l \<in> set (i_flock s ino)" "IS_POSIX l \<Longrightarrow> posix_locks_conflict r l" and "locks_insert_block ino l r s = Ok s'"
  shows "lk_inv s'"
  using assms waits_ok_insert[of s l ino r s'] unfolding lk_inv_def by simp

lemma second_half_inv:
  assumes s: "lk_inv s" and r: "is_flock r" and c: "caller_ok r (Some a) None s" and f: "flock_second_half ino a r s = Ok (s', e)"
  shows "lk_inv s'"
proof (cases "flock_find_conflict r (i_flock s ino)")
  case (Some l)
  have l: "l \<in> set (i_flock s ino)" "\<not> IS_POSIX l" using find_conflict_some[OF Some] by auto
  show ?thesis
  proof (cases "locks_insert_block ino l r s")
    case (Ok s1)
    have "lk_inv s1" by (rule insert_inv[OF s l(1) _ Ok]) (use l(2) in blast)
    then show ?thesis using f Some Ok s by (auto simp: flock_second_half_def split: if_splits)
  qed (use f Some s in \<open>auto simp: flock_second_half_def split: if_splits\<close>)
next
  case None
  let ?L = "i_flock s ino" and ?n = "new_lock a r"
  let ?X = "takeWhile (\<lambda>l. \<not> IS_POSIX l) ?L" and ?R = "dropWhile (\<lambda>l. \<not> IS_POSIX l) ?L"
  have L: "lock_list_ok ?L" "flock_ok ?L" using s unfolding lk_inv_def by auto
  have n: "is_flock ?n" "fl_file ?n = fl_file r" using r by (simp_all add: is_flock_def IS_FLOCK_def IS_LEASE_def IS_POSIX_def new_lock_def locks_copy_lock_def do_locks_copy_lock_def)
  have a: "unused a s" using c unfolding caller_ok_def fresh_def by simp
  have ok: "lock_list_ok (?X @ ?n # ?R)"
  proof (rule lock_list_ok_insert)
    show "\<forall>l \<in> set ?X. \<not> IS_POSIX l" using set_takeWhileD by fast
    show "fl_id ?n \<notin> fl_id ` set (?X @ ?R)" using a unfolding unused_def by simp
  qed (use L(1) n(1) in \<open>simp_all add: is_flock_def\<close>)
  have same: "flock_locks_conflict ?n l = flock_locks_conflict r l" for l
    by (simp add: flock_locks_conflict_def locks_conflict_def n)
  have free: "\<not> flock_locks_conflict ?n l" if "l \<in> set ?L" "is_flock l" for l
    unfolding same using find_conflict_none[OF None _ that] L(1) unfolding lock_list_ok_def by blast
  have bwd: "\<not> flock_locks_conflict l ?n" if "l \<in> set ?L" "is_flock l" for l
    using free[OF that] conflict_sym[of l ?n] that(2) unfolding is_flock_def by blast
  have self: "\<not> flock_locks_conflict ?n ?n" by (simp add: flock_locks_conflict_def)
  have set: "set (?X @ ?n # ?R) = insert ?n (set ?L)" by (metis insert_is_Un list.simps(15) set_append sup_left_commute takeWhile_dropWhile_id)
  have fl: "flock_ok (?X @ ?n # ?R)" using L(2) free bwd self unfolding flock_ok_def set by blast
  have "woken ?L s (?X @ ?n # ?R) s" unfolding woken_def kept_def set by (intro exI[of _ "[]"]) force
  then have "lk_inv (s\<lparr>i_flock := (i_flock s)(ino := ?X @ ?n # ?R)\<rparr>)"
    by (rule lk_inv_list[OF s _ _ ok fl]) (use a in \<open>unfold set, auto\<close>)
  then show ?thesis using f None s by (auto simp: flock_second_half_def Let_def new_lock_def split: if_splits)
qed

subsection \<open>A call of \<^verbatim>\<open>__posix_lock_file\<close>\<close>

text \<open>The chain of owners that wait for each other is followed without fault, and the loop returns.\<close>

lemma find_in: "find P L = Some l \<Longrightarrow> l \<in> set L \<and> P l"
  by (induction L) (auto split: if_splits)

lemma lock_ref_in: "l \<in> set (i_flock s i) \<Longrightarrow> \<exists>m. lock_ref s (i, fl_id l) = Some m \<and> m \<in> set (i_flock s i) \<and> fl_id m = fl_id l"
  unfolding lock_ref_def fst_conv snd_conv
  by (cases "find (\<lambda>fl. fl_id fl = fl_id l) (i_flock s i)") (auto simp: find_None_iff dest: find_in)

lemma waits_blocked:
  "waits_ok s \<Longrightarrow> wl \<in> set (blocked_list s) \<Longrightarrow> \<exists>i. \<exists>l \<in> set (i_flock s i). fl_next s (fl_id wl) = Some (i, fl_id l) \<and> posix_locks_conflict wl l"
  unfolding waits_ok_def by blast

lemma waiting_ok:
  assumes "waits_ok s"
  shows "\<exists>b. what_owner_is_waiting_for s l = Ok b"
proof (cases "find (\<lambda>fl. posix_same_owner fl l) (blocked_list s)")
  case (Some w)
  obtain i m where m: "m \<in> set (i_flock s i)" "fl_next s (fl_id w) = Some (i, fl_id m)"
    using waits_blocked[OF assms, of w] find_in[OF Some] by blast
  obtain x where "lock_ref s (i, fl_id m) = Some x" using lock_ref_in[OF m(1)] by blast
  then show ?thesis by (simp add: what_owner_is_waiting_for_def Some m(2))
qed (simp add: what_owner_is_waiting_for_def)

declare deadlock_loop.simps [simp del]

lemma deadlock_ok: "waits_ok s \<Longrightarrow> \<exists>b. deadlock_loop s c i l = Ok b"
proof (induction s c i l rule: deadlock_loop.induct)
  case (1 s c i l)
  obtain b where b: "what_owner_is_waiting_for s l = Ok b" using waiting_ok[OF 1(2)] by blast
  show ?case
  proof (cases b)
    case (Some m)
    show ?thesis using 1(1)[OF b Some _ _ 1(2)] by (simp add: deadlock_loop.simps[of s c i l] b Some) blast
  qed (auto simp: deadlock_loop.simps[of s c i l] b)
qed

text \<open>What a call does: the error and the conflicting lock it reports, and the state it leaves.\<close>

definition lock_posted :: "nat \<Rightarrow> file_lock \<Rightarrow> lock_state \<Rightarrow> lock_state \<Rightarrow> bool" where
  "lock_posted ino r s s' \<longleftrightarrow>
     (\<forall>b t. held_by (fl_owner r) (i_flock s' ino) b t \<longleftrightarrow>
       (if fl_start r \<le> b \<and> b \<le> fl_end r then fl_type r \<noteq> F_UNLCK \<and> t = fl_type r else held_by (fl_owner r) (i_flock s ino) b t)) \<and>
     (\<forall>ow. ow \<noteq> fl_owner r \<longrightarrow> filter (own ow) (i_flock s' ino) = filter (own ow) (i_flock s ino)) \<and>
     filter (\<lambda>l. \<not> IS_POSIX l) (i_flock s' ino) = filter (\<lambda>l. \<not> IS_POSIX l) (i_flock s ino) \<and>
     (\<forall>i. i \<noteq> ino \<longrightarrow> i_flock s' i = i_flock s i)"

definition real_conflict :: "nat \<Rightarrow> file_lock \<Rightarrow> lock_state \<Rightarrow> file_lock option \<Rightarrow> bool" where
  "real_conflict ino r s c \<longleftrightarrow> fl_type r \<noteq> F_UNLCK \<and> (\<exists>l \<in> set (i_flock s ino). c = Some l \<and> posix_locks_conflict r l)"

definition lock_call :: "nat \<Rightarrow> nat option \<Rightarrow> nat option \<Rightarrow> file_lock \<Rightarrow> lock_state \<Rightarrow> lock_state \<Rightarrow> errno option \<Rightarrow> file_lock option \<Rightarrow> bool" where
  "lock_call ino mem mem2 r s s' e c \<longleftrightarrow>
     e = None \<and> (fl_type r \<noteq> F_UNLCK \<longrightarrow> (\<forall>l \<in> set (i_flock s ino). \<not> posix_locks_conflict r l)) \<and>
       (if fl_flags r AND FL_ACCESS \<noteq> 0 then s' = s else lock_posted ino r s s') \<or>
     e = Some EAGAIN \<and> real_conflict ino r s c \<and>
       (if fl_flags r AND FL_SLEEP = 0 then s' = s
        else i_flock s' = i_flock s \<and> fl_next s' (fl_id r) = Some (ino, fl_id (the c)) \<and> r \<in> set (blocked_list s')) \<or>
     e = Some EDEADLK \<and> s' = s \<and> real_conflict ino r s c \<and> fl_flags r AND FL_SLEEP \<noteq> 0 \<and> posix_locks_deadlock s r (the c) = Ok True \<or>
     e = Some ENOLCK \<and> s' = s \<and> (mem = None \<or> mem2 = None) \<and> (fl_type r = F_UNLCK \<longrightarrow> fl_start r \<noteq> 0 \<or> fl_end r \<noteq> OFFSET_MAX) \<or>
     e = Some ENOENT \<and> s' = s \<and> fl_type r = F_UNLCK \<and> fl_flags r AND FL_EXISTS \<noteq> 0 \<and>
       (\<forall>b t. fl_start r \<le> b \<longrightarrow> b \<le> fl_end r \<longrightarrow> \<not> held_by (fl_owner r) (i_flock s ino) b t)"

text \<open>Unlocking the whole file needs no memory: no lock of the owner sticks out of the range.\<close>

lemma walk_whole:
  assumes "fl_type (pw_req w) = F_UNLCK" "fl_start (pw_req w) = 0" "fl_end (pw_req w) = OFFSET_MAX"
    and "\<forall>l \<in> set suf. seg_ok l" and "walk_locks pre suf w s = (P, S, w', s')" and "pw_right w = None"
  shows "pw_right w' = None \<and> pw_req w' = pw_req w"
  using assms
proof (induction suf arbitrary: pre w s)
  case (Cons fl fls)
  have fl: "fl_type fl \<noteq> F_UNLCK" "0 \<le> fl_start fl" "fl_start fl \<le> fl_end fl" "fl_end fl \<le> OFFSET_MAX"
    using Cons.prems(4) by (auto simp: seg_ok_def F_UNLCK_def F_RDLCK_def F_WRLCK_def)
  have "walk_locks pre (fl # fls) w s =
      (if posix_same_owner (pw_req w) fl then walk_locks pre fls (w\<lparr>pw_added := True\<rparr>) (locks_wake_up_blocks (fl_id fl) s) else (pre, fl # fls, w, s))"
    using fl Cons.prems(1-3) by (simp add: Let_def)
  then consider "walk_locks pre fls (w\<lparr>pw_added := True\<rparr>) (locks_wake_up_blocks (fl_id fl) s) = (P, S, w', s')" | "w' = w"
    using Cons.prems(5) by (auto split: if_splits)
  then show ?case
  proof cases
    case 1
    show ?thesis using Cons.IH[OF _ _ _ _ 1] Cons.prems(1-4,6) by simp
  qed (use Cons.prems(6) in simp)
qed simp

lemma unlock_whole:
  assumes L: "lock_list_ok L" and r: "fl_type r = F_UNLCK" "fl_start r = 0" "fl_end r = OFFSET_MAX"
    and a: "apply_lock new_fl new_fl2 r L s = (L', e, s')"
  shows "e \<noteq> Some ENOLCK"
proof -
  let ?o = "\<lambda>fl. \<not> IS_POSIX fl \<or> \<not> posix_same_owner r fl" and ?w = "\<lparr>pw_req = r, pw_at = None, pw_added = False, pw_left = None, pw_right = None\<rparr>"
  obtain P S w1 s1 where w: "walk_locks (takeWhile ?o L) (dropWhile ?o L) ?w s = (P, S, w1, s1)" by (rule prod_cases4)
  have "pw_right w1 = None \<and> pw_req w1 = pw_req ?w"
  proof (rule walk_whole[OF _ _ _ _ w])
    have "IS_POSIX l" if "l \<in> set (dropWhile ?o L)" for l
      by (rule posix_rest[OF _ _ that]) (use L in \<open>simp_all add: lock_list_ok_def\<close>)
    then show "\<forall>l \<in> set (dropWhile ?o L). seg_ok l" using posix_seg[OF L] set_dropWhileD by fast
  qed (simp_all add: r)
  moreover have "finish_locks new_fl new_fl2 P S w1 s1 = (L', e, s')" using a unfolding apply_lock_def Let_def w by (simp only: prod.case)
  ultimately show ?thesis using r(1) by (auto simp: finish_locks_def Let_def split: if_splits prod.splits option.splits)
qed

lemma find_posix: "find (\<lambda>fl. IS_POSIX fl \<and> posix_locks_conflict r fl) L = Some l \<Longrightarrow> l \<in> set L \<and> posix_locks_conflict r l"
  using find_in by fastforce

lemma find_posix_none: "find (\<lambda>fl. IS_POSIX fl \<and> posix_locks_conflict r fl) L = None \<Longrightarrow> l \<in> set L \<Longrightarrow> \<not> posix_locks_conflict r l"
  by (auto simp: find_None_iff posix_locks_conflict_def split: if_splits)

text \<open>The two ways through the function: a conflict, and none.\<close>

lemma posix_conflict:
  assumes s: "lk_inv s" and c: "caller_ok r mem mem2 s" and f: "fl_type r \<noteq> F_UNLCK" "find (\<lambda>fl. IS_POSIX fl \<and> posix_locks_conflict r fl) (i_flock s ino) = Some l"
  shows "\<exists>s' e. do_posix_lock_file ino mem mem2 r s = Ok (s', e, Some l) \<and> lk_inv s' \<and> lock_call ino mem mem2 r s s' e (Some l)"
proof (cases "fl_flags r AND FL_SLEEP = 0")
  case True
  then show ?thesis using s f find_posix[OF f(2)] by (auto simp: do_posix_lock_file_def Let_def lock_call_def real_conflict_def)
next
  case False
  have w: "waits_ok s" using s unfolding lk_inv_def by blast
  have l: "l \<in> set (i_flock s ino)" "posix_locks_conflict r l" using find_posix[OF f(2)] by auto
  then have real: "real_conflict ino r s (Some l)" using f(1) unfolding real_conflict_def by blast
  obtain d where d: "posix_locks_deadlock s r l = Ok d" using deadlock_ok[OF w] unfolding posix_locks_deadlock_def by blast
  show ?thesis
  proof (cases d)
    case True
    then show ?thesis using s f False d real by (auto simp: do_posix_lock_file_def Let_def lock_call_def)
  next
    case nd: False
    have "fl_next s (fl_id r) = None" "fl_block s (fl_id r) = []" using c unused_block[OF w] unfolding caller_ok_def by auto
    then obtain s' where s': "locks_insert_block ino l r s = Ok s'" unfolding locks_insert_block_def by simp
    have "lk_inv s'" using insert_inv[OF s l(1) l(2) s'] .
    moreover have "IS_POSIX l" using l(2) by (auto simp: posix_locks_conflict_def split: if_splits)
    then have "i_flock s' = i_flock s \<and> fl_next s' (fl_id r) = Some (ino, fl_id l) \<and> r \<in> set (blocked_list s')"
      using s' unfolding locks_insert_block_def by (auto split: if_splits)
    moreover have "do_posix_lock_file ino mem mem2 r s = Ok (s', Some EAGAIN, Some l)"
      using f False d nd s' by (simp add: do_posix_lock_file_def Let_def)
    ultimately show ?thesis using real False unfolding lock_call_def by auto
  qed
qed

lemma posix_no_conflict:
  assumes s: "lk_inv s" and r: "request_ok r" and c: "fresh mem s" "fresh mem2 s" "set_option mem \<inter> set_option mem2 = {}"
    and f: "fl_type r = F_UNLCK \<or> find (\<lambda>fl. IS_POSIX fl \<and> posix_locks_conflict r fl) (i_flock s ino) = None"
  shows "\<exists>s' e. do_posix_lock_file ino mem mem2 r s = Ok (s', e, None) \<and> lk_inv s' \<and> lock_call ino mem mem2 r s s' e None"
proof -
  let ?L = "i_flock s ino"
  define need where "need \<longleftrightarrow> fl_flags r AND FL_ACCESS = 0 \<and> (fl_type r \<noteq> F_UNLCK \<or> fl_start r \<noteq> 0 \<or> fl_end r \<noteq> OFFSET_MAX)"
  define m1 where "m1 = (if need then mem else None)"
  define m2 where "m2 = (if need then mem2 else None)"
  have L: "lock_list_ok ?L" "flock_ok ?L" using s unfolding lk_inv_def by auto
  have nc: "fl_type r \<noteq> F_UNLCK \<longrightarrow> (\<forall>l \<in> set ?L. \<not> posix_locks_conflict r l)" using f find_posix_none by blast
  have no: "(if fl_type r \<noteq> F_UNLCK then find (\<lambda>fl. IS_POSIX fl \<and> posix_locks_conflict r fl) ?L else None) = None" using f by auto
  show ?thesis
  proof (cases "fl_flags r AND FL_ACCESS \<noteq> 0")
    case True
    then show ?thesis using s nc no by (simp add: do_posix_lock_file_def Let_def lock_call_def)
  next
    case False
    obtain L' e s1 where a: "apply_lock m1 m2 r ?L s = (L', e, s1)" by (rule prod_cases3)
    let ?s' = "s1\<lparr>i_flock := (i_flock s1)(ino := L')\<rparr>"
    have res: "do_posix_lock_file ino mem mem2 r s = Ok (?s', e, None)"
      using False no a unfolding do_posix_lock_file_def Let_def need_def[symmetric] m1_def[symmetric] m2_def[symmetric] by simp
    have fr: "set_option m1 \<inter> fl_id ` set ?L = {}" "set_option m2 \<inter> fl_id ` set ?L = {}" "set_option m1 \<inter> set_option m2 = {}"
      and un: "\<forall>x \<in> set_option m1 \<union> set_option m2. unused x s"
      using c unfolding fresh_def unused_def m1_def m2_def by (simp_all; blast)+
    have out: "lock_outcome r s m1 m2 ?L (L', e, s1)" using apply_lock_outcome[OF L(1) r nc fr, of s] unfolding a .
    have wk: "woken ?L s L' s1" by (rule apply_woken[OF _ a]) (use L(1) in \<open>simp add: lock_list_ok_def\<close>)
    have i1: "i_flock s1 = i_flock s" using wk unfolding woken_def fold_wake_up by auto
    consider (nolock) "e = Some ENOLCK" "L' = ?L" "s1 = s" "m1 = None \<or> m2 = None"
      | (ok) "e = None \<or> e = Some ENOENT \<and> L' = ?L \<and> s1 = s \<and> fl_type r = F_UNLCK \<and> fl_flags r AND FL_EXISTS \<noteq> 0"
          "lock_list_ok L'" "fl_id ` set L' \<subseteq> fl_id ` set ?L \<union> set_option m1 \<union> set_option m2"
          "\<forall>b t. held_by (fl_owner r) L' b t \<longleftrightarrow>
            (if fl_start r \<le> b \<and> b \<le> fl_end r then fl_type r \<noteq> F_UNLCK \<and> t = fl_type r else held_by (fl_owner r) ?L b t)"
          "\<forall>ow. ow \<noteq> fl_owner r \<longrightarrow> filter (own ow) L' = filter (own ow) ?L" "filter (\<lambda>l. \<not> IS_POSIX l) L' = filter (\<lambda>l. \<not> IS_POSIX l) ?L"
      using out unfolding lock_outcome_def prod.case by blast
    then show ?thesis
    proof cases
      case nolock
      have "?s' = s" using nolock by simp
      moreover have "fl_type r = F_UNLCK \<longrightarrow> fl_start r \<noteq> 0 \<or> fl_end r \<noteq> OFFSET_MAX" using unlock_whole[OF L(1) _ _ _ a] nolock(1) by blast
      moreover have "mem = None \<or> mem2 = None" using nolock(4) calculation(2) False unfolding m1_def m2_def need_def by (auto split: if_splits)
      ultimately show ?thesis using res s nolock(1) unfolding lock_call_def by auto
    next
      case ok
      have inv: "lk_inv ?s'" by (rule lk_inv_list[OF s wk _ ok(2)]) (use ok(3) un flock_ok_same[OF ok(6) L(2)] in auto)
      have posted: "lock_posted ino r s ?s'" using ok(4-6) unfolding lock_posted_def i1 by simp
      show ?thesis
      proof (cases e)
        case None
        then show ?thesis using res inv posted nc False unfolding lock_call_def by auto
      next
        case (Some x)
        then have x: "e = Some ENOENT" "?s' = s" "fl_type r = F_UNLCK" "fl_flags r AND FL_EXISTS \<noteq> 0" using ok(1) by auto
        have "L' = ?L" using ok(1) x(1) by simp
        then have "\<not> held_by (fl_owner r) ?L b t" if "fl_start r \<le> b" "b \<le> fl_end r" for b t
          using ok(4)[rule_format, of b t] that x(3) by simp
        then show ?thesis using res inv x unfolding lock_call_def by auto
      qed
    qed
  qed
qed

lemma posix_call:
  assumes "lk_inv s" and "request_ok r" and "caller_ok r mem mem2 s"
  shows "\<exists>s' e c. do_posix_lock_file ino mem mem2 r s = Ok (s', e, c) \<and> lk_inv s' \<and> lock_call ino mem mem2 r s s' e c"
proof (cases "fl_type r \<noteq> F_UNLCK \<and> find (\<lambda>fl. IS_POSIX fl \<and> posix_locks_conflict r fl) (i_flock s ino) \<noteq> None")
  case True
  then show ?thesis using posix_conflict[OF assms(1,3)] by blast
next
  case False
  then show ?thesis using posix_no_conflict[OF assms(1,2)] assms(3) unfolding caller_ok_def by blast
qed

text \<open>Closing a file: nothing of the owner is left, and everything else is as it was.\<close>

lemma held_seg: "lock_list_ok L \<Longrightarrow> held_by ow L b t \<Longrightarrow> 0 \<le> b \<and> b \<le> OFFSET_MAX"
  unfolding held_by_def locked_at_def own_def using posix_seg by (fastforce simp: seg_ok_def)

lemma unlock_posted:
  assumes "fl_type r = F_UNLCK" "fl_start r = 0" "fl_end r = OFFSET_MAX" "fl_flags r AND FL_ACCESS = 0" "fl_flags r AND FL_EXISTS = 0"
    and "lock_call ino mem mem2 r s s' e c"
  shows "lock_posted ino r s s'"
  using assms by (auto simp: lock_call_def real_conflict_def)

lemma unlocked_none:
  assumes r: "fl_type r = F_UNLCK" "fl_start r = 0" "fl_end r = OFFSET_MAX" and p: "lock_posted ino r s s'" and L': "lock_list_ok (i_flock s' ino)"
  shows "filter (own (fl_owner r)) (i_flock s' ino) = []"
proof (rule ccontr)
  have none: "\<not> held_by (fl_owner r) (i_flock s' ino) b t" for b t
    using p held_seg[OF L', of "fl_owner r" b t] r unfolding lock_posted_def by auto
  assume "filter (own (fl_owner r)) (i_flock s' ino) \<noteq> []"
  then obtain l where l: "l \<in> set (filter (own (fl_owner r)) (i_flock s' ino))" by (meson last_in_set)
  then have "fl_start l \<le> fl_end l" using posix_seg[OF L'] by (auto simp: own_def seg_ok_def)
  then have "held_by (fl_owner r) (i_flock s' ino) (fl_start l) (fl_type l)" using l unfolding held_by_def locked_at_def by blast
  then show False using none by blast
qed

lemma close_call:
  assumes s: "lk_inv s"
  shows "\<exists>s'. locks_remove_posix ino filp owner tgid s = Ok s' \<and> lk_inv s' \<and> filter (own owner) (i_flock s' ino) = [] \<and>
    (\<forall>ow. ow \<noteq> owner \<longrightarrow> filter (own ow) (i_flock s' ino) = filter (own ow) (i_flock s ino)) \<and>
    filter (\<lambda>l. \<not> IS_POSIX l) (i_flock s' ino) = filter (\<lambda>l. \<not> IS_POSIX l) (i_flock s ino) \<and> (\<forall>i. i \<noteq> ino \<longrightarrow> i_flock s' i = i_flock s i)"
proof (cases "i_flock s ino = []")
  case True
  then show ?thesis using s by (simp add: locks_remove_posix_def)
next
  case False
  let ?r = "\<lparr>fl_id = 0, fl_owner = owner, fl_pid = tgid, fl_file = Some filp, fl_flags = FL_POSIX OR FL_CLOSE,
             fl_type = F_UNLCK, fl_start = 0, fl_end = OFFSET_MAX\<rparr>"
  have r: "request_ok ?r" by (simp add: request_ok_def IS_POSIX_def FL_POSIX_def FL_CLOSE_def OFFSET_MAX_def)
  have flags: "fl_flags ?r AND FL_ACCESS = 0" "fl_flags ?r AND FL_EXISTS = 0" by (simp_all add: FL_POSIX_def FL_CLOSE_def FL_ACCESS_def FL_EXISTS_def)
  obtain s' e where c: "do_posix_lock_file ino None None ?r s = Ok (s', e, None)" "lk_inv s'" "lock_call ino None None ?r s s' e None"
    using posix_no_conflict[OF s r, of None None ino] by (auto simp: fresh_def)
  have posted: "lock_posted ino ?r s s'" by (rule unlock_posted[OF _ _ _ flags c(3)]) simp_all
  have "lock_list_ok (i_flock s' ino)" using c(2) unfolding lk_inv_def by blast
  then have "filter (own owner) (i_flock s' ino) = []" using unlocked_none[OF _ _ _ posted] by simp
  moreover have "locks_remove_posix ino filp owner tgid s = Ok s'" using False c(1) by (simp add: locks_remove_posix_def)
  ultimately show ?thesis using c(2) posted unfolding lock_posted_def by simp
qed

subsection \<open>The invariant of the system\<close>

lemma lk_step_inv: "lk_step s s' \<Longrightarrow> lk_inv s \<Longrightarrow> lk_inv s'"
proof (induction rule: lk_step.induct)
  case (posix r mem mem2 s ino s' e c)
  then show ?case using posix_call[of s r mem mem2 ino] by auto
next
  case (interrupt s w)
  then show ?case using waits_ok_release unfolding delete_block_release lk_inv_def by auto
next
  case (close ino filp owner tgid s s')
  then show ?case using close_call[of s ino filp owner tgid] by auto
next
  case (release ino filp s s')
  then show ?case using fold_delete_inv by (auto simp: locks_remove_flock_def Let_def split: if_splits)
qed (blast intro: first_half_inv second_half_inv)+

lemma lk_init_inv: "lk_init s \<Longrightarrow> lk_inv s"
  by (simp add: lk_init_def lk_inv_def lock_list_ok_def flock_ok_def waits_ok_def segs_def held_by_def)

interpretation locking: invariant_system lk_init lk_step lk_inv
  using lk_init_inv lk_step_inv by unfold_locales

section \<open>Deadlocks\<close>

text \<open>
  An owner waits for a lock when one of its requests sleeps on it. The owner of the lock may wait in turn; a chain of such
  steps that comes back to the caller is a deadlock.
\<close>

definition waits_on :: "lock_state \<Rightarrow> file_lock \<Rightarrow> file_lock \<Rightarrow> bool" where
  "waits_on s l m \<longleftrightarrow> (\<exists>w \<in> set (blocked_list s). \<exists>i. fl_owner w = fl_owner l \<and> m \<in> set (i_flock s i) \<and>
     fl_next s (fl_id w) = Some (i, fl_id m) \<and> posix_locks_conflict w m)"

lemma same_id:
  assumes "lk_inv s" and "l \<in> set (i_flock s i)" and "m \<in> set (i_flock s i)" and "fl_id l = fl_id m"
  shows "l = m"
proof -
  have "inj_on fl_id (set (i_flock s i))" using assms(1) unfolding lk_inv_def lock_list_ok_def by (simp add: distinct_map)
  then show ?thesis using assms(2-4) by (simp add: inj_on_def)
qed

lemma waiting_for_waits_on:
  assumes s: "lk_inv s" and w: "what_owner_is_waiting_for s l = Ok (Some m)"
  shows "waits_on s l m"
proof -
  obtain w p where f: "find (\<lambda>fl. posix_same_owner fl l) (blocked_list s) = Some w" "fl_next s (fl_id w) = Some p" "lock_ref s p = Some m"
    using w unfolding what_owner_is_waiting_for_def by (auto split: option.splits)
  obtain i x where x: "x \<in> set (i_flock s i)" "fl_next s (fl_id w) = Some (i, fl_id x)" "posix_locks_conflict w x"
    using waits_blocked[of s w] find_in[OF f(1)] s unfolding lk_inv_def by blast
  have "m = x" using f(2,3) x(1,2) same_id[OF s _ x(1), of m] lock_ref_in[OF x(1)] by auto
  then show ?thesis using x find_in[OF f(1)] unfolding waits_on_def posix_same_owner_def by blast
qed

lemma waits_on_waiting_for:
  assumes s: "lk_inv s" and one: "distinct (map fl_owner (blocked_list s))" and w: "waits_on s l m"
  shows "what_owner_is_waiting_for s l = Ok (Some m)"
proof -
  obtain w i where w: "w \<in> set (blocked_list s)" "fl_owner w = fl_owner l" "m \<in> set (i_flock s i)" "fl_next s (fl_id w) = Some (i, fl_id m)"
    using w unfolding waits_on_def by blast
  obtain v where v: "find (\<lambda>fl. posix_same_owner fl l) (blocked_list s) = Some v"
    using w(1,2) by (cases "find (\<lambda>fl. posix_same_owner fl l) (blocked_list s)") (auto simp: find_None_iff posix_same_owner_def)
  have "v = w" using find_in[OF v] one w(1,2) by (simp add: distinct_map inj_on_def posix_same_owner_def)
  moreover have "lock_ref s (i, fl_id m) = Some m" using lock_ref_in[OF w(3)] same_id[OF s _ w(3)] by blast
  ultimately show ?thesis using v w(4) by (simp add: what_owner_is_waiting_for_def)
qed

text \<open>The loop follows eleven links.\<close>

lemma bounded_links:
  assumes R: "\<And>y. R l y \<longleftrightarrow> b = Some y"
  shows "(\<exists>k x. 0 < k \<and> i + k \<le> Suc M \<and> (R ^^ k) l x \<and> P x) \<longleftrightarrow>
    (\<exists>m. b = Some m \<and> i \<le> M \<and> (P m \<or> (\<exists>k x. 0 < k \<and> Suc i + k \<le> Suc M \<and> (R ^^ k) m x \<and> P x)))" (is "?l \<longleftrightarrow> ?r")
proof
  assume ?l
  then obtain k x where k: "0 < k" "i + k \<le> Suc M" "(R ^^ k) l x" "P x" by blast
  then obtain j where j: "k = Suc j" using gr0_conv_Suc by blast
  then obtain m where m: "R l m" "(R ^^ j) m x" using k(3) relpowp_Suc_D2 by metis
  show ?r
  proof (cases "j = 0")
    case False
    then have "0 < j" "Suc i + j \<le> Suc M" "i \<le> M" using k(2) j by simp_all
    then show ?thesis using m k(4) R by blast
  qed (use m k j R in auto)
next
  assume ?r
  then obtain m where m: "b = Some m" "i \<le> M" "P m \<or> (\<exists>k x. 0 < k \<and> Suc i + k \<le> Suc M \<and> (R ^^ k) m x \<and> P x)" by blast
  then have l: "R l m" using R by simp
  consider "P m" | k x where "Suc i + k \<le> Suc M" "(R ^^ k) m x" "P x" using m(3) by blast
  then show ?l
  proof cases
    case 1
    then show ?thesis using l m(2) by (intro exI[of _ 1] exI[of _ m]) auto
  next
    case 2
    then show ?thesis using relpowp_Suc_I2[OF l 2(2)] by (intro exI[of _ "Suc k"] exI[of _ x]) simp
  qed
qed

lemma deadlock_links:
  "lk_inv s \<Longrightarrow> distinct (map fl_owner (blocked_list s)) \<Longrightarrow>
   deadlock_loop s c i l = Ok (\<exists>k m. 0 < k \<and> i + k \<le> Suc MAX_DEADLK_ITERATIONS \<and> (waits_on s ^^ k) l m \<and> fl_owner c = fl_owner m)"
proof (induction s c i l rule: deadlock_loop.induct)
  case (1 s c i l)
  obtain b where b: "what_owner_is_waiting_for s l = Ok b" using waiting_ok 1(2) unfolding lk_inv_def by blast
  have "waits_on s l m \<longleftrightarrow> what_owner_is_waiting_for s l = Ok (Some m)" for m
    using waiting_for_waits_on[OF 1(2)] waits_on_waiting_for[OF 1(2,3)] by blast
  then have R: "waits_on s l m \<longleftrightarrow> b = Some m" for m unfolding b kresult.inject .
  note links = bounded_links[of "waits_on s", OF R]
  show ?case
  proof (cases b)
    case (Some m)
    show ?thesis unfolding links
      using 1(1)[OF b Some _ _ 1(2,3)] by (simp add: deadlock_loop.simps[of s c i l] b Some posix_same_owner_def del: relpowp.simps)
  next
    case None
    show ?thesis unfolding links by (simp add: deadlock_loop.simps[of s c i l] b None)
  qed
qed

end
