(* ===== verification/Lock_Interface.thy ===== *)
theory Lock_Interface
  imports Lock_System
begin

unbundle bit_operations_syntax

text \<open>
  From the \<^verbatim>\<open>struct flock\<close> of a caller to the request: the ranges that the conversions of \<^verbatim>\<open>fs/locks.c\<close> compute in 32 and in 64 bits, the
  calls behind \<^verbatim>\<open>F_SETLK\<close>, and the properties of file locks in every reachable state of the system.
\<close>

section \<open>Ranges from user space\<close>

text \<open>A signed type of machine integers: values in range stay, others are off by the size of the type.\<close>

locale signed_offset =
  fixes narrow :: "int \<Rightarrow> int" and N :: int
  assumes keep: "- N \<le> x \<Longrightarrow> x < N \<Longrightarrow> narrow x = x"
    and above: "N \<le> x \<Longrightarrow> x < 3 * N \<Longrightarrow> narrow x = x - 2 * N"
    and below: "- 3 * N \<le> x \<Longrightarrow> x < - N \<Longrightarrow> narrow x = x + 2 * N"
    and in_range: "- N \<le> narrow x \<and> narrow x < N"
    and fits: "0 < N \<and> N - 1 \<le> OFFSET_MAX"

lemma off_t_mod: "off_t x = (x + 2 ^ 31) mod 2 ^ 32 - 2 ^ 31"
  by (simp add: off_t_def signed_take_bit_eq_take_bit_shift take_bit_eq_mod sint_uint uint_word_of_int mod_add_left_eq)

lemma loff_t_mod: "loff_t x = (x + 2 ^ 63) mod 2 ^ 64 - 2 ^ 63"
  by (simp add: loff_t_def signed_take_bit_eq_take_bit_shift take_bit_eq_mod sint_uint uint_word_of_int mod_add_left_eq)

lemma wrap_offset:
  assumes N: "0 < N" "N - 1 \<le> OFFSET_MAX" and f: "\<And>x. f x = (x + N) mod (2 * N) - N"
  shows "signed_offset f N"
proof
  fix x :: int
  show "f x = x" if "- N \<le> x" "x < N" using that by (simp add: f mod_pos_pos_trivial)
  show "f x = x - 2 * N" if "N \<le> x" "x < 3 * N"
  proof -
    have "(x + N) mod (2 * N) = (x - N + 2 * N) mod (2 * N)" by (simp add: algebra_simps)
    also have "\<dots> = x - N" using that by (simp only: mod_add_self2) (simp add: mod_pos_pos_trivial)
    finally show ?thesis by (simp add: f)
  qed
  show "f x = x + 2 * N" if "- 3 * N \<le> x" "x < - N"
  proof -
    have "(x + N) mod (2 * N) = (x + N + 2 * N) mod (2 * N)" by (simp only: mod_add_self2)
    also have "\<dots> = x + 3 * N" using that by (simp add: mod_pos_pos_trivial)
    finally show ?thesis by (simp add: f)
  qed
  have "0 \<le> (x + N) mod (2 * N)" "(x + N) mod (2 * N) < 2 * N" using N by simp_all
  then show "- N \<le> f x \<and> f x < N" unfolding f by linarith
qed (use N in blast)

interpretation off32: signed_offset off_t "2 ^ 31"
  by (rule wrap_offset) (simp_all add: off_t_mod OFFSET_MAX_def)

interpretation off64: signed_offset loff_t "2 ^ 63"
  by (rule wrap_offset) (simp_all add: loff_t_mod OFFSET_MAX_def)

text \<open>
  The range that \<open>l_start\<close> and \<open>l_len\<close> describe, computed without bounds from the absolute position \<open>b\<close>; \<open>M\<close> is the
  largest offset.
\<close>

definition posix_range :: "int \<Rightarrow> int \<Rightarrow> int \<Rightarrow> (int \<times> int) kresult" where
  "posix_range M b len =
     (if b < 0 \<or> M < b then Err EINVAL
      else if len > 0 then (if M < b + len - 1 then Err EOVERFLOW else Ok (b, b + len - 1))
      else if len < 0 then (if b + len < 0 then Err EINVAL else Ok (b + len, b - 1))
      else Ok (b, OFFSET_MAX))"

definition whence_base :: "int \<Rightarrow> int \<Rightarrow> int \<Rightarrow> int" where
  "whence_base pos isize w = (if w = 0 then 0 else if w = 1 then pos else isize)"

text \<open>A conversion does not fail badly, and what it returns is a well-formed request at the same address.\<close>

definition conversion :: "(nat \<Rightarrow> nat \<Rightarrow> nat \<Rightarrow> file_lock \<Rightarrow> flock \<Rightarrow> file_lock kresult) \<Rightarrow> bool" where
  "conversion conv \<longleftrightarrow>
     (\<forall>filp files tgid fl l. conv filp files tgid fl l \<noteq> Bug \<and>
       (\<forall>r. conv filp files tgid fl l = Ok r \<longrightarrow> request_ok r \<and> fl_id r = fl_id fl))"

context signed_offset
begin

lemma end_exact:
  assumes "0 \<le> b" "b < N" "0 < len" "len < N"
  shows "narrow (narrow (b + len) - 1) = (if N - 1 < b + len - 1 then b + len - 2 * N - 1 else b + len - 1)"
proof -
  consider "b + len < N" | "b + len = N" | "N < b + len" by linarith
  then show ?thesis
  proof cases
    case 2
    then have "narrow (b + len) = - N" using above[of N] fits by simp
    then show ?thesis using 2 below[of "- N - 1"] fits by simp
  next
    case 3
    then have "narrow (b + len) = b + len - 2 * N" using above assms by simp
    then show ?thesis using 3 keep[of "b + len - 2 * N - 1"] assms by simp
  qed (use assms keep in simp)
qed

lemma rest_exact:
  assumes "0 \<le> b" "b < N" "- N \<le> len" "len < N"
  shows "(let fin = (if len > 0 then narrow (narrow (b + len) - 1) else if len < 0 then narrow (b - 1) else OFFSET_MAX);
              start = (if len < 0 then narrow (b + len) else b)
          in if start < 0 then Err EINVAL else if fin < start then Err EOVERFLOW else F start fin) =
         (case posix_range (N - 1) b len of Bug \<Rightarrow> Bug | Err e \<Rightarrow> Err e | Ok (st, en) \<Rightarrow> F st en)"
proof -
  consider (pos) "0 < len" | (neg) "len < 0" | (zero) "len = 0" by linarith
  then show ?thesis
  proof cases
    case pos
    then show ?thesis using assms end_exact[OF assms(1,2) pos assms(4)] by (simp add: posix_range_def Let_def)
  next
    case neg
    then have "narrow (b + len) = b + len" "narrow (b - 1) = b - 1" using keep assms by simp_all
    then show ?thesis using neg assms by (simp add: posix_range_def Let_def)
  next
    case zero
    then show ?thesis using assms fits by (simp add: posix_range_def Let_def)
  qed
qed

lemma range_exact:
  assumes b: "0 \<le> whence_base pos isize (l_whence l)" "whence_base pos isize (l_whence l) < N"
    and l: "- N \<le> l_start l" "l_start l < N" "- N \<le> l_len l" "l_len l < N"
  shows "to_posix_lock narrow pos isize filp files tgid fl l =
    (if l_whence l \<notin> {0, 1, 2} then Err EINVAL
     else case posix_range (N - 1) (whence_base pos isize (l_whence l) + l_start l) (l_len l) of
       Bug \<Rightarrow> Bug | Err e \<Rightarrow> Err e
     | Ok (st, en) \<Rightarrow> assign_type (fl\<lparr>fl_start := st, fl_end := en, fl_owner := files, fl_pid := tgid, fl_file := Some filp, fl_flags := FL_POSIX\<rparr>) (l_type l))"
proof -
  let ?B = "whence_base pos isize (l_whence l)"
  define b where "b = ?B + l_start l"
  have start: "narrow (narrow ?B + l_start l) = (if b < N then b else b - 2 * N)" 
    using b l keep[of ?B] keep[of b] above[of b] unfolding b_def by auto
  show ?thesis
  proof (cases "0 \<le> b \<and> b < N")
    case True
    then have s: "narrow (narrow ?B + l_start l) = b" using start by simp
    have b0: "0 \<le> b" "b < N" "(b < 0) = False" using True by simp_all
    show ?thesis
      unfolding to_posix_lock_def whence_base_def[symmetric] b_def[symmetric] Let_def[of "narrow ?B"] s Let_def[of b] b0(3) if_False
        rest_exact[OF b0(1,2) l(3,4)] ..
  next
    case False
    then have n: "(narrow (narrow ?B + l_start l) < 0) = True" using start b l unfolding b_def by auto
    have p: "posix_range (N - 1) b (l_len l) = Err EINVAL" using False by (auto simp: posix_range_def)
    show ?thesis
      unfolding to_posix_lock_def whence_base_def[symmetric] b_def[symmetric] Let_def[of "narrow ?B"] Let_def[of "narrow (narrow ?B + l_start l)"] n if_True p
        kresult.case ..
  qed
qed

lemma built_ok:
  assumes r: "to_posix_lock narrow pos isize filp files tgid fl l = Ok r"
  shows "request_ok r"
proof -
  obtain st en where e: "en = OFFSET_MAX \<or> (\<exists>x. en = narrow x)" "0 \<le> st" "st \<le> en"
      and a: "assign_type (fl\<lparr>fl_start := st, fl_end := en, fl_owner := files, fl_pid := tgid, fl_file := Some filp, fl_flags := FL_POSIX\<rparr>) (l_type l) = Ok r"
    using r unfolding to_posix_lock_def Let_def
    by (auto simp only: not_less kresult.distinct split: if_split_asm)
  have "en \<le> OFFSET_MAX" using e(1) in_range fits by (metis (no_types, lifting) dual_order.trans less_eq_int_code(1) order_refl zle_diff1_eq)
  then show ?thesis using a e(2,3)
    by (auto simp: assign_type_def request_ok_def IS_POSIX_def FL_POSIX_def F_RDLCK_def F_WRLCK_def F_UNLCK_def split: if_splits)
qed

lemma to_posix_conversion: "conversion (to_posix_lock narrow pos isize)"
  unfolding conversion_def
proof (intro allI conjI impI)
  fix filp files tgid fl l r
  show "to_posix_lock narrow pos isize filp files tgid fl l \<noteq> Bug" by (simp add: to_posix_lock_def assign_type_def Let_def)
  assume r: "to_posix_lock narrow pos isize filp files tgid fl l = Ok r"
  show "request_ok r" by (rule built_ok[OF r])
  show "fl_id r = fl_id fl" using r by (auto simp: to_posix_lock_def assign_type_def Let_def split: if_splits)
qed

end

lemma flock_request_ok: "flock_to_posix_lock pos isize filp files tgid fl l = Ok r \<Longrightarrow> request_ok r"
  unfolding flock_to_posix_lock_def by (rule off32.built_ok)

lemma flock_range:
  assumes "0 \<le> whence_base pos isize (l_whence l)" "whence_base pos isize (l_whence l) \<le> OFFT_OFFSET_MAX"
    and "- (2 ^ 31) \<le> l_start l" "l_start l < 2 ^ 31" "- (2 ^ 31) \<le> l_len l" "l_len l < 2 ^ 31"
  shows "flock_to_posix_lock pos isize filp files tgid fl l =
    (if l_whence l \<notin> {0, 1, 2} then Err EINVAL
     else case posix_range OFFT_OFFSET_MAX (whence_base pos isize (l_whence l) + l_start l) (l_len l) of
       Bug \<Rightarrow> Bug | Err e \<Rightarrow> Err e
     | Ok (st, en) \<Rightarrow> assign_type (fl\<lparr>fl_start := st, fl_end := en, fl_owner := files, fl_pid := tgid, fl_file := Some filp, fl_flags := FL_POSIX\<rparr>) (l_type l))"
  unfolding flock_to_posix_lock_def OFFT_OFFSET_MAX_def
  by (rule off32.range_exact) (use assms in \<open>simp_all add: OFFT_OFFSET_MAX_def\<close>)

text \<open>
  Above \<^verbatim>\<open>OFFT_OFFSET_MAX\<close> the position is cut to 32 bits: a lock from position 2^32 + 100 of a large file is a lock of byte
  100, and what \<^verbatim>\<open>F_GETLK\<close> reports for a lock of the first 2^31 bytes has a negative length.
\<close>

lemma flock_truncated:
  "flock_to_posix_lock (2 ^ 32 + 100) isize filp files tgid (locks_init_lock a) \<lparr>l_type = 1, l_whence = 1, l_start = 0, l_len = 1, l_pid = 0\<rparr> =
     Ok ((locks_init_lock a)\<lparr>fl_start := 100, fl_end := 100, fl_owner := files, fl_pid := tgid, fl_file := Some filp, fl_flags := FL_POSIX, fl_type := F_WRLCK\<rparr>)"
  by (simp add: flock_to_posix_lock_def to_posix_lock_def off_t_mod assign_type_def F_WRLCK_def)

lemma getlk_negative_length:
  "posix_lock_to_flock f (fl\<lparr>fl_start := 0, fl_end := OFFT_OFFSET_MAX\<rparr>) =
     Ok (f\<lparr>l_pid := fl_pid fl, l_start := 0, l_len := - (2 ^ 31), l_whence := 0, l_type := uint (fl_type fl)\<rparr>)"
  by (simp add: posix_lock_to_flock_def OFFT_OFFSET_MAX_def OFFSET_MAX_def off_t_mod)

text \<open>
  \<^verbatim>\<open>F_SETLK\<close> and \<^verbatim>\<open>F_SETLKW\<close>, for either width: the call fails early and changes nothing, or does what the lock function does, and sleeps
  only in a queue.
\<close>

lemma setlk_request_keeps: "setlk_request cl l fl = Ok r \<Longrightarrow> request_ok fl \<Longrightarrow> request_ok r \<and> fl_id r = fl_id fl"
  by (auto simp: setlk_request_def request_ok_def IS_POSIX_def FL_POSIX_def FL_SLEEP_def Let_def bit.conj_disj_distrib2 split: if_splits option.splits)

lemma setlk_not_bug: "setlk_request cl l fl \<noteq> Bug"
  by (simp add: setlk_request_def Let_def split: option.split)

definition setlk_done :: "setlk_call \<Rightarrow> nat option \<times> nat option \<Rightarrow> nat \<Rightarrow> lock_state \<Rightarrow> lock_state \<Rightarrow> lock_progress \<Rightarrow> bool" where
  "setlk_done cl mems a s s' p \<longleftrightarrow>
     (\<exists>r e c. request_ok r \<and> fl_id r = a \<and> lock_call (c_inode cl) (fst mems) (snd mems) r s s' e c \<and>
       p = (if e = Some EAGAIN \<and> c_wait cl then Lock_sleep r else Lock_return e))"

lemma setlk_again_call:
  assumes s: "lk_inv s" and c: "caller_ok (locks_init_lock a) (fst mems) (snd mems) s" and conv: "conversion conv"
  shows "\<exists>s' p. setlk_again conv a cl mems l s = Ok (s', p) \<and> lk_inv s' \<and>
    ((\<exists>e. s' = s \<and> p = Lock_return (Some e)) \<or> setlk_done cl mems a s s' p)"
proof (cases "conv (c_filp cl) (c_files cl) (c_tgid cl) (locks_init_lock a) l")
  case Bug
  then show ?thesis using conv unfolding conversion_def by blast
next
  case (Err e)
  then show ?thesis using s by (simp add: setlk_again_def)
next
  case (Ok fl)
  have fl: "request_ok fl" "fl_id fl = a" using conv Ok unfolding conversion_def by (auto simp: locks_init_lock_def)
  show ?thesis
  proof (cases "setlk_request cl l fl")
    case Bug
    then show ?thesis using setlk_not_bug by blast
  next
    case (Err e)
    then show ?thesis using s Ok by (simp add: setlk_again_def)
  next
    case r: (Ok r)
    have rok: "request_ok r" "fl_id r = a" using setlk_request_keeps[OF r fl(1)] fl(2) by auto
    then have "caller_ok r (fst mems) (snd mems) s" using c by (simp add: caller_ok_def locks_init_lock_def)
    then obtain s' e x where d: "do_posix_lock_file (c_inode cl) (fst mems) (snd mems) r s = kresult.Ok (s', e, x)" "lk_inv s'"
        "lock_call (c_inode cl) (fst mems) (snd mems) r s s' e x"
      using posix_call[OF s rok(1)] by blast
    then have "setlk_done cl mems a s s' (if e = Some EAGAIN \<and> c_wait cl then Lock_sleep r else Lock_return e)"
      using rok unfolding setlk_done_def by blast
    then show ?thesis using d(2) by (auto simp: setlk_again_def setlk_lock_def Ok r d(1) split: if_splits)
  qed
qed

lemma fcntl_setlk_call:
  assumes "lk_inv s" and "caller_ok (locks_init_lock a) (fst mems) (snd mems) s"
  shows "\<exists>s' p. fcntl_setlk at1 at2 (Some a) cl mems mems2 fault mapped False l s = Ok (s', p) \<and> lk_inv s' \<and>
    ((\<exists>e. s' = s \<and> p = Lock_return (Some e)) \<or> setlk_done cl mems a s s' p)"
  using setlk_again_call[OF assms off32.to_posix_conversion, of "fst at1" "snd at1" cl l] assms(1)
  by (auto simp: fcntl_setlk_def setlk_def setlk_recheck_def flock_to_posix_lock_def)

lemma fcntl_setlk64_call:
  assumes "lk_inv s" and "caller_ok (locks_init_lock a) (fst mems) (snd mems) s"
  shows "\<exists>s' p. fcntl_setlk64 at1 at2 (Some a) cl mems mems2 fault mapped False l s = Ok (s', p) \<and> lk_inv s' \<and>
    ((\<exists>e. s' = s \<and> p = Lock_return (Some e)) \<or> setlk_done cl mems a s s' p)"
  using setlk_again_call[OF assms off64.to_posix_conversion, of "fst at1" "snd at1" cl l] assms(1)
  by (auto simp: fcntl_setlk64_def setlk_def setlk_recheck_def flock64_to_posix_lock_def)

section \<open>A run\<close>

text \<open>
  Owner 1 writes bytes 0 to 9, owner 2 bytes 20 to 29, and a request of owner 2 for bytes 5 to 6 sleeps.
\<close>

definition write_lock :: "nat \<Rightarrow> nat \<Rightarrow> u8 \<Rightarrow> int \<Rightarrow> int \<Rightarrow> file_lock" where
  "write_lock a ow flags st en = \<lparr>fl_id = a, fl_owner = ow, fl_pid = ow, fl_file = None, fl_flags = flags, fl_type = F_WRLCK, fl_start = st, fl_end = en\<rparr>"

definition run0 :: lock_state where
  "run0 = \<lparr>i_flock = (\<lambda>i. []), fl_block = (\<lambda>b. []), fl_next = (\<lambda>w. None), blocked_list = []\<rparr>"

definition run1 :: lock_state where
  "run1 = run0\<lparr>i_flock := (i_flock run0)(0 := [write_lock 10 1 1 0 9])\<rparr>"

definition run2 :: lock_state where
  "run2 = run1\<lparr>i_flock := (i_flock run1)(0 := [write_lock 10 1 1 0 9, write_lock 12 2 1 20 29])\<rparr>"

definition run3 :: lock_state where
  "run3 = run2\<lparr>fl_block := (fl_block run2)(10 := [102]), fl_next := (fl_next run2)(102 \<mapsto> (0, 10)), blocked_list := [write_lock 102 2 129 5 6]\<rparr>"

definition flock_lock :: "nat \<Rightarrow> nat \<Rightarrow> u8 \<Rightarrow> file_lock" where
  "flock_lock a filp ty = \<lparr>fl_id = a, fl_owner = 0, fl_pid = 0, fl_file = Some filp, fl_flags = FL_FLOCK, fl_type = ty, fl_start = 0, fl_end = OFFSET_MAX\<rparr>"

lemma delete_lock_list [simp]:
  "i_flock (locks_delete_lock ino a s) = (i_flock s)(ino := filter (\<lambda>fl. fl_id fl \<noteq> a) (i_flock s ino))"
  by (simp add: locks_delete_lock_def wake_up_release)

lemma copied_flock: "is_flock r \<Longrightarrow> is_flock (locks_copy_lock (locks_init_lock a) r)"
  by (simp add: is_flock_def IS_FLOCK_def IS_LEASE_def IS_POSIX_def locks_copy_lock_def do_locks_copy_lock_def)

lemmas run_defs = run0_def run1_def run2_def run3_def write_lock_def

lemmas lock_eval = do_posix_lock_file_def apply_lock_def finish_locks_def Let_def IS_POSIX_def posix_same_owner_def posix_locks_conflict_def
  locks_overlap_def locks_conflict_def FL_POSIX_def FL_ACCESS_def FL_SLEEP_def FL_EXISTS_def F_RDLCK_def F_WRLCK_def F_UNLCK_def OFFSET_MAX_def
  locks_copy_lock_def do_locks_copy_lock_def locks_init_lock_def locks_insert_block_def posix_locks_deadlock_def
  what_owner_is_waiting_for_def lock_ref_def MAX_DEADLK_ITERATIONS_def same_lock_def

text \<open>
  Undoing a lock after a race with \<^verbatim>\<open>close\<close> computes the range anew. When the file position has moved in the meantime, a range relative
  to it is another one: the call returns success, and the lock it has set stays.
\<close>

lemma setlk_race_leak:
  "\<exists>s'. fcntl_setlk64 (0, 0) (50, 0) (Some 9) \<lparr>c_inode = 0, c_filp = 7, c_files = 1, c_tgid = 1, c_wait = False, c_readable = True, c_writable = True, c_security = (\<lambda>t. None)\<rparr>
     (Some 10, Some 11) (Some 12, Some 13) False False True \<lparr>l_type = 1, l_whence = 1, l_start = 0, l_len = 10, l_pid = 0\<rparr> run0 = Ok (s', Lock_return None) \<and>
     held_by 1 (i_flock s' 0) 5 F_WRLCK"
  by (simp add: fcntl_setlk64_def setlk_def setlk_again_def setlk_lock_def setlk_recheck_def setlk_request_def flock64_to_posix_lock_def to_posix_lock_def
    loff_t_mod assign_type_def lock_eval run_defs held_by_def own_def)

lemma run_1: "do_posix_lock_file 0 (Some 10) (Some 11) (write_lock 100 1 1 0 9) run0 = Ok (run1, None, None)"
  by (simp add: lock_eval run_defs)

lemma run_2: "do_posix_lock_file 0 (Some 12) (Some 13) (write_lock 101 2 1 20 29) run1 = Ok (run2, None, None)"
  by (simp add: lock_eval run_defs)

lemma run_3: "do_posix_lock_file 0 (Some 14) (Some 15) (write_lock 102 2 129 5 6) run2 = Ok (run3, Some EAGAIN, Some (write_lock 10 1 1 0 9))"
  by (simp add: lock_eval deadlock_loop.simps run_defs)

lemma run_reach: "reach lk_init lk_step run3"
proof -
  have r: "request_ok (write_lock a ow 1 st en)" "request_ok (write_lock a ow 129 st en)" if "0 \<le> st" "st \<le> en" "en < 100" for a ow st en
    using that by (simp_all add: request_ok_def write_lock_def lock_eval)
  have c: "caller_ok (write_lock 100 1 1 0 9) (Some 10) (Some 11) run0" "caller_ok (write_lock 101 2 1 20 29) (Some 12) (Some 13) run1"
      "caller_ok (write_lock 102 2 129 5 6) (Some 14) (Some 15) run2"
    by (auto simp: caller_ok_def fresh_def unused_def run_defs)
  have "reach lk_init lk_step run0" by (rule reach.start) (simp add: lk_init_def run0_def)
  moreover have "lk_step run0 run1" by (rule lk_step.posix[OF r(1) c(1) run_1]) simp_all
  moreover have "lk_step run1 run2" by (rule lk_step.posix[OF r(1) c(2) run_2]) simp_all
  moreover have "lk_step run2 run3" by (rule lk_step.posix[OF r(2) c(3) run_3]) simp_all
  ultimately show ?thesis by (meson reach.step)
qed

section \<open>Properties\<close>

text \<open>
  C35. In every reachable state a call of \<^verbatim>\<open>__posix_lock_file\<close> with a well-formed request returns without hitting a
  \<^verbatim>\<open>BUG_ON\<close>. On success the bytes of the range, and only those, have the requested type for the owner (none after an unlock),
  and the locks of other owners, the whole-file locks and the other inodes are as before. \<^verbatim>\<open>EAGAIN\<close> and \<^verbatim>\<open>EDEADLK\<close> report a lock
  that does conflict; the lists do not change, and with \<^verbatim>\<open>FL_SLEEP\<close> the request is queued behind that lock. \<^verbatim>\<open>ENOLCK\<close> needs a failed
  allocation and never happens when a whole file is unlocked, and \<^verbatim>\<open>ENOENT\<close> means that the owner had nothing locked in the range.
\<close>

theorem posix_lock_file_correct:
  assumes "reach lk_init lk_step s" and "request_ok r" and "caller_ok r mem mem2 s"
  shows "\<exists>s' e c. do_posix_lock_file ino mem mem2 r s = Ok (s', e, c) \<and> lock_call ino mem mem2 r s s' e c"
  using posix_call[OF locking.reach_inv[OF assms(1)] assms(2,3)] by blast

theorem posix_lock_file_correct_witness:
  "\<exists>s' e c. do_posix_lock_file 0 (Some 20) (Some 21) ((write_lock 103 1 1 3 5)\<lparr>fl_type := F_UNLCK\<rparr>) run3 = Ok (s', e, c) \<and>
     lock_call 0 (Some 20) (Some 21) ((write_lock 103 1 1 3 5)\<lparr>fl_type := F_UNLCK\<rparr>) run3 s' e c"
  by (rule posix_lock_file_correct[OF run_reach])
    (auto simp: request_ok_def caller_ok_def fresh_def unused_def run_defs lock_eval)

text \<open>
  C36. In every reachable state, whatever the order of calls, signals and closing files: two owners hold the same byte only for
  reading; no two whole-file locks conflict; and nobody sleeps in vain: whoever is linked to a lock waits in the queue of a lock
  that is in the list, and a sleeping POSIX request conflicts with the lock it waits for.
\<close>

theorem locks_exclusive:
  assumes "reach lk_init lk_step s"
  shows "(held_by o1 (i_flock s i) b t1 \<and> held_by o2 (i_flock s i) b t2 \<and> o1 \<noteq> o2 \<longrightarrow> t1 = F_RDLCK \<and> t2 = F_RDLCK) \<and>
    (x \<in> set (i_flock s i) \<and> y \<in> set (i_flock s i) \<and> is_flock x \<and> is_flock y \<longrightarrow> \<not> flock_locks_conflict x y) \<and>
    (fl_next s w = Some (i, a) \<longrightarrow> w \<in> set (fl_block s a) \<and> a \<in> fl_id ` set (i_flock s i)) \<and>
    (wl \<in> set (blocked_list s) \<longrightarrow>
      (\<exists>j. \<exists>l \<in> set (i_flock s j). fl_next s (fl_id wl) = Some (j, fl_id l) \<and> posix_locks_conflict wl l))"
proof -
  have inv: "lk_inv s" by (rule locking.reach_inv[OF assms])
  then have "lock_list_ok (i_flock s i)" "flock_ok (i_flock s i)" and w: "waits_ok s" unfolding lk_inv_def by blast+
  moreover have "fl_next s w = Some (i, a) \<longrightarrow> w \<in> set (fl_block s a) \<and> a \<in> fl_id ` set (i_flock s i)" using w unfolding waits_ok_def by blast
  ultimately show ?thesis using waits_blocked[OF w, of wl] unfolding lock_list_ok_def flock_ok_def by blast
qed

theorem locks_exclusive_witness:
  "\<exists>j. \<exists>l \<in> set (i_flock run3 j). fl_next run3 (fl_id (write_lock 102 2 129 5 6)) = Some (j, fl_id l) \<and> posix_locks_conflict (write_lock 102 2 129 5 6) l"
  using locks_exclusive[OF run_reach, of 1 0 0 F_WRLCK 2 F_WRLCK "write_lock 10 1 1 0 9" "write_lock 12 2 1 20 29" 102 10 "write_lock 102 2 129 5 6"]
  by (simp add: run3_def)



text \<open>
  C38. Two tasks that share an open file with a shared lock and both ask for an exclusive one: the first deletes the old lock and
  yields (\<^verbatim>\<open>cond_resched_bkl\<close>), the second finds no old lock and sets its own, and the first then sets another. The list holds
  two locks of one open file; \<^verbatim>\<open>LOCK_UN\<close> removes one and returns success, and another file is refused the lock.
\<close>

theorem flock_upgrade_race:
  assumes l: "i_flock s ino = [l]" "is_flock l" "fl_type l = F_RDLCK" "fl_file l = Some f"
    and r: "is_flock r" "fl_file r = Some f" "fl_type r = F_WRLCK" "fl_flags r AND FL_ACCESS = 0"
    and u: "fl_file u = Some f" "fl_type u = F_UNLCK" "fl_flags u AND FL_ACCESS = 0"
    and q: "fl_file q = Some g" "g \<noteq> f" "fl_type q = F_WRLCK" "fl_flags q AND FL_ACCESS = 0" "fl_flags q AND FL_SLEEP = 0"
    and "a \<noteq> b"
  shows "\<exists>s1 s2 s3 s4.
    flock_first_half ino (Some a) r s = (s1, Flock_continue True) \<and>
    flock_lock_file ino (Some b) r s1 = Ok (s2, None) \<and>
    flock_second_half ino a r s2 = Ok (s3, None) \<and>
    i_flock s3 ino = [locks_copy_lock (locks_init_lock b) r, locks_copy_lock (locks_init_lock a) r] \<and>
    flock_lock_file ino None u s3 = Ok (s4, None) \<and>
    i_flock s4 ino = [locks_copy_lock (locks_init_lock a) r] \<and>
    flock_lock_file ino (Some c) q s4 = Ok (s4, Some EAGAIN)"
proof -
  let ?n = "\<lambda>a. locks_copy_lock (locks_init_lock a) r"
  let ?s1 = "locks_delete_lock ino (fl_id l) s"
  let ?s2 = "?s1\<lparr>i_flock := (i_flock ?s1)(ino := [?n b])\<rparr>"
  let ?s3 = "?s2\<lparr>i_flock := (i_flock ?s2)(ino := [?n b, ?n a])\<rparr>"
  let ?s4 = "locks_delete_lock ino b ?s3"
  have n: "is_flock (?n x)" "fl_file (?n x) = Some f" "fl_type (?n x) = F_WRLCK" "fl_id (?n x) = x" for x
    using copied_flock[OF r(1)] r(2,3) by (simp_all add: locks_copy_lock_def do_locks_copy_lock_def locks_init_lock_def)
  have s1: "i_flock ?s1 ino = []" using l(1) by simp
  have s4: "i_flock ?s4 ino = [?n a]" using \<open>a \<noteq> b\<close> n by simp
  have "flock_first_half ino (Some a) r s = (?s1, Flock_continue True)"
    using l r by (simp add: flock_first_half_def Let_def is_flock_def F_RDLCK_def F_WRLCK_def F_UNLCK_def)
  moreover have "flock_lock_file ino (Some b) r ?s1 = Ok (?s2, None)"
    using s1 r by (simp add: flock_lock_file_def flock_first_half_def flock_second_half_def Let_def F_WRLCK_def F_UNLCK_def)
  moreover have "flock_second_half ino a r ?s2 = Ok (?s3, None)"
    using r n by (simp add: flock_second_half_def Let_def is_flock_def flock_locks_conflict_def)
  moreover have "flock_lock_file ino None u ?s3 = Ok (?s4, None)"
    using u n by (simp add: flock_lock_file_def flock_first_half_def Let_def is_flock_def F_WRLCK_def F_UNLCK_def)
  moreover have "flock_lock_file ino (Some c) q ?s4 = Ok (?s4, Some EAGAIN)"
    using s4 q n by (simp add: flock_lock_file_def flock_first_half_def flock_second_half_def Let_def is_flock_def flock_locks_conflict_def locks_conflict_def
      F_WRLCK_def F_UNLCK_def LOCK_MAND_def)
  moreover have "i_flock ?s3 ino = [?n b, ?n a]" by simp
  ultimately show ?thesis using s4 by (intro exI conjI)
qed

theorem flock_upgrade_race_witness:
  "\<exists>s1 s2 s3 s4.
    flock_first_half 0 (Some 20) (flock_lock 20 7 F_WRLCK) (run0\<lparr>i_flock := (\<lambda>i. [flock_lock 10 7 F_RDLCK])\<rparr>) = (s1, Flock_continue True) \<and>
    flock_lock_file 0 (Some 21) (flock_lock 20 7 F_WRLCK) s1 = Ok (s2, None) \<and>
    flock_second_half 0 20 (flock_lock 20 7 F_WRLCK) s2 = Ok (s3, None) \<and>
    i_flock s3 0 = [locks_copy_lock (locks_init_lock 21) (flock_lock 20 7 F_WRLCK), locks_copy_lock (locks_init_lock 20) (flock_lock 20 7 F_WRLCK)] \<and>
    flock_lock_file 0 None (flock_lock 22 7 F_UNLCK) s3 = Ok (s4, None) \<and>
    i_flock s4 0 = [locks_copy_lock (locks_init_lock 20) (flock_lock 20 7 F_WRLCK)] \<and>
    flock_lock_file 0 (Some 23) (flock_lock 24 8 F_WRLCK) s4 = Ok (s4, Some EAGAIN)"
  by (rule flock_upgrade_race[where l = "flock_lock 10 7 F_RDLCK" and f = 7 and g = 8])
    (simp_all add: flock_lock_def is_flock_def IS_FLOCK_def IS_POSIX_def IS_LEASE_def FL_FLOCK_def FL_POSIX_def FL_LEASE_def FL_ACCESS_def FL_SLEEP_def)

text \<open>
  C39. \<^verbatim>\<open>F_SETLK64\<close> and \<^verbatim>\<open>F_GETLK64\<close>: for offsets in the range of \<^verbatim>\<open>loff_t\<close> the request built is exactly the range that \<open>l_whence\<close>,
  \<open>l_start\<close> and \<open>l_len\<close> describe, computed without overflow, and the error is the one of that computation.
\<close>

theorem flock64_range:
  assumes "0 \<le> whence_base pos isize (l_whence l)" "whence_base pos isize (l_whence l) \<le> OFFSET_MAX"
    and "- (2 ^ 63) \<le> l_start l" "l_start l < 2 ^ 63" "- (2 ^ 63) \<le> l_len l" "l_len l < 2 ^ 63"
  shows "flock64_to_posix_lock pos isize filp files tgid fl l =
    (if l_whence l \<notin> {0, 1, 2} then Err EINVAL
     else case posix_range OFFSET_MAX (whence_base pos isize (l_whence l) + l_start l) (l_len l) of
       Bug \<Rightarrow> Bug | Err e \<Rightarrow> Err e
     | Ok (st, en) \<Rightarrow> assign_type (fl\<lparr>fl_start := st, fl_end := en, fl_owner := files, fl_pid := tgid, fl_file := Some filp, fl_flags := FL_POSIX\<rparr>) (l_type l))"
  unfolding flock64_to_posix_lock_def OFFSET_MAX_def
  by (rule off64.range_exact[unfolded OFFSET_MAX_def]) (use assms in \<open>simp_all add: OFFSET_MAX_def\<close>)

theorem flock64_range_witness:
  "flock64_to_posix_lock 0 (2 ^ 40) 3 4 5 (locks_init_lock 6) \<lparr>l_type = 1, l_whence = 2, l_start = 100, l_len = - 50, l_pid = 0\<rparr> =
     Ok ((locks_init_lock 6)\<lparr>fl_start := 2 ^ 40 + 50, fl_end := 2 ^ 40 + 99, fl_owner := 4, fl_pid := 5, fl_file := Some 3, fl_flags := FL_POSIX, fl_type := 1\<rparr>)"
  using flock64_range[of 0 "2 ^ 40" "\<lparr>l_type = 1, l_whence = 2, l_start = 100, l_len = - 50, l_pid = 0\<rparr>" 3 4 5 "locks_init_lock 6"]
  by (simp add: whence_base_def OFFSET_MAX_def posix_range_def assign_type_def)

text \<open>
  C40. \<^verbatim>\<open>locks_remove_posix\<close>, when a file is closed, succeeds in every reachable state, without memory: no lock of the owner on the
  inode is left, and the locks of other owners, the whole-file locks and the other inodes are as before.
\<close>

theorem close_removes_locks:
  assumes "reach lk_init lk_step s"
  shows "\<exists>s'. locks_remove_posix ino filp owner tgid s = Ok s' \<and> filter (own owner) (i_flock s' ino) = [] \<and>
    (\<forall>ow. ow \<noteq> owner \<longrightarrow> filter (own ow) (i_flock s' ino) = filter (own ow) (i_flock s ino)) \<and>
    filter (\<lambda>l. \<not> IS_POSIX l) (i_flock s' ino) = filter (\<lambda>l. \<not> IS_POSIX l) (i_flock s ino) \<and> (\<forall>i. i \<noteq> ino \<longrightarrow> i_flock s' i = i_flock s i)"
  using close_call[OF locking.reach_inv[OF assms]] by blast

theorem close_removes_locks_witness:
  "\<exists>s'. locks_remove_posix 0 7 1 1 run3 = Ok s' \<and> filter (own 1) (i_flock s' 0) = [] \<and> filter (own 2) (i_flock s' 0) = [write_lock 12 2 1 20 29]"
proof -
  have "filter (own 2) (i_flock run3 0) = [write_lock 12 2 1 20 29]" by (simp add: own_def run_defs lock_eval)
  then show ?thesis using close_removes_locks[OF run_reach, of 0 7 1 1] by (metis numeral_eq_one_iff semiring_norm(85))
qed

end
