(* ===== verification/Spec2Isabelle.thy ===== *)
theory Spec2Isabelle
  imports Kernel_Prelude Kfifo Skbuff Socket_Filter Filter_Attach Rwsem Semaphore Byte_Order Crypto_Cipher Crypto_Modes Task_Groups Posix_Acl Message_Digest
    File_Locks Posix_Locks Lock_System Lock_Interface
begin

text \<open>
  \<^bold>\<open>Core components of the Linux 2.6.26 kernel of the BOOX60 reader\<close>

  The repository is the kernel of an e-book reader (\<^verbatim>\<open>src/linux\<close>), its boot loader (\<^verbatim>\<open>src/ecos\<close>) and the files of its initial RAM
  disk (\<^verbatim>\<open>src/onyx\<close>). This development models parts of the kernel whose behaviour is determined by their own code: data
  structures, an interpreter, locks, ciphers and digests, and access decisions. It follows the configuration the repository
  builds: 32-bit ARM, little-endian, one processor. Paths below are relative to \<^verbatim>\<open>src/linux\<close>.

  \<^bold>\<open>Conventions\<close>

  A C function is a HOL function of the same name (a leading \<^verbatim>\<open>__\<close> becomes a suffix or a prefix, see the text at the definition). Machine
  integers are words of their width where they can wrap, and otherwise integers with the wrap-around written out; signed overflow wraps as the compiler's
  code does. Structures are records. Objects that are shared or counted live on explicit heaps. A result is \<open>Ok\<close>, an error number
  \<open>Err\<close>, or \<open>Bug\<close>: a \<^verbatim>\<open>BUG_ON\<close>, an access outside its object, or a use after free; some theories use \<open>None\<close>
  for a copy that leaves its buffer. What the code asks from outside (does an allocation succeed, does a copy from user space fail, the verdict of
  a security module, the chunks of a scatterlist walk) is an argument. Code that runs concurrently is a step relation with one step per critical
  section (\<open>Transition\<close>: \<open>reach\<close>, and the locale \<open>invariant_system\<close> with its rule for invariants).

  \<^bold>\<open>Theories\<close>

  \<^item> \<open>Kernel_Prelude\<close>, \<open>Transition\<close>, \<open>Byte_Order\<close>: machine types, error numbers, bounded block copies; transition systems; integers in
    memory. Generic facts on lists, words and powers of two.
  \<^item> \<open>Kfifo\<close>: \<^verbatim>\<open>kernel/kfifo.c\<close>, \<^verbatim>\<open>include/linux/kfifo.h\<close>. The locale \<open>byte_queue\<close> holds the laws of a queue; the ring buffer with free-running
    32-bit indices is an instance. C1: any run of calls delivers the accepted bytes in order, across the wrap of the indices. C2: \<^verbatim>\<open>kfifo_alloc\<close>.
  \<^item> \<open>Skbuff\<close>: \<^verbatim>\<open>skb_copy_bits\<close>, \<^verbatim>\<open>skb_header_pointer\<close>, \<^verbatim>\<open>nla_find\<close>. C3: reading a packet in any layout is reading its flat bytes. C4, C5: the
    attribute search is bounded, given five bytes behind the stream, and reads out of bounds without them.
  \<^item> \<open>Socket_Filter\<close>: \<^verbatim>\<open>sk_chk_filter\<close> and \<^verbatim>\<open>sk_run_filter\<close> of \<^verbatim>\<open>net/core/filter.c\<close>, instruction by instruction. The loop is a partial function (\<open>None\<close> for not
    returning); C6 and C7 show that it returns for every program the checker accepts, because jumps only go forward. C6: the faults the checker
    excludes. C7: programs that return a value. C8, C9: two faults it does not exclude.
  \<^item> \<open>Filter_Attach\<close>: attaching, detaching, cloning and freeing (\<^verbatim>\<open>net/core/filter.c\<close>, \<^verbatim>\<open>net/core/sock.c\<close>, \<^verbatim>\<open>include/net/sock.h\<close>), on a heap of counted filters,
    with the RCU callbacks as later steps. C10: no dangling filter, exact counts and charges, in every reachable state. C11: every packet
    gets a verdict. C12: a failed attach changes nothing. C13: nothing is left when a socket is freed.
  \<^item> \<open>Rwsem\<close> (\<^verbatim>\<open>lib/rwsem-spinlock.c\<close>) and \<open>Semaphore\<close> (\<^verbatim>\<open>kernel/semaphore.c\<close>, with \<^verbatim>\<open>schedule_timeout\<close>): any number of tasks, interleaved at critical sections.
    C14 to C16: exclusion, granting in order, and that every waiter can be served. C17, C18: conservation of tokens, and when a wait may fail.
  \<^item> \<open>Crypto_Cipher\<close>, \<open>Crypto_Modes\<close>: TEA, XTEA, XETA and Blowfish with its key schedule and tables; ECB, CBC, PCBC and CTR over any cipher of the locale
    \<open>block_cipher\<close>, in place and between buffers. C19 to C22: decryption undoes encryption for every key and every chunking. C23: the counter.
  \<^item> \<open>Task_Groups\<close> (\<^verbatim>\<open>kernel/sys.c\<close>): supplementary groups, their blocks, the Shell sort, the binary search and the system calls. C24 to C26: \<^verbatim>\<open>setgroups\<close>,
    \<^verbatim>\<open>getgroups\<close> and the membership test. C27: the search fails for ids more than 2^31 apart.
  \<^item> \<open>Posix_Acl\<close> (\<^verbatim>\<open>fs/posix_acl.c\<close>, \<^verbatim>\<open>fs/xattr_acl.c\<close>), which calls \<^verbatim>\<open>in_group_p\<close> of \<open>Task_Groups\<close>. C28 to C32: validity, the access decision, inheritance, modes,
    and the form as an extended attribute.
  \<^item> \<open>Message_Digest\<close>: MD4, MD5, SHA-1, SHA-224 and SHA-256. C33: over the locale \<open>stream_hash\<close>, any cutting into updates below 2^29 bytes gives the digest of the
    whole message. C34: larger updates lose bits of the length of SHA-256.
  \<^item> \<open>File_Locks\<close>: the model of \<^verbatim>\<open>fs/locks.c\<close>: the lists of POSIX and \<^verbatim>\<open>flock\<close> locks of all inodes, the queues of waiting requests, and the system calls. A lock that has been
    merged into one of the list is followed by its address, since the code goes on writing through the pointer.
  \<^item> \<open>Posix_Locks\<close>: what \<^verbatim>\<open>__posix_lock_file\<close> does to one list, branch by branch, up to \<open>apply_lock_outcome\<close>: which owner holds which byte afterwards.
  \<^item> \<open>Lock_System\<close>: which waiters each change wakes, the step relation \<open>lk_step\<close> (setting, the two halves of \<^verbatim>\<open>flock\<close>, signals, closing), its invariant, and chains
    of waiting owners.
  \<^item> \<open>Lock_Interface\<close>: ranges from user space in 32 and 64 bits (locale \<open>signed_offset\<close>), the calls behind \<^verbatim>\<open>F_SETLK\<close>, and the properties. C35: a request changes
    exactly its bytes, and each error has its cause. C36: exclusion, and nobody waits for a lock that is gone. C37: the deadlock search finds exactly
    the cycles of at most eleven owners. C38: a race of two \<^verbatim>\<open>flock\<close> upgrades. C39: the range of a request. C40: closing.

  \<^bold>\<open>Interaction\<close>

  The filter reads packets through \<^verbatim>\<open>skb_header_pointer\<close> (C11 rests on C3 and C6's lemmas); a socket runs only programs the checker has accepted because attach is
  the only way in. The access decision of an ACL uses the sorted group list that \<^verbatim>\<open>setgroups\<close> has left. The modes are proved once over the interface that each
  cipher implements. The lock functions rely on requests that \<^verbatim>\<open>fcntl\<close> builds (\<open>request_ok\<close>, established by \<open>to_posix_conversion\<close>).

  \<^bold>\<open>Bounds\<close>

  No theorem bounds the number of tasks, locks, filters, packets or calls. Digests are bounded by updates below 2^29 bytes and messages below the
  length counter, group lists by \<^verbatim>\<open>NGROUPS_MAX\<close>, file offsets by \<^verbatim>\<open>OFFSET_MAX\<close>; each bound is a hypothesis with its reason in the code. Loops are recursions with a termination proof
  except the interpreter loop (above); the deadlock search ends by its own counter.

  \<^bold>\<open>Not modelled\<close>

  Of the modelled files: allocation, cloning and modification of packet buffers; the parts of sockets that do not concern filters; the registration of
  ciphers, modes and digests; file leases, mandatory locking, share modes, lock managers and \<^verbatim>\<open>/proc/locks\<close>. A sleeping task is a member of a queue; which runnable
  task runs next is left open. Memory ordering does not arise on one processor.

  Of the repository: drivers, processor-specific code and the boot loader, whose correctness is about hardware that the sources do not describe; memory management, the
  block layer, the scheduler, the network protocols and the file systems, whose state spans most of the kernel, so that a faithful part of them would need the
  rest as hypotheses; security modules, which enter as verdicts; start-up code, host tools and scripts, which produce no state that the components above depend on.
\<close>

end
